(* ===== verification/Prelude.thy ===== *)
theory Prelude
  imports Main "HOL-Library.Word"
begin

unbundle bit_operations_syntax

text \<open>
  Shared vocabulary of the development.

  \<^item> \<open>exn\<close>: everything that can stop a C++ function other than a normal return.  The
    sources throw \<open>std::exception\<close> everywhere and name the intended exception class in a
    comment on the same line; the constructors carry that name.  \<open>Undefined_behaviour\<close>
    (null or dangling dereference, out-of-range access, signed overflow), \<open>Deadlock\<close> (a
    thread locks a \<open>std::mutex\<close> it holds) and \<open>Diverges\<close> (a loop ran out of the fuel
    the model gives it) are no C++ exceptions and no handler catches them.
  \<^item> \<open>('s, 'a) eff\<close>: a stateful computation that may stop with an \<open>exn\<close>.  The state
    reached at the throw is part of the result, because C++ does not roll it back.
  \<^item> \<open>wpE\<close>: the weakest precondition of a computation, for normal and exceptional exit.
  \<^item> bytes, C integers and little-endian integer images in memory.
\<close>

named_theorems wp_simps \<open>equations that push \<open>wpE\<close> through a program\<close>

section \<open>Exceptions and stateful computations\<close>

datatype exn =
    Closed_file | Eof | Page_already_free | Invalid_page | Page_pinned
  | Page_already_unpinned | Page_not_in_buf | No_mem | No_buf
  | Incomplete_read | Incomplete_header_read | Incomplete_write | Incomplete_header_write
  | Unix_error | Std_exception
  | Undefined_behaviour | Deadlock | Diverges

definition is_std :: "exn \<Rightarrow> bool" where
  "is_std e \<longleftrightarrow> e \<notin> {Undefined_behaviour, Deadlock, Diverges}"

type_synonym 'a res = "exn + 'a"

type_synonym ('s, 'a) eff = "'s \<Rightarrow> 'a res \<times> 's"

definition retE :: "'a \<Rightarrow> ('s, 'a) eff" where
  "retE x = (\<lambda>s. (Inr x, s))"

definition throwE :: "exn \<Rightarrow> ('s, 'a) eff" where
  "throwE e = (\<lambda>s. (Inl e, s))"

definition bindE :: "('s, 'a) eff \<Rightarrow> ('a \<Rightarrow> ('s, 'b) eff) \<Rightarrow> ('s, 'b) eff" where
  "bindE m f = (\<lambda>s. case m s of (Inl e, s') \<Rightarrow> (Inl e, s') | (Inr x, s') \<Rightarrow> f x s')"

definition seqE :: "('s, 'a) eff \<Rightarrow> ('s, 'b) eff \<Rightarrow> ('s, 'b) eff" where
  "seqE m k = bindE m (\<lambda>_. k)"

definition getE :: "('s \<Rightarrow> 'a) \<Rightarrow> ('s, 'a) eff" where
  "getE f = (\<lambda>s. (Inr (f s), s))"

definition modE :: "('s \<Rightarrow> 's) \<Rightarrow> ('s, unit) eff" where
  "modE f = (\<lambda>s. (Inr (), f s))"

text \<open>\<open>liftE\<close> runs a pure computation that may fail; \<open>guardE\<close> is \<open>if (!b) throw e\<close>;
  \<open>catchE\<close> is a \<open>try\<close> block with a handler for \<open>std::exception\<close>.\<close>

definition liftE :: "('s \<Rightarrow> 'a res) \<Rightarrow> ('s, 'a) eff" where
  "liftE f = (\<lambda>s. (f s, s))"

definition guardE :: "bool \<Rightarrow> exn \<Rightarrow> ('s, unit) eff" where
  "guardE b e = (if b then retE () else throwE e)"

definition whenE :: "bool \<Rightarrow> ('s, unit) eff \<Rightarrow> ('s, unit) eff" where
  "whenE b m = (if b then m else retE ())"

definition catchE :: "('s, 'a) eff \<Rightarrow> (exn \<Rightarrow> ('s, 'a) eff) \<Rightarrow> ('s, 'a) eff" where
  "catchE m h = (\<lambda>s. case m s of
      (Inl e, s') \<Rightarrow> if is_std e then h e s' else (Inl e, s')
    | (Inr x, s') \<Rightarrow> (Inr x, s'))"

lemmas eff_defs = retE_def throwE_def bindE_def seqE_def getE_def modE_def liftE_def guardE_def
  whenE_def catchE_def

section \<open>Weakest preconditions\<close>

definition wpE :: "('s, 'a) eff \<Rightarrow> ('a \<Rightarrow> 's \<Rightarrow> bool) \<Rightarrow> (exn \<Rightarrow> 's \<Rightarrow> bool) \<Rightarrow> 's \<Rightarrow> bool" where
  "wpE m Q R s = (case m s of (Inr x, s') \<Rightarrow> Q x s' | (Inl e, s') \<Rightarrow> R e s')"

lemma wpE_ret [wp_simps]: "wpE (retE x) Q R s = Q x s"
  by (simp add: wpE_def retE_def)

lemma wpE_throw [wp_simps]: "wpE (throwE e) Q R s = R e s"
  by (simp add: wpE_def throwE_def)

lemma wpE_get [wp_simps]: "wpE (getE f) Q R s = Q (f s) s"
  by (simp add: wpE_def getE_def)

lemma wpE_mod [wp_simps]: "wpE (modE f) Q R s = Q () (f s)"
  by (simp add: wpE_def modE_def)

lemma wpE_bind [wp_simps]: "wpE (bindE m f) Q R s = wpE m (\<lambda>x. wpE (f x) Q R) R s"
  by (auto simp: wpE_def bindE_def split: prod.splits sum.splits)

lemma wpE_seq [wp_simps]: "wpE (seqE m k) Q R s = wpE m (\<lambda>_. wpE k Q R) R s"
  by (simp add: seqE_def wpE_bind)

lemma wpE_lift [wp_simps]:
  "wpE (liftE f) Q R s = (case f s of Inl e \<Rightarrow> R e s | Inr x \<Rightarrow> Q x s)"
  by (simp add: wpE_def liftE_def split: sum.splits)

lemma wpE_guard [wp_simps]: "wpE (guardE b e) Q R s = (if b then Q () s else R e s)"
  by (simp add: guardE_def wpE_ret wpE_throw)

lemma wpE_when [wp_simps]: "wpE (whenE b m) Q R s = (if b then wpE m Q R s else Q () s)"
  by (simp add: whenE_def wpE_ret)

lemma wpE_if [wp_simps]: "wpE (if b then m else k) Q R s = (if b then wpE m Q R s else wpE k Q R s)"
  by simp

lemma wpE_catch [wp_simps]:
  "wpE (catchE m h) Q R s =
     wpE m Q (\<lambda>e s'. if is_std e then wpE (h e) Q R s' else R e s') s"
  by (auto simp: wpE_def catchE_def split: prod.splits sum.splits)

lemma wpE_mono:
  assumes "wpE m Q R s"
    and "\<And>x s'. Q x s' \<Longrightarrow> Q' x s'" and "\<And>e s'. R e s' \<Longrightarrow> R' e s'"
  shows "wpE m Q' R' s"
  using assms by (auto simp: wpE_def split: prod.splits sum.splits)

lemma wpE_conj:
  "wpE m (\<lambda>x s'. Q x s' \<and> Q' x s') (\<lambda>e s'. R e s' \<and> R' e s') s
     \<longleftrightarrow> wpE m Q R s \<and> wpE m Q' R' s"
  by (auto simp: wpE_def split: prod.splits sum.splits)

lemma wpE_runI: "(\<And>x s'. m s = (Inr x, s') \<Longrightarrow> Q x s') \<Longrightarrow> (\<And>e s'. m s = (Inl e, s') \<Longrightarrow> R e s')
  \<Longrightarrow> wpE m Q R s"
  by (auto simp: wpE_def split: prod.splits sum.splits)

lemma wpE_retD: "wpE m Q R s \<Longrightarrow> m s = (Inr x, s') \<Longrightarrow> Q x s'"
  by (simp add: wpE_def)

lemma wpE_throwD: "wpE m Q R s \<Longrightarrow> m s = (Inl e, s') \<Longrightarrow> R e s'"
  by (simp add: wpE_def)

lemma seqE_assoc: "seqE (seqE a b) c = seqE a (seqE b c)"
  by (auto simp: seqE_def bindE_def fun_eq_iff split: prod.splits sum.splits)

lemma wpE_seq_ret: "wpE (seqE m (retE x)) Q R s = wpE m (\<lambda>_. Q x) R s"
  by (auto simp: wpE_def seqE_def bindE_def retE_def split: prod.splits sum.splits)

lemma wpE_seq_throw: "wpE (seqE m (throwE e)) Q R s = wpE m (\<lambda>_. R e) R s"
  by (auto simp: wpE_def seqE_def bindE_def throwE_def split: prod.splits sum.splits)

lemma bindE_get: "bindE (getE g) f s = f (g s) s"
  by (simp add: bindE_def getE_def)

lemma seqE_guard: "seqE (guardE b e) k s = (if b then k s else (Inl e, s))"
  by (simp add: seqE_def bindE_def guardE_def retE_def throwE_def)

lemma seqE_Inr: "seqE m k s = (Inr y, s') \<longleftrightarrow> (\<exists>x s1. m s = (Inr x, s1) \<and> k s1 = (Inr y, s'))"
  by (auto simp: seqE_def bindE_def split: prod.splits sum.splits)

lemma bindE_Inr: "bindE m f s = (Inr y, s') \<longleftrightarrow> (\<exists>x s1. m s = (Inr x, s1) \<and> f x s1 = (Inr y, s'))"
  by (auto simp: bindE_def split: prod.splits sum.splits)

text \<open>Evaluation of the first command of a program.\<close>

named_theorems run_simps \<open>equations that run the first command of a program\<close>

lemma run_first [run_simps]:
  "bindE (getE g) f s = f (g s) s" "seqE (modE h) k s = k (h s)"
  "bindE (retE x) f s = f x s" "seqE (retE x) k s = k s"
  "bindE (throwE e) f s = (Inl e, s)" "seqE (throwE e) k s = (Inl e, s)"
  "bindE (liftE r) f s = (case r s of Inl e \<Rightarrow> (Inl e, s) | Inr x \<Rightarrow> f x s)"
  "seqE (guardE b e) k s = (if b then k s else (Inl e, s))"
  "seqE (whenE b m) k s = (if b then seqE m k s else k s)"
  "retE x s = (Inr x, s)" "throwE e s = (Inl e, s)" "modE h s = (Inr (), h s)" "getE g s = (Inr (g s), s)"
  "liftE r s = (r s, s)"
  by (auto simp: eff_defs split: sum.splits)

lemma bindE_run: "m s = (Inr x, s') \<Longrightarrow> bindE m f s = f x s'"
  by (simp add: bindE_def)

lemma seqE_run: "m s = (Inr x, s') \<Longrightarrow> seqE m k s = k s'"
  by (simp add: seqE_def bindE_def)

lemma bindE_fail: "m s = (Inl e, s') \<Longrightarrow> bindE m f s = (Inl e, s')"
  by (simp add: bindE_def)

lemma seqE_fail: "m s = (Inl e, s') \<Longrightarrow> seqE m k s = (Inl e, s')"
  by (simp add: seqE_def bindE_def)

text \<open>A computation that keeps a predicate of the state, on both exits.\<close>

definition keepsE :: "('s \<Rightarrow> bool) \<Rightarrow> ('s, 'a) eff \<Rightarrow> bool" where
  "keepsE I m \<longleftrightarrow> (\<forall>s. I s \<longrightarrow> I (snd (m s)))"

lemma keepsE_step: "keepsE I m \<Longrightarrow> m s = (r, s') \<Longrightarrow> I s \<Longrightarrow> I s'"
  by (auto simp: keepsE_def dest: spec [of _ s])

named_theorems keeps_rules \<open>rules that split \<open>keepsE\<close> along a program\<close>

lemma keepsE_bind [keeps_rules]: "keepsE I m \<Longrightarrow> (\<And>x. keepsE I (f x)) \<Longrightarrow> keepsE I (bindE m f)"
  unfolding keepsE_def bindE_def
  by (auto split: prod.splits sum.splits)

lemma keepsE_seq [keeps_rules]: "keepsE I m \<Longrightarrow> keepsE I k \<Longrightarrow> keepsE I (seqE m k)"
  unfolding seqE_def by (rule keepsE_bind)

lemma keepsE_basic [keeps_rules]:
  "keepsE I (retE x)" "keepsE I (throwE e)" "keepsE I (getE g)" "keepsE I (liftE h)" "keepsE I (guardE c e)"
  by (simp_all add: keepsE_def retE_def throwE_def getE_def liftE_def guardE_def)

lemma keepsE_when [keeps_rules]: "keepsE I m \<Longrightarrow> keepsE I (whenE c m)"
  by (simp add: whenE_def keepsE_basic)

lemma keepsE_if [keeps_rules]: "keepsE I m \<Longrightarrow> keepsE I k \<Longrightarrow> keepsE I (if c then m else k)"
  by simp

lemma keepsE_mod: "(\<And>s. I s \<Longrightarrow> I (f s)) \<Longrightarrow> keepsE I (modE f)"
  by (simp add: keepsE_def modE_def)

section \<open>Pure computations that may fail\<close>

definition bindR :: "'a res \<Rightarrow> ('a \<Rightarrow> 'b res) \<Rightarrow> 'b res" where
  "bindR m f = (case m of Inl e \<Rightarrow> Inl e | Inr x \<Rightarrow> f x)"

lemma bindR_simps [simp]: "bindR (Inl e) f = Inl e" "bindR (Inr x) f = f x"
  by (simp_all add: bindR_def)

lemma bindR_eq_Inr: "bindR m f = Inr y \<longleftrightarrow> (\<exists>x. m = Inr x \<and> f x = Inr y)"
  by (cases m) auto

section \<open>C integers\<close>

text \<open>
  \<open>int\<close> is 32 bits wide.  Signed overflow is undefined behaviour, so an \<open>int\<close>
  expression is checked against its range; \<open>c_rem\<close> is the truncating \<open>%\<close> of C++.
\<close>

definition int_range :: "int \<Rightarrow> bool" where
  "int_range i \<longleftrightarrow> - (2 ^ 31) \<le> i \<and> i < 2 ^ 31"

definition c_int :: "int \<Rightarrow> int res" where
  "c_int i = (if int_range i then Inr i else Inl Undefined_behaviour)"

definition c_rem :: "int \<Rightarrow> int \<Rightarrow> int" where
  "c_rem a b = sgn a * (\<bar>a\<bar> mod \<bar>b\<bar>)"

lemma c_rem_nonneg: "0 \<le> a \<Longrightarrow> 0 < b \<Longrightarrow> c_rem a b = a mod b"
  by (cases "a = 0") (auto simp: c_rem_def)

section \<open>Bytes and integer images\<close>

type_synonym byte = "8 word"

text \<open>A 32-bit integer in memory: four bytes, least significant first.\<close>

definition enc32 :: "32 word \<Rightarrow> byte list" where
  "enc32 w = [ucast w, ucast (drop_bit 8 w), ucast (drop_bit 16 w), ucast (drop_bit 24 w)]"

definition dec32 :: "byte list \<Rightarrow> 32 word" where
  "dec32 bs = ucast (bs ! 0) OR push_bit 8 (ucast (bs ! 1))
     OR push_bit 16 (ucast (bs ! 2)) OR push_bit 24 (ucast (bs ! 3))"

lemma length_enc32 [simp]: "length (enc32 w) = 4"
  by (simp add: enc32_def)

lemma dec32_enc32 [simp]: "dec32 (enc32 w @ rest) = w"
proof (rule bit_word_eqI)
  fix n assume n: "n < LENGTH(32)"
  then consider "n < 8" | "8 \<le> n" "n < 16" | "16 \<le> n" "n < 24" | "24 \<le> n" "n < 32"
    by fastforce
  then show "bit (dec32 (enc32 w @ rest)) n = bit w n"
    by cases (auto simp: dec32_def enc32_def bit_simps)
qed

definition enc_int :: "int \<Rightarrow> byte list" where
  "enc_int i = enc32 (word_of_int i)"

definition dec_int :: "byte list \<Rightarrow> int" where
  "dec_int bs = sint (dec32 bs)"

lemma length_enc_int [simp]: "length (enc_int i) = 4"
  by (simp add: enc_int_def)

lemma sint_word_of_int32: "int_range i \<Longrightarrow> sint (word_of_int i :: 32 word) = i"
  by (auto simp: int_range_def signed_take_bit_int_eq_self_iff sint_sbintrunc')

text \<open>Storing a wider integer into an \<open>int\<close> keeps the low 32 bits.\<close>

definition to_int32 :: "int \<Rightarrow> int" where
  "to_int32 i = sint (word_of_int i :: 32 word)"

lemma to_int32_id: "- (2 ^ 31) \<le> i \<Longrightarrow> i < 2 ^ 31 \<Longrightarrow> to_int32 i = i"
  unfolding to_int32_def by (rule sint_word_of_int32) (simp add: int_range_def)

lemma dec_int_enc_int [simp]: "int_range i \<Longrightarrow> dec_int (enc_int i @ rest) = i"
  by (simp add: dec_int_def enc_int_def sint_word_of_int32)

end
