(* ===== verification/Hash_Table.thy ===== *)
theory Hash_Table
  imports Prelude
begin

text \<open>
  \<^verbatim>\<open>io/hash_table.{h,cc}\<close>: the page table of the buffer manager, an array of buckets, each a
  doubly linked list of heap-allocated entries \<open>(fd, page, slot)\<close>.  The model keeps the
  pointers: a heap maps addresses to entries, \<open>delete\<close> removes the address (so a dangling
  pointer is seen when it is dereferenced) and \<open>new\<close> hands out the lowest free address, so
  freed addresses are reused.  Keys hash by \<open>(fd + page) % bucket_num_\<close> with C's remainder.

  The lemmas show that on a well-formed table no operation dereferences a null or dangling
  pointer, every loop ends, and the operations implement a finite map from pages to slots.
\<close>

section \<open>The model\<close>

type_synonym ptr = "nat option"

record hash_entry =
  he_fd :: int
  he_page :: int
  he_slot :: int
  he_prev :: ptr
  he_next :: ptr

type_synonym entry_heap = "nat \<rightharpoonup> hash_entry"

record hash_table =
  bucket_num :: int
  buckets :: "ptr list"
  heap :: entry_heap
  brk :: nat

definition deref :: "entry_heap \<Rightarrow> ptr \<Rightarrow> (nat \<times> hash_entry) res" where
  "deref m p = (case p of None \<Rightarrow> Inl Undefined_behaviour
     | Some a \<Rightarrow> (case m a of None \<Rightarrow> Inl Undefined_behaviour | Some e \<Rightarrow> Inr (a, e)))"

definition set_next :: "entry_heap \<Rightarrow> ptr \<Rightarrow> ptr \<Rightarrow> entry_heap res" where
  "set_next m p q = bindR (deref m p) (\<lambda>(a, e). Inr (m(a \<mapsto> e\<lparr>he_next := q\<rparr>)))"

definition set_prev :: "entry_heap \<Rightarrow> ptr \<Rightarrow> ptr \<Rightarrow> entry_heap res" where
  "set_prev m p q = bindR (deref m p) (\<lambda>(a, e). Inr (m(a \<mapsto> e\<lparr>he_prev := q\<rparr>)))"

text \<open>\<open>operator new\<close>: all addresses from \<open>brk\<close> on are free, and so is every address below
  that holds no entry.\<close>

definition new_addr :: "hash_table \<Rightarrow> nat" where
  "new_addr h = (case List.find (\<lambda>a. heap h a = None) [0..<brk h] of
     Some a \<Rightarrow> a | None \<Rightarrow> brk h)"

definition mk_hash_table :: "int \<Rightarrow> hash_table res" where
  "mk_hash_table n = (if n < 0 then Inl Std_exception
     else Inr \<lparr>bucket_num = n, buckets = replicate (nat n) None, heap = Map.empty, brk = 0\<rparr>)"

definition ht_hash :: "hash_table \<Rightarrow> int \<Rightarrow> int \<Rightarrow> int res" where
  "ht_hash h fd page = (if int_range (fd + page) \<and> bucket_num h \<noteq> 0
     then Inr (c_rem (fd + page) (bucket_num h)) else Inl Undefined_behaviour)"

definition bucket_at :: "hash_table \<Rightarrow> int \<Rightarrow> ptr res" where
  "bucket_at h i = (if 0 \<le> i \<and> i < int (length (buckets h))
     then Inr (buckets h ! nat i) else Inl Undefined_behaviour)"

text \<open>The loop of \<open>find\<close> and of \<open>remove\<close>: follow \<open>next\<close> until the key or the end.\<close>

fun walk :: "nat \<Rightarrow> entry_heap \<Rightarrow> ptr \<Rightarrow> int \<Rightarrow> int \<Rightarrow> ptr res" where
  "walk 0 m p fd page = Inl Diverges"
| "walk (Suc n) m None fd page = Inr None"
| "walk (Suc n) m (Some a) fd page =
     bindR (deref m (Some a)) (\<lambda>(_, e).
       if he_fd e = fd \<and> he_page e = page then Inr (Some a)
       else walk n m (he_next e) fd page)"

definition ht_find :: "hash_table \<Rightarrow> int \<Rightarrow> int \<Rightarrow> int res" where
  "ht_find h fd page =
     bindR (ht_hash h fd page) (\<lambda>bucket.
     bindR (bucket_at h bucket) (\<lambda>entry.
     bindR (walk (Suc (brk h)) (heap h) entry fd page) (\<lambda>found.
       case found of None \<Rightarrow> Inr (-1)
       | Some _ \<Rightarrow> bindR (deref (heap h) found) (\<lambda>(_, e). Inr (he_slot e)))))"

definition ht_insert :: "hash_table \<Rightarrow> int \<Rightarrow> int \<Rightarrow> int \<Rightarrow> hash_table res" where
  "ht_insert h fd page slot =
     bindR (ht_find h fd page) (\<lambda>exist.
     if exist \<noteq> -1 then Inr h
     else
     bindR (ht_hash h fd page) (\<lambda>bucket.
     bindR (bucket_at h bucket) (\<lambda>head.
     let a = new_addr h;
         m = (heap h)(a \<mapsto> \<lparr>he_fd = fd, he_page = page, he_slot = slot,
                            he_prev = None, he_next = head\<rparr>);
         h' = h\<lparr>buckets := (buckets h)[nat bucket := Some a], brk := max (brk h) (Suc a)\<rparr>
     in if head \<noteq> None then bindR (set_prev m head (Some a)) (\<lambda>m'. Inr (h'\<lparr>heap := m'\<rparr>))
        else Inr (h'\<lparr>heap := m\<rparr>))))"

definition ht_remove :: "hash_table \<Rightarrow> int \<Rightarrow> int \<Rightarrow> hash_table res" where
  "ht_remove h fd page =
     bindR (ht_find h fd page) (\<lambda>exist.
     if exist = -1 then Inr h
     else
     bindR (ht_hash h fd page) (\<lambda>bucket.
     bindR (bucket_at h bucket) (\<lambda>head.
     bindR (walk (Suc (brk h)) (heap h) head fd page) (\<lambda>entry.
     bindR (deref (heap h) entry) (\<lambda>(a, e).
       if entry = head
       then Inr (h\<lparr>buckets := (buckets h)[nat bucket := he_next e], heap := (heap h)(a := None)\<rparr>)
       else if he_next e = None
       then bindR (set_next (heap h) (he_prev e) None) (\<lambda>m. Inr (h\<lparr>heap := m(a := None)\<rparr>))
       else bindR (set_prev (heap h) (he_next e) (he_prev e)) (\<lambda>m.
            bindR (set_next m (he_prev e) (he_next e)) (\<lambda>m'.
              Inr (h\<lparr>heap := m'(a := None)\<rparr>))))))))"

text \<open>The destructor: delete every entry of every bucket.\<close>

fun free_chain :: "nat \<Rightarrow> entry_heap \<Rightarrow> ptr \<Rightarrow> entry_heap res" where
  "free_chain 0 m p = Inl Diverges"
| "free_chain (Suc n) m None = Inr m"
| "free_chain (Suc n) m (Some a) =
     bindR (deref m (Some a)) (\<lambda>(_, e). free_chain n (m(a := None)) (he_next e))"

fun free_buckets :: "nat \<Rightarrow> entry_heap \<Rightarrow> ptr list \<Rightarrow> entry_heap res" where
  "free_buckets n m [] = Inr m"
| "free_buckets n m (p # ps) = bindR (free_chain n m p) (\<lambda>m'. free_buckets n m' ps)"

definition ht_destroy :: "hash_table \<Rightarrow> entry_heap res" where
  "ht_destroy h = free_buckets (Suc (brk h)) (heap h) (buckets h)"

section \<open>Linked segments of the heap\<close>

fun seg :: "entry_heap \<Rightarrow> ptr \<Rightarrow> nat list \<Rightarrow> ptr \<Rightarrow> bool" where
  "seg m p [] q \<longleftrightarrow> p = q"
| "seg m p (a # as) q \<longleftrightarrow> p = Some a \<and> (\<exists>e. m a = Some e \<and> seg m (he_next e) as q)"

fun linked :: "entry_heap \<Rightarrow> nat list \<Rightarrow> bool" where
  "linked m (a # b # as) \<longleftrightarrow> (\<exists>e. m b = Some e \<and> he_prev e = Some a) \<and> linked m (b # as)"
| "linked m _ \<longleftrightarrow> True"

definition entry_key :: "entry_heap \<Rightarrow> nat \<Rightarrow> int \<times> int" where
  "entry_key m a = (he_fd (the (m a)), he_page (the (m a)))"

lemma seg_append: "seg m p (xs @ ys) q \<longleftrightarrow> (\<exists>r. seg m p xs r \<and> seg m r ys q)"
  by (induction xs arbitrary: p) auto

lemma seg_cong:
  "(\<And>a. a \<in> set as \<Longrightarrow> map_option he_next (m' a) = map_option he_next (m a))
    \<Longrightarrow> seg m' p as q = seg m p as q"
proof (induction as arbitrary: p)
  case (Cons a as)
  then have *: "map_option he_next (m' a) = map_option he_next (m a)"
    and IH: "\<And>p. seg m' p as q = seg m p as q" by simp_all
  from * show ?case by (auto simp: IH map_option_case split: option.splits)
qed simp

lemma linked_cong:
  "(\<And>a. a \<in> set (tl as) \<Longrightarrow> map_option he_prev (m' a) = map_option he_prev (m a))
    \<Longrightarrow> linked m' as = linked m as"
proof (induction as rule: linked.induct [of _ m])
  case (1 m a b as)
  then have *: "map_option he_prev (m' b) = map_option he_prev (m b)"
    and IH: "linked m' (b # as) = linked m (b # as)" by simp_all
  from * show ?case by (auto simp: IH map_option_case split: option.splits)
qed auto

lemma linked_Cons:
  "linked m (a # as) \<longleftrightarrow> linked m as
     \<and> (as \<noteq> [] \<longrightarrow> (\<exists>e. m (hd as) = Some e \<and> he_prev e = Some a))"
  by (cases as) auto

lemma linked_append:
  "linked m (xs @ ys) \<longleftrightarrow> linked m xs \<and> linked m ys
     \<and> (xs \<noteq> [] \<and> ys \<noteq> [] \<longrightarrow> (\<exists>e. m (hd ys) = Some e \<and> he_prev e = Some (last xs)))"
proof (induction xs)
  case (Cons a xs)
  then show ?case
    by (cases xs) (auto simp: linked_Cons simp del: linked.simps(1))
qed simp

lemma seg_alloc: "seg m p as q \<Longrightarrow> a \<in> set as \<Longrightarrow> \<exists>e. m a = Some e"
  by (induction as arbitrary: p) auto

lemma seg_redirect:
  assumes "seg m p (xs @ [b]) q" and "b \<notin> set xs" and "m b = Some e"
  shows "seg (m(b \<mapsto> e\<lparr>he_next := r\<rparr>)) p (xs @ [b]) r"
proof -
  from assms(1) have "seg m p xs (Some b)" by (auto simp: seg_append)
  then have "seg (m(b \<mapsto> e\<lparr>he_next := r\<rparr>)) p xs (Some b)"
    using assms(2) by (subst seg_cong [where m = m]) auto
  then show ?thesis by (auto simp: seg_append)
qed

lemma walk_seg:
  "seg m p as None \<Longrightarrow> length as < n \<Longrightarrow>
    walk n m p fd page = Inr (List.find (\<lambda>a. entry_key m a = (fd, page)) as)"
proof (induction as arbitrary: p n)
  case Nil
  then show ?case by (cases n) auto
next
  case (Cons a as)
  then obtain k e where "n = Suc k" "m a = Some e" "seg m (he_next e) as None" "length as < k"
    by (cases n) auto
  then show ?case using Cons by (auto simp: deref_def entry_key_def)
qed

section \<open>Well-formed tables\<close>

text \<open>The sum of the key's parts must not overflow and must not be negative: a negative
  remainder would index before the bucket array.\<close>

definition key_ok :: "int \<Rightarrow> int \<Rightarrow> bool" where
  "key_ok fd page \<longleftrightarrow> 0 \<le> fd + page \<and> fd + page < 2 ^ 31"

definition entry_ok :: "int \<Rightarrow> nat \<Rightarrow> hash_entry \<Rightarrow> bool" where
  "entry_ok n i e \<longleftrightarrow> he_slot e \<noteq> -1 \<and> key_ok (he_fd e) (he_page e)
     \<and> (he_fd e + he_page e) mod n = int i"

definition bucket_ok :: "entry_heap \<Rightarrow> int \<Rightarrow> nat \<Rightarrow> ptr \<Rightarrow> nat list \<Rightarrow> bool" where
  "bucket_ok m n i p as \<longleftrightarrow> seg m p as None \<and> linked m as \<and> distinct (map (entry_key m) as)
     \<and> (\<forall>a\<in>set as. entry_ok n i (the (m a)))"

definition ht_rep :: "hash_table \<Rightarrow> (nat \<Rightarrow> nat list) \<Rightarrow> bool" where
  "ht_rep h cs \<longleftrightarrow> 0 < bucket_num h \<and> length (buckets h) = nat (bucket_num h)
     \<and> (\<forall>i < length (buckets h). bucket_ok (heap h) (bucket_num h) i (buckets h ! i) (cs i))
     \<and> dom (heap h) = (\<Union>i < length (buckets h). set (cs i))
     \<and> dom (heap h) \<subseteq> {..<brk h}"

definition ht_inv :: "hash_table \<Rightarrow> bool" where
  "ht_inv h \<longleftrightarrow> (\<exists>cs. ht_rep h cs)"

definition bix :: "hash_table \<Rightarrow> int \<Rightarrow> int \<Rightarrow> nat" where
  "bix h fd page = nat ((fd + page) mod bucket_num h)"

text \<open>The abstract contents: the finite relation between pages and slots.\<close>

definition trip :: "hash_entry \<Rightarrow> int \<times> int \<times> int" where
  "trip e = (he_fd e, he_page e, he_slot e)"

definition ents :: "hash_table \<Rightarrow> (int \<times> int \<times> int) set" where
  "ents h = {t. \<exists>a e. heap h a = Some e \<and> t = trip e}"

lemma ht_hash_ok: "key_ok fd page \<Longrightarrow> 0 < bucket_num h \<Longrightarrow>
    ht_hash h fd page = Inr ((fd + page) mod bucket_num h)"
  by (simp add: ht_hash_def key_ok_def int_range_def c_rem_nonneg)

lemma bucket_ok_cong:
  assumes "\<And>a. a \<in> set as \<Longrightarrow> m' a = m a"
  shows "bucket_ok m' n i p as = bucket_ok m n i p as"
proof -
  have "seg m' p as None = seg m p as None" using assms by (intro seg_cong) auto
  moreover have "linked m' as = linked m as"
    using assms by (intro linked_cong) (metis list.set_sel(2) tl_Nil)
  moreover have "distinct (map (entry_key m') as) = distinct (map (entry_key m) as)"
    using assms by (intro arg_cong [where f = distinct]) (simp add: entry_key_def)
  ultimately show ?thesis using assms by (auto simp: bucket_ok_def)
qed

lemma ht_rep_index:
  assumes "ht_rep h cs" "key_ok fd page"
  shows "bix h fd page < length (buckets h)"
    and "ht_hash h fd page = Inr (int (bix h fd page))"
    and "bucket_at h (int (bix h fd page))
      = Inr (buckets h ! bix h fd page)"
proof -
  have pos: "0 < bucket_num h" and len: "length (buckets h) = nat (bucket_num h)"
    using assms(1) by (simp_all add: ht_rep_def)
  have m: "0 \<le> (fd + page) mod bucket_num h" "(fd + page) mod bucket_num h < bucket_num h"
    using pos by simp_all
  show lt: "bix h fd page < length (buckets h)"
    using m len by (simp add: bix_def)
  show "ht_hash h fd page = Inr (int (bix h fd page))"
    using assms(2) pos m by (simp add: ht_hash_ok bix_def)
  show "bucket_at h (int (bix h fd page))
      = Inr (buckets h ! bix h fd page)"
    using lt m by (simp add: bucket_at_def)
qed

lemma ht_rep_bucket:
  "ht_rep h cs \<Longrightarrow> i < length (buckets h) \<Longrightarrow>
     bucket_ok (heap h) (bucket_num h) i (buckets h ! i) (cs i)"
  by (simp add: ht_rep_def)

text \<open>Changing one bucket: what has to be checked.\<close>

lemma ht_rep_update:
  assumes rep: "ht_rep h cs" and i: "i < length (buckets h)"
    and "bucket_ok m (bucket_num h) i p as"
    and "\<And>j. j < length (buckets h) \<Longrightarrow> j \<noteq> i \<Longrightarrow>
      bucket_ok m (bucket_num h) j (buckets h ! j) (cs j)"
    and "dom m = (dom (heap h) - set (cs i)) \<union> set as" and "set as \<subseteq> {..<b}" and "brk h \<le> b"
    and "\<And>j. j < length (buckets h) \<Longrightarrow> j \<noteq> i \<Longrightarrow> set (cs j) \<inter> set (cs i) = {}"
  shows "ht_rep (h\<lparr>buckets := (buckets h)[i := p], heap := m, brk := b\<rparr>) (cs(i := as))"
proof -
  let ?N = "length (buckets h)"
  have d: "dom (heap h) = (\<Union>j < ?N. set (cs j))" and b: "dom (heap h) \<subseteq> {..<brk h}"
    and n: "0 < bucket_num h" "?N = nat (bucket_num h)"
    using rep unfolding ht_rep_def by blast+
  have "dom m = (\<Union>j < ?N. set ((cs(i := as)) j))"
    using assms(5,8) i unfolding d by (auto split: if_splits) blast+
  moreover have "dom m \<subseteq> {..<b}" using assms(5,6,7) b by (auto simp: subset_iff)
  moreover have "bucket_ok m (bucket_num h) j ((buckets h)[i := p] ! j) ((cs(i := as)) j)"
    if "j < ?N" for j
    using assms(3,4) that by (cases "j = i") auto
  ultimately show ?thesis using n by (simp add: ht_rep_def)
qed

lemma ht_rep_pos: "ht_rep h cs \<Longrightarrow> 0 < bucket_num h"
  by (simp add: ht_rep_def)

lemma ht_rep_dom: "ht_rep h cs \<Longrightarrow> heap h a = Some e \<Longrightarrow> \<exists>j < length (buckets h). a \<in> set (cs j)"
  unfolding ht_rep_def by blast

lemma ht_rep_brk: "ht_rep h cs \<Longrightarrow> i < length (buckets h) \<Longrightarrow> set (cs i) \<subseteq> {..<brk h}"
  unfolding ht_rep_def by blast

lemma ht_rep_chain_dom: "ht_rep h cs \<Longrightarrow> i < length (buckets h) \<Longrightarrow> set (cs i) \<subseteq> dom (heap h)"
  unfolding ht_rep_def by blast

lemma ht_rep_chain_short:
  assumes "ht_rep h cs" "i < length (buckets h)"
  shows "length (cs i) < Suc (brk h)"
proof -
  have "distinct (cs i)"
    using ht_rep_bucket [OF assms] by (auto simp: bucket_ok_def distinct_map)
  then have "length (cs i) = card (set (cs i))" by (simp add: distinct_card)
  also have "\<dots> \<le> brk h"
    using card_mono [of "{..<brk h}"] ht_rep_brk [OF assms] by simp
  finally show ?thesis by simp
qed

lemma walk_bucket:
  assumes "ht_rep h cs" "i < length (buckets h)"
  shows "walk (Suc (brk h)) (heap h) (buckets h ! i) fd page
    = Inr (List.find (\<lambda>a. entry_key (heap h) a = (fd, page)) (cs i))"
  using ht_rep_bucket [OF assms] ht_rep_chain_short [OF assms]
  by (intro walk_seg) (auto simp: bucket_ok_def)

lemma ents_iff: "(fd, page, s) \<in> ents h \<longleftrightarrow>
    (\<exists>a e. heap h a = Some e \<and> he_fd e = fd \<and> he_page e = page \<and> he_slot e = s)"
  by (auto simp: ents_def trip_def)

lemma ents_add:
  assumes "heap h a = None" "heap h' a = Some e"
    and eq: "\<And>c. c \<noteq> a \<Longrightarrow> map_option trip (heap h' c) = map_option trip (heap h c)"
  shows "ents h' = Set.insert (trip e) (ents h)"
proof (intro set_eqI iffI)
  fix t assume "t \<in> ents h'"
  then obtain c f where c: "heap h' c = Some f" "t = trip f" by (auto simp: ents_def)
  show "t \<in> Set.insert (trip e) (ents h)"
  proof (cases "c = a")
    case False
    with eq [of c] c obtain g where "heap h c = Some g" "trip g = t"
      by (cases "heap h c") auto
    then show ?thesis by (auto simp: ents_def)
  qed (use c assms(2) in auto)
next
  fix t assume "t \<in> Set.insert (trip e) (ents h)"
  then consider "t = trip e" | c f where "heap h c = Some f" "t = trip f" by (auto simp: ents_def)
  then show "t \<in> ents h'"
  proof cases
    case (2 c f)
    with assms(1) eq [of c] obtain g where "heap h' c = Some g" "trip g = t" by force
    then show ?thesis by (auto simp: ents_def)
  qed (use assms(2) in \<open>auto simp: ents_def\<close>)
qed

lemma ents_del:
  assumes "heap h a = Some e" "heap h' a = None"
    and eq: "\<And>c. c \<noteq> a \<Longrightarrow> map_option trip (heap h' c) = map_option trip (heap h c)"
    and uq: "\<And>c f. heap h c = Some f \<Longrightarrow> he_fd f = he_fd e \<Longrightarrow> he_page f = he_page e \<Longrightarrow> c = a"
  shows "ents h' = {(fd, page, s) \<in> ents h. (fd, page) \<noteq> (he_fd e, he_page e)}"
proof (intro set_eqI iffI)
  fix t assume "t \<in> ents h'"
  then obtain c f where c: "heap h' c = Some f" "t = trip f" by (auto simp: ents_def)
  then have "c \<noteq> a" using assms(2) by auto
  with eq [of c] c obtain g where "heap h c = Some g" "trip g = t"
      by (cases "heap h c") auto
  then show "t \<in> {(fd, page, s) \<in> ents h. (fd, page) \<noteq> (he_fd e, he_page e)}"
    using uq [of c g] \<open>c \<noteq> a\<close> by (auto simp: ents_def trip_def)
next
  fix t assume "t \<in> {(fd, page, s) \<in> ents h. (fd, page) \<noteq> (he_fd e, he_page e)}"
  then obtain c f where c: "heap h c = Some f" "t = trip f"
    and "(he_fd f, he_page f) \<noteq> (he_fd e, he_page e)"
    by (auto simp: ents_def trip_def split: prod.splits)
  then have "c \<noteq> a" using assms(1) by auto
  with c eq [of c] obtain g where "heap h' c = Some g" "trip g = t" by force
  then show "t \<in> ents h'" by (auto simp: ents_def)
qed

lemma ht_rep_entry:
  assumes "ht_rep h cs" "heap h a = Some e"
  defines "i \<equiv> bix h (he_fd e) (he_page e)"
  shows "a \<in> set (cs i)" and "entry_ok (bucket_num h) i e" and "i < length (buckets h)"
proof -
  from ht_rep_dom [OF assms(1,2)] obtain j where j: "j < length (buckets h)" "a \<in> set (cs j)"
    by blast
  with ht_rep_bucket [OF assms(1) j(1)] assms(2) have ok: "entry_ok (bucket_num h) j e"
    by (auto simp: bucket_ok_def)
  then have "i = j" by (simp add: i_def bix_def entry_ok_def)
  with j ok show "a \<in> set (cs i)" "entry_ok (bucket_num h) i e" "i < length (buckets h)"
    by simp_all
qed

lemma ht_rep_disjoint:
  assumes "ht_rep h cs" "i < length (buckets h)" "j < length (buckets h)"
    and "a \<in> set (cs i)" "a \<in> set (cs j)"
  shows "i = j"
proof -
  from ht_rep_bucket [OF assms(1,2)] ht_rep_bucket [OF assms(1,3)] assms(4,5)
  have "entry_ok (bucket_num h) i (the (heap h a))" "entry_ok (bucket_num h) j (the (heap h a))"
    by (auto simp: bucket_ok_def)
  then show ?thesis by (simp add: entry_ok_def)
qed

lemma ht_rep_disj:
  "ht_rep h cs \<Longrightarrow> j < length (buckets h) \<Longrightarrow> i < length (buckets h) \<Longrightarrow> j \<noteq> i
    \<Longrightarrow> set (cs j) \<inter> set (cs i) = {}"
  using ht_rep_disjoint by blast

lemma ht_rep_mem:
  assumes "ht_rep h cs" "i < length (buckets h)" "a \<in> set (cs i)"
  obtains e where "heap h a = Some e"
  using ht_rep_bucket [OF assms(1,2)] assms(3) seg_alloc that
  by (fastforce simp: bucket_ok_def)

lemma ht_find_rep:
  assumes "ht_rep h cs" "key_ok fd page"
  shows "ht_find h fd page = Inr
    (case List.find (\<lambda>a. entry_key (heap h) a = (fd, page)) (cs (bix h fd page)) of
      None \<Rightarrow> -1 | Some a \<Rightarrow> he_slot (the (heap h a)))"
proof -
  note ix = ht_rep_index [OF assms]
  show ?thesis
  proof (cases "List.find (\<lambda>a. entry_key (heap h) a = (fd, page)) (cs (bix h fd page))")
    case None
    then show ?thesis by (simp add: ht_find_def ix walk_bucket [OF assms(1) ix(1)])
  next
    case (Some a)
    then have "a \<in> set (cs (bix h fd page))"
      by (auto simp: find_Some_iff)
    then obtain e where "heap h a = Some e" by (rule ht_rep_mem [OF assms(1) ix(1)])
    with Some show ?thesis
      by (simp add: ht_find_def ix walk_bucket [OF assms(1) ix(1)] deref_def)
  qed
qed

lemma ents_unique:
  assumes "ht_inv h" "(fd, page, s) \<in> ents h"
  shows "ht_find h fd page = Inr s" and "s \<noteq> -1" and "key_ok fd page"
proof -
  from assms(1) obtain cs where rep: "ht_rep h cs" by (auto simp: ht_inv_def)
  from assms(2) obtain a e where e: "heap h a = Some e" "he_fd e = fd" "he_page e = page" "he_slot e = s"
    by (auto simp: ents_iff)
  let ?i = "bix h fd page"
  note m = ht_rep_entry [OF rep e(1), unfolded e]
  from m(2) show k: "key_ok fd page" and "s \<noteq> -1" by (simp_all add: entry_ok_def e)
  have "List.find (\<lambda>a. entry_key (heap h) a = (fd, page)) (cs ?i) = Some a"
  proof (cases "List.find (\<lambda>a. entry_key (heap h) a = (fd, page)) (cs ?i)")
    case None
    then have "entry_key (heap h) a \<noteq> (fd, page)" using m(1) by (auto simp: find_None_iff)
    then show ?thesis using e by (simp add: entry_key_def)
  next
    case (Some b)
    then have b: "b \<in> set (cs ?i)" "entry_key (heap h) b = entry_key (heap h) a"
      using e by (auto simp: find_Some_iff entry_key_def)
    from ht_rep_bucket [OF rep m(3)] have "inj_on (entry_key (heap h)) (set (cs ?i))"
      by (simp add: bucket_ok_def distinct_map)
    with b m(1) have "b = a" by (auto dest: inj_onD)
    with Some show ?thesis by simp
  qed
  then show "ht_find h fd page = Inr s" by (simp add: ht_find_rep [OF rep k] e)
qed

lemma ht_find_absent:
  assumes "ht_inv h" "key_ok fd page" "\<And>s. (fd, page, s) \<notin> ents h"
  shows "ht_find h fd page = Inr (-1)"
proof -
  from assms(1) obtain cs where rep: "ht_rep h cs" by (auto simp: ht_inv_def)
  note ix = ht_rep_index [OF rep assms(2)]
  have "List.find (\<lambda>a. entry_key (heap h) a = (fd, page)) (cs (bix h fd page)) = None"
    using assms(3) ht_rep_mem [OF rep ix(1)]
    by (auto simp: find_None_iff entry_key_def ents_iff) (metis option.sel)
  then show ?thesis by (simp add: ht_find_rep [OF rep assms(2)])
qed

text \<open>\<open>find\<close> decides membership: it returns the slot of the entry or \<open>-1\<close>, never fails.\<close>

lemma ht_find_cases:
  assumes "ht_inv h" "key_ok fd page"
  obtains (absent) "ht_find h fd page = Inr (-1)" "\<And>s. (fd, page, s) \<notin> ents h"
    | (found) s where "ht_find h fd page = Inr s" "s \<noteq> -1" "(fd, page, s) \<in> ents h"
  using assms ents_unique ht_find_absent by meson

lemma ht_find_eq_iff:
  assumes "ht_inv h" "key_ok fd page" "s \<noteq> -1"
  shows "ht_find h fd page = Inr s \<longleftrightarrow> (fd, page, s) \<in> ents h"
  using ht_find_cases [OF assms(1,2)] assms(3) ents_unique(1) [OF assms(1)] by (metis Inr_inject)

section \<open>Insertion\<close>

lemma new_addr_fresh: "dom (heap h) \<subseteq> {..<brk h} \<Longrightarrow> heap h (new_addr h) = None"
  by (auto simp: new_addr_def find_Some_iff find_None_iff split: option.split)

lemma ht_rep_fresh: "ht_rep h cs \<Longrightarrow> heap h (new_addr h) = None"
  unfolding ht_rep_def by (blast intro: new_addr_fresh)

text \<open>The heap after linking a new head \<open>a\<close> in front of the chain \<open>as\<close>.\<close>

definition push_head :: "entry_heap \<Rightarrow> nat \<Rightarrow> hash_entry \<Rightarrow> nat list \<Rightarrow> entry_heap" where
  "push_head m a e as = (case as of [] \<Rightarrow> m(a \<mapsto> e)
     | b # _ \<Rightarrow> m(a \<mapsto> e, b \<mapsto> (the (m b))\<lparr>he_prev := Some a\<rparr>))"

lemma push_head_apply:
  "a \<notin> set as \<Longrightarrow> push_head m a e as c =
     (if c = a then Some e else if as \<noteq> [] \<and> c = hd as then Some ((the (m c))\<lparr>he_prev := Some a\<rparr>)
      else m c)"
  by (cases as) (auto simp: push_head_def)

lemma push_head_bucket:
  assumes ok: "bucket_ok m n i p as" and a: "m a = None"
    and e: "he_next e = p" "entry_ok n i e" "(he_fd e, he_page e) \<notin> entry_key m ` set as"
  shows "bucket_ok (push_head m a e as) n i (Some a) (a # as)"
proof -
  from ok have sg: "seg m p as None" and lk: "linked m as" and ds: "distinct (map (entry_key m) as)"
    and eo: "\<And>b. b \<in> set as \<Longrightarrow> entry_ok n i (the (m b))" by (auto simp: bucket_ok_def)
  have al: "\<exists>f. m b = Some f" if "b \<in> set as" for b using seg_alloc [OF sg that] .
  then have na: "a \<notin> set as" using a by fastforce
  note ap = push_head_apply [OF na, of m e]
  have key: "entry_key (push_head m a e as) b = entry_key m b" if "b \<in> set as" for b
    using that na by (auto simp: entry_key_def ap)
  have "seg (push_head m a e as) p as None"
    using sg al [of "hd as"] na by (subst seg_cong [where m = m]) (auto simp: ap)
  moreover have "push_head m a e as c = m c" if "c \<in> set (tl as)" for c
    using that ds na by (cases as) (auto simp: push_head_def distinct_map)
  then have "linked (push_head m a e as) as"
    using lk by (subst linked_cong [where m = m]) auto
  moreover have "as \<noteq> [] \<longrightarrow> (\<exists>f. push_head m a e as (hd as) = Some f \<and> he_prev f = Some a)"
    using na by (auto simp: ap)
  moreover have "map (entry_key (push_head m a e as)) as = map (entry_key m) as" using key by simp
  ultimately show ?thesis
    using ds e eo na key
    by (auto simp: bucket_ok_def ap linked_Cons distinct_map inj_on_def image_iff
        simp: entry_key_def entry_ok_def)
qed

lemma ht_insert_rep:
  fixes slot :: int
  assumes rep: "ht_rep h cs" and k: "key_ok fd page"
    and abs: "ht_find h fd page = Inr (-1)"
  defines "i \<equiv> bix h fd page" and "a \<equiv> new_addr h"
  defines "e \<equiv> \<lparr>he_fd = fd, he_page = page, he_slot = slot, he_prev = None,
                he_next = buckets h ! i\<rparr>"
  shows "ht_insert h fd page slot = Inr (h\<lparr>buckets := (buckets h)[i := Some a],
    heap := push_head (heap h) a e (cs i), brk := max (brk h) (Suc a)\<rparr>)"
proof -
  note ix = ht_rep_index [OF rep k, folded i_def]
  have ok: "seg (heap h) (buckets h ! i) (cs i) None"
    using ht_rep_bucket [OF rep ix(1)] by (simp add: bucket_ok_def)
  have fr: "heap h a = None" unfolding a_def by (rule ht_rep_fresh [OF rep])
  show ?thesis
  proof (cases "cs i")
    case Nil
    then show ?thesis
      using ok by (simp add: ht_insert_def abs ix a_def [symmetric] e_def push_head_def Let_def)
  next
    case (Cons b bs)
    with ok obtain f where f: "buckets h ! i = Some b" "heap h b = Some f" by auto
    with fr have "b \<noteq> a" by auto
    with f Cons show ?thesis
      by (simp add: ht_insert_def abs ix a_def [symmetric] e_def push_head_def Let_def
          set_prev_def deref_def)
  qed
qed

lemma ht_insert_ok:
  assumes inv: "ht_inv h" and k: "key_ok fd page" and sl: "slot \<noteq> -1"
    and abs: "ht_find h fd page = Inr (-1)"
  shows "\<exists>h'. ht_insert h fd page slot = Inr h' \<and> ht_inv h'
    \<and> ents h' = Set.insert (fd, page, slot) (ents h)"
proof -
  from inv obtain cs where rep: "ht_rep h cs" by (auto simp: ht_inv_def)
  let ?i = "bix h fd page" and ?a = "new_addr h" and ?n = "length (buckets h)"
  let ?e = "\<lparr>he_fd = fd, he_page = page, he_slot = slot, he_prev = None,
              he_next = buckets h ! ?i\<rparr>"
  let ?m = "push_head (heap h) ?a ?e (cs ?i)"
  let ?h = "h\<lparr>buckets := (buckets h)[?i := Some ?a], heap := ?m, brk := max (brk h) (Suc ?a)\<rparr>"
  let ?cs = "cs(?i := ?a # cs ?i)"
  note ix = ht_rep_index [OF rep k]
  have fr: "heap h ?a = None" by (rule ht_rep_fresh [OF rep])
  have na: "?a \<notin> set (cs j)" if "j < ?n" for j
    using ht_rep_mem [OF rep that, of ?a] fr by force
  note ap = push_head_apply [OF na [OF ix(1)], of "heap h" ?e]
  have nokey: "(fd, page) \<notin> entry_key (heap h) ` set (cs ?i)"
  proof
    assume "(fd, page) \<in> entry_key (heap h) ` set (cs ?i)"
    then obtain b where b: "b \<in> set (cs ?i)" "entry_key (heap h) b = (fd, page)" by auto
    then obtain f where "heap h b = Some f" using ht_rep_mem [OF rep ix(1)] by blast
    with b have "(fd, page, he_slot f) \<in> ents h" by (auto simp: ents_iff entry_key_def)
    from ents_unique(1,2) [OF inv this] abs show False by simp
  qed
  have B1: "bucket_ok ?m (bucket_num h) ?i (Some ?a) (?a # cs ?i)"
    using nokey sl k ht_rep_pos [OF rep]
    by (intro push_head_bucket [OF ht_rep_bucket [OF rep ix(1)] fr])
      (simp_all add: entry_ok_def bix_def)
  have B2: "bucket_ok ?m (bucket_num h) j (buckets h ! j) (cs j)" if j: "j < ?n" "j \<noteq> ?i" for j
  proof -
    have "?m b = heap h b" if b: "b \<in> set (cs j)" for b
    proof -
      have "b \<notin> set (cs ?i)" using ht_rep_disj [OF rep j(1) ix(1) j(2)] b by blast
      then have "\<not> (cs ?i \<noteq> [] \<and> b = hd (cs ?i))" by auto
      moreover have "b \<noteq> ?a" using na [OF j(1)] b by auto
      ultimately show ?thesis by (simp only: ap if_False)
    qed
    then show ?thesis
      using ht_rep_bucket [OF rep j(1)] bucket_ok_cong [of "cs j" ?m "heap h"] by blast
  qed
  have D: "dom ?m = (dom (heap h) - set (cs ?i)) \<union> set (?a # cs ?i)"
  proof -
    have "\<exists>e. heap h (hd (cs ?i)) = Some e" if "cs ?i \<noteq> []"
      using ht_rep_mem [OF rep ix(1), of "hd (cs ?i)"] that by auto
    then have "(?m c \<noteq> None) = (c = ?a \<or> heap h c \<noteq> None)" for c by (simp add: ap)
    then have "dom ?m = Set.insert ?a (dom (heap h))" by (simp add: dom_def set_eq_iff)
    then show ?thesis using ht_rep_chain_dom [OF rep ix(1)] by auto
  qed
  have "ht_rep ?h ?cs"
  proof (rule ht_rep_update [OF rep ix(1) B1 _ D])
    show "set (?a # cs ?i) \<subseteq> {..<max (brk h) (Suc ?a)}"
      using ht_rep_brk [OF rep ix(1)] by (auto simp: less_max_iff_disj)
  qed (simp_all add: B2 ht_rep_disj [OF rep _ ix(1)])
  then have "ht_inv ?h" by (auto simp: ht_inv_def)
  moreover have "ents ?h = Set.insert (fd, page, slot) (ents h)"
  proof -
    have "\<exists>f. heap h (hd (cs ?i)) = Some f" if "cs ?i \<noteq> []"
      using ht_rep_mem [OF rep ix(1), of "hd (cs ?i)"] that by auto
    then have "ents ?h = Set.insert (trip ?e) (ents h)"
      by (intro ents_add [OF fr]) (auto simp: ap trip_def)
    then show ?thesis by (simp add: trip_def)
  qed
  ultimately show ?thesis using ht_insert_rep [OF rep k abs] by blast
qed

section \<open>Removal\<close>

text \<open>The heap after unlinking and deleting \<open>a\<close> from the chain \<open>xs @ a # ys\<close>.\<close>

definition unlink :: "entry_heap \<Rightarrow> nat list \<Rightarrow> nat \<Rightarrow> nat list \<Rightarrow> entry_heap" where
  "unlink m xs a ys = (\<lambda>c.
     if c = a then None
     else if xs \<noteq> [] \<and> c = last xs then Some ((the (m c))\<lparr>he_next := he_next (the (m a))\<rparr>)
     else if xs \<noteq> [] \<and> ys \<noteq> [] \<and> c = hd ys then Some ((the (m c))\<lparr>he_prev := Some (last xs)\<rparr>)
     else m c)"

lemma bucket_ok_distinct: "bucket_ok m n i p as \<Longrightarrow> distinct as"
  by (auto simp: bucket_ok_def distinct_map)

lemma bucket_ok_inj: "bucket_ok m n i p as \<Longrightarrow> inj_on (entry_key m) (set as)"
  by (simp add: bucket_ok_def distinct_map)

lemma unlink_seg:
  assumes "seg m p xs (Some a)" "a \<notin> set xs" "distinct xs" "set xs \<inter> set ys = {}"
  shows "seg (unlink m xs a ys) (if xs = [] then he_next (the (m a)) else p) xs (he_next (the (m a)))"
proof (cases xs rule: rev_cases)
  case (snoc xs' b)
  with assms(1) obtain f where b: "seg m p xs' (Some b)" "m b = Some f" "he_next f = Some a"
    by (auto simp: seg_append)
  have "seg (unlink m xs a ys) p xs' (Some b)"
    using assms snoc b(1) by (subst seg_cong [where m = m]) (auto simp: unlink_def)
  moreover have "unlink m xs a ys b = Some (f\<lparr>he_next := he_next (the (m a))\<rparr>)"
    using assms(2) snoc b(2) by (auto simp: unlink_def)
  ultimately show ?thesis using snoc by (auto simp: seg_append)
qed simp

lemma unlink_bucket:
  assumes ok: "bucket_ok m n i p (xs @ a # ys)"
  shows "bucket_ok (unlink m xs a ys) n i (if xs = [] then he_next (the (m a)) else p) (xs @ ys)"
proof -
  let ?m = "unlink m xs a ys"
  have d: "distinct (xs @ a # ys)" by (rule bucket_ok_distinct [OF ok])
  from ok obtain e where e: "m a = Some e" and sx: "seg m p xs (Some a)"
    and sy: "seg m (he_next e) ys None" by (auto simp: bucket_ok_def seg_append)
  from ok have lx: "linked m xs" and ly: "linked m ys"
    by (auto simp: bucket_ok_def linked_append linked_Cons)
  have al: "\<exists>f. m c = Some f" if "c \<in> set (xs @ ys)" for c
    using that seg_alloc [OF sx] seg_alloc [OF sy] by auto
  have same: "\<exists>f. ?m c = Some f \<and> trip f = trip (the (m c))" if "c \<in> set (xs @ ys)" for c
    using that al [OF that] d by (auto simp: unlink_def trip_def)
  have last: "last xs \<notin> set ys" if "xs \<noteq> []" using that d by (metis disjoint_iff distinct_append last_in_set list.set_intros(2))
  have first: "hd ys \<notin> set xs" if "ys \<noteq> []" using that d by (cases ys) auto
  have sy': "seg ?m (he_next e) ys None"
    using sy d al [of "hd ys"] last
    by (subst seg_cong [where m = m]) (auto simp: unlink_def)
  have "seg ?m (if xs = [] then he_next e else p) xs (he_next e)"
    using unlink_seg [OF sx, of ys] d e by auto
  with sy' have "seg ?m (if xs = [] then he_next e else p) (xs @ ys) None" by (auto simp: seg_append)
  moreover have "map_option he_prev (?m c) = map_option he_prev (m c)" if "c \<in> set xs" for c
    using that al [of c] d first by (auto simp: unlink_def)
  then have "linked ?m xs"
    using lx by (subst linked_cong [where m = m]) (cases xs, auto)
  moreover have "?m c = m c" if "c \<in> set (tl ys)" for c
    using that d last by (cases ys) (auto simp: unlink_def)
  then have "linked ?m ys"
    using ly by (subst linked_cong [where m = m]) auto
  moreover have "\<exists>f. ?m (hd ys) = Some f \<and> he_prev f = Some (last xs)" if "xs \<noteq> []" "ys \<noteq> []"
    using that d by (cases ys) (auto simp: unlink_def)
  moreover have key: "entry_key ?m c = entry_key m c" and ent: "entry_ok n i (the (?m c)) = entry_ok n i (the (m c))"
    if "c \<in> set (xs @ ys)" for c
    using same [OF that] by (auto simp: entry_key_def trip_def entry_ok_def)
  then have "map (entry_key ?m) (xs @ ys) = map (entry_key m) (xs @ ys)" by (intro map_cong) auto
  moreover have "distinct (map (entry_key m) (xs @ ys))" using ok by (auto simp: bucket_ok_def)
  moreover have "\<forall>c \<in> set (xs @ ys). entry_ok n i (the (?m c))"
    using ok ent by (auto simp: bucket_ok_def)
  ultimately show ?thesis
    unfolding bucket_ok_def linked_append by (simp only: e option.sel) blast
qed

lemma ht_remove_rep:
  assumes rep: "ht_rep h cs" and k: "key_ok fd page"
    and fnd: "ht_find h fd page = Inr s" "s \<noteq> -1"
  obtains xs a ys e where "cs (bix h fd page) = xs @ a # ys" and "heap h a = Some e"
    and "he_fd e = fd" and "he_page e = page"
    and "ht_remove h fd page = Inr (h\<lparr>buckets := (buckets h)[bix h fd page :=
      if xs = [] then he_next e else buckets h ! bix h fd page], heap := unlink (heap h) xs a ys\<rparr>)"
proof -
  let ?i = "bix h fd page"
  note ix = ht_rep_index [OF rep k]
  have ok: "bucket_ok (heap h) (bucket_num h) ?i (buckets h ! ?i) (cs ?i)"
    by (rule ht_rep_bucket [OF rep ix(1)])
  from fnd ht_find_rep [OF rep k] obtain a where fa:
    "List.find (\<lambda>a. entry_key (heap h) a = (fd, page)) (cs ?i) = Some a"
    by (auto split: option.splits)
  then have "a \<in> set (cs ?i)" and key: "entry_key (heap h) a = (fd, page)" by (auto simp: find_Some_iff)
  then obtain xs ys where cs: "cs ?i = xs @ a # ys" by (meson split_list)
  have d: "distinct (xs @ a # ys)" using bucket_ok_distinct [OF ok] cs by simp
  from ok cs obtain e where e: "heap h a = Some e" and sx: "seg (heap h) (buckets h ! ?i) xs (Some a)"
    and sy: "seg (heap h) (he_next e) ys None" by (auto simp: bucket_ok_def seg_append)
  have ke: "he_fd e = fd" "he_page e = page" using key e by (simp_all add: entry_key_def)
  have R: "ht_remove h fd page =
      (if Some a = buckets h ! ?i
       then Inr (h\<lparr>buckets := (buckets h)[?i := he_next e], heap := (heap h)(a := None)\<rparr>)
       else if he_next e = None
       then bindR (set_next (heap h) (he_prev e) None) (\<lambda>m. Inr (h\<lparr>heap := m(a := None)\<rparr>))
       else bindR (set_prev (heap h) (he_next e) (he_prev e)) (\<lambda>m.
            bindR (set_next m (he_prev e) (he_next e)) (\<lambda>m'. Inr (h\<lparr>heap := m'(a := None)\<rparr>))))"
    using fnd(2) by (simp add: ht_remove_def fnd(1) ix walk_bucket [OF rep ix(1)] fa deref_def e)
  have hb: "(h\<lparr>buckets := buckets h, heap := m\<rparr>) = h\<lparr>heap := m\<rparr>" for m by simp
  note link = set_next_def set_prev_def deref_def
  have "ht_remove h fd page = Inr (h\<lparr>buckets := (buckets h)[?i :=
      if xs = [] then he_next e else buckets h ! ?i], heap := unlink (heap h) xs a ys\<rparr>)"
  proof (cases xs rule: rev_cases)
    case Nil
    then have "(heap h)(a := None) = unlink (heap h) xs a ys" by (simp add: unlink_def fun_eq_iff)
    then show ?thesis using sx Nil by (simp add: R)
  next
    case (snoc xs' b)
    from ok cs snoc e have pe: "he_prev e = Some b"
      by (auto simp: bucket_ok_def linked_append linked_Cons)
    from sx snoc obtain f where f: "heap h b = Some f" by (auto simp: seg_append)
    have hd: "buckets h ! ?i \<noteq> Some a" using sx snoc d by (cases xs') auto
    have ba: "b \<noteq> a" using d snoc by auto
    show ?thesis
    proof (cases ys)
      case Nil
      then have "he_next e = None" using sy by simp
      moreover have "((heap h)(b \<mapsto> f\<lparr>he_next := None\<rparr>))(a := None) = unlink (heap h) xs a ys"
        using calculation Nil snoc f ba e by (auto simp: unlink_def fun_eq_iff)
      ultimately show ?thesis using snoc hd [symmetric] pe f by (simp add: R link)
    next
      case (Cons c ys')
      then obtain g where g: "he_next e = Some c" "heap h c = Some g" using sy by auto
      have ne: "c \<noteq> a" "c \<noteq> b" using d snoc Cons by auto
      then have "((heap h)(c \<mapsto> g\<lparr>he_prev := Some b\<rparr>, b \<mapsto> f\<lparr>he_next := Some c\<rparr>))(a := None)
          = unlink (heap h) xs a ys"
        using Cons g snoc f ba e by (auto simp: unlink_def fun_eq_iff)
      then show ?thesis using snoc hd [symmetric] pe f g ne by (simp add: R link)
    qed
  qed
  with cs e ke show thesis by (rule that)
qed

lemma ht_remove_found:
  assumes inv: "ht_inv h" and k: "key_ok fd page"
    and found: "ht_find h fd page = Inr s" "s \<noteq> -1"
  shows "\<exists>h'. ht_remove h fd page = Inr h' \<and> ht_inv h'
    \<and> ents h' = {(fd', page', s) \<in> ents h. (fd', page') \<noteq> (fd, page)}"
proof -
  from inv obtain cs where rep: "ht_rep h cs" by (auto simp: ht_inv_def)
  let ?i = "bix h fd page"
  from ht_remove_rep [OF rep k found(1,2)] obtain xs a ys e where
    cs: "cs ?i = xs @ a # ys" and e: "heap h a = Some e" "he_fd e = fd" "he_page e = page"
    and run: "ht_remove h fd page = Inr (h\<lparr>buckets := (buckets h)[?i :=
      if xs = [] then he_next e else buckets h ! ?i], heap := unlink (heap h) xs a ys\<rparr>)" .
  let ?m = "unlink (heap h) xs a ys"
  let ?h = "h\<lparr>buckets := (buckets h)[?i := if xs = [] then he_next e else buckets h ! ?i], heap := ?m\<rparr>"
  note ix = ht_rep_index [OF rep k]
  have okc: "bucket_ok (heap h) (bucket_num h) ?i (buckets h ! ?i) (xs @ a # ys)"
    using ht_rep_bucket [OF rep ix(1)] cs by simp
  have d: "distinct (xs @ a # ys)" by (rule bucket_ok_distinct [OF okc])
  have al: "\<exists>f. heap h c = Some f" if "c \<in> set (xs @ ys)" for c
    using ht_rep_mem [OF rep ix(1), of c] cs that by auto
  have B1: "bucket_ok ?m (bucket_num h) ?i (if xs = [] then he_next e else buckets h ! ?i) (xs @ ys)"
    using unlink_bucket [OF okc] e by (simp split: if_splits)
  have out: "?m c = heap h c" if "c \<notin> set (cs ?i)" for c
    using that cs by (auto simp: unlink_def)
  have B2: "bucket_ok ?m (bucket_num h) j (buckets h ! j) (cs j)"
    if j: "j < length (buckets h)" "j \<noteq> ?i" for j
  proof -
    have "?m b = heap h b" if "b \<in> set (cs j)" for b
      using out ht_rep_disj [OF rep j(1) ix(1) j(2)] that by blast
    then show ?thesis
      using ht_rep_bucket [OF rep j(1)] bucket_ok_cong [of "cs j" ?m "heap h"] by blast
  qed
  have some: "(?m c \<noteq> None) = (c \<noteq> a \<and> heap h c \<noteq> None)" for c
    using al [of "last xs"] al [of "hd ys"] by (auto simp: unlink_def)
  then have D: "dom ?m = (dom (heap h) - set (cs ?i)) \<union> set (xs @ ys)"
    using cs d al by (auto simp: dom_def)
  have "ht_rep (h\<lparr>buckets := (buckets h)[?i := if xs = [] then he_next e else buckets h ! ?i],
      heap := ?m, brk := brk h\<rparr>) (cs(?i := xs @ ys))"
    using ht_rep_brk [OF rep ix(1)] cs
    by (intro ht_rep_update [OF rep ix(1) B1 B2 D] ht_rep_disj [OF rep _ ix(1)]) simp_all
  then have "ht_inv ?h" by (auto simp: ht_inv_def)
  moreover have "ents ?h = {(fd', page', s) \<in> ents h. (fd', page') \<noteq> (he_fd e, he_page e)}"
  proof (rule ents_del [OF e(1)])
    show "map_option trip (heap ?h c) = map_option trip (heap h c)" if "c \<noteq> a" for c
      using that al [of "last xs"] al [of "hd ys"] by (auto simp: unlink_def trip_def)
    show "c = a" if c: "heap h c = Some f" "he_fd f = he_fd e" "he_page f = he_page e" for c f
    proof -
      have "c \<in> set (cs ?i)" "a \<in> set (cs ?i)"
        using ht_rep_entry(1) [OF rep c(1)] c e cs by simp_all
      moreover have "inj_on (entry_key (heap h)) (set (cs ?i))"
        using bucket_ok_inj [OF okc] cs by simp
      moreover have "entry_key (heap h) c = entry_key (heap h) a" using c e by (simp add: entry_key_def)
      ultimately show ?thesis by (meson inj_onD)
    qed
  qed (simp add: unlink_def)
  ultimately show ?thesis using run unfolding e(2,3) by blast
qed

lemma ht_remove_ok:
  assumes inv: "ht_inv h" and k: "key_ok fd page"
  shows "\<exists>h'. ht_remove h fd page = Inr h' \<and> ht_inv h'
    \<and> ents h' = {(fd', page', s) \<in> ents h. (fd', page') \<noteq> (fd, page)}"
proof -
  consider (absent) "ht_find h fd page = Inr (-1)" "\<And>s. (fd, page, s) \<notin> ents h"
    | (found) s where "ht_find h fd page = Inr s" "s \<noteq> -1" by (rule ht_find_cases [OF inv k]) blast+
  then show ?thesis
  proof cases
    case absent
    then show ?thesis using inv by (auto simp: ht_remove_def)
  next
    case (found s)
    then show ?thesis using ht_remove_found [OF inv k] by blast
  qed
qed

lemma ht_insert_present: "ht_find h fd page = Inr s \<Longrightarrow> s \<noteq> -1 \<Longrightarrow> ht_insert h fd page slot = Inr h"
  by (simp add: ht_insert_def)

lemma mk_hash_table_ok:
  assumes "0 < n" shows "\<exists>h. mk_hash_table n = Inr h \<and> ht_inv h \<and> ents h = {}"
proof -
  let ?h = "\<lparr>bucket_num = n, buckets = replicate (nat n) None, heap = Map.empty, brk = 0\<rparr>"
  have "ht_rep ?h (\<lambda>_. [])" using assms by (auto simp: ht_rep_def bucket_ok_def)
  then have "ht_inv ?h" by (auto simp: ht_inv_def)
  moreover have "ents ?h = {}" by (auto simp: ents_def)
  ultimately show ?thesis using assms by (auto simp: mk_hash_table_def)
qed

section \<open>The destructor\<close>

lemma free_chain_seg:
  "seg m p as None \<Longrightarrow> length as < n \<Longrightarrow> distinct as \<Longrightarrow>
    free_chain n m p = Inr (\<lambda>c. if c \<in> set as then None else m c)"
proof (induction as arbitrary: m p n)
  case Nil
  then show ?case by (cases n) auto
next
  case (Cons a as)
  then obtain k e where k: "n = Suc k" "p = Some a" "m a = Some e" "seg m (he_next e) as None" "length as < k"
    by (cases n) auto
  have "seg (m(a := None)) (he_next e) as None"
    using k(4) Cons.prems(3) by (subst seg_cong [where m = m]) auto
  moreover have "distinct as" using Cons.prems(3) by simp
  ultimately have "free_chain k (m(a := None)) (he_next e)
      = Inr (\<lambda>c. if c \<in> set as then None else (m(a := None)) c)"
    using k(5) by (intro Cons.IH)
  moreover have "(\<lambda>c. if c \<in> set as then None else (m(a := None)) c)
      = (\<lambda>c. if c \<in> set (a # as) then None else m c)" by auto
  ultimately show ?case using k by (simp add: deref_def)
qed

lemma free_buckets_seg:
  "length ps = length ass \<Longrightarrow> (\<And>i. i < length ps \<Longrightarrow> seg m (ps ! i) (ass ! i) None) \<Longrightarrow>
   (\<And>as. as \<in> set ass \<Longrightarrow> length as < n) \<Longrightarrow> distinct (concat ass) \<Longrightarrow>
    free_buckets n m ps = Inr (\<lambda>c. if c \<in> set (concat ass) then None else m c)"
proof (induction ps arbitrary: ass m)
  case (Cons p ps)
  then obtain as ass' where a: "ass = as # ass'" by (cases ass) auto
  have sg: "seg m p as None" using Cons.prems(2) [of 0] a by simp
  have da: "distinct as" "distinct (concat ass')" "set as \<inter> set (concat ass') = {}"
    using Cons.prems(4) a by auto
  let ?m = "\<lambda>c. if c \<in> set as then None else m c"
  have fc: "free_chain n m p = Inr ?m"
    using free_chain_seg [OF sg _ da(1)] Cons.prems(3) a by simp
  have "seg ?m (ps ! i) (ass' ! i) None" if "i < length ps" for i
  proof -
    have "set (ass' ! i) \<subseteq> set (concat ass')" using nth_mem [of i ass'] that Cons.prems(1) a
      by (metis UN_upper length_Cons nat.inject set_concat)
    then have "\<And>c. c \<in> set (ass' ! i) \<Longrightarrow> ?m c = m c" using da(3) by auto
    then show ?thesis
      using Cons.prems(2) [of "Suc i"] that a by (subst seg_cong [where m = m]) auto
  qed
  then have "free_buckets n ?m ps = Inr (\<lambda>c. if c \<in> set (concat ass') then None else ?m c)"
    using Cons.prems a da by (intro Cons.IH) auto
  then show ?case by (auto simp: fc a fun_eq_iff)
qed simp

lemma concat_distinct_nth:
  "(\<And>i. i < n \<Longrightarrow> distinct (f i)) \<Longrightarrow>
   (\<And>i j. i < n \<Longrightarrow> j < n \<Longrightarrow> i \<noteq> j \<Longrightarrow> set (f i) \<inter> set (f j) = {}) \<Longrightarrow>
   distinct (concat (map f [0..<n]))"
  by (induction n) (auto simp: disjoint_iff, metis less_SucI less_irrefl lessI)

text \<open>The destructor frees every entry exactly once: it meets no dangling pointer and leaves
  nothing allocated.\<close>

lemma ht_destroy_ok:
  assumes "ht_inv h" shows "ht_destroy h = Inr Map.empty"
proof -
  from assms obtain cs where rep: "ht_rep h cs" by (auto simp: ht_inv_def)
  let ?n = "length (buckets h)" and ?ass = "map cs [0..<length (buckets h)]"
  have "distinct (concat ?ass)"
    using bucket_ok_distinct [OF ht_rep_bucket [OF rep]] ht_rep_disj [OF rep]
    by (intro concat_distinct_nth) auto
  moreover have "seg (heap h) (buckets h ! i) (?ass ! i) None" if "i < ?n" for i
    using ht_rep_bucket [OF rep that] that by (simp add: bucket_ok_def)
  moreover have "length as < Suc (brk h)" if "as \<in> set ?ass" for as
    using that ht_rep_chain_short [OF rep] by auto
  ultimately have "ht_destroy h = Inr (\<lambda>c. if c \<in> set (concat ?ass) then None else heap h c)"
    unfolding ht_destroy_def by (intro free_buckets_seg) auto
  moreover have "set (concat ?ass) = dom (heap h)" using rep by (simp add: ht_rep_def atLeast0LessThan)
  ultimately show ?thesis by (auto simp: fun_eq_iff domIff)
qed

section \<open>The interface\<close>

text \<open>What the buffer manager relies on: a finite map from pages to slots.\<close>

locale page_map =
  fixes lookup :: "'h \<Rightarrow> int \<Rightarrow> int \<Rightarrow> int res"
    and ins :: "'h \<Rightarrow> int \<Rightarrow> int \<Rightarrow> int \<Rightarrow> 'h res"
    and del :: "'h \<Rightarrow> int \<Rightarrow> int \<Rightarrow> 'h res"
    and inv :: "'h \<Rightarrow> bool"
    and ok :: "int \<Rightarrow> int \<Rightarrow> bool"
  assumes lookup_total: "inv h \<Longrightarrow> ok fd page \<Longrightarrow> \<exists>s. lookup h fd page = Inr s"
    and ins_absent: "inv h \<Longrightarrow> ok fd page \<Longrightarrow> slot \<noteq> -1 \<Longrightarrow> lookup h fd page = Inr (-1) \<Longrightarrow>
      \<exists>h'. ins h fd page slot = Inr h' \<and> inv h' \<and> (\<forall>f p. ok f p \<longrightarrow>
        lookup h' f p = (if (f, p) = (fd, page) then Inr slot else lookup h f p))"
    and ins_present: "lookup h fd page = Inr s \<Longrightarrow> s \<noteq> -1 \<Longrightarrow> ins h fd page slot = Inr h"
    and del_any: "inv h \<Longrightarrow> ok fd page \<Longrightarrow>
      \<exists>h'. del h fd page = Inr h' \<and> inv h' \<and> (\<forall>f p. ok f p \<longrightarrow>
        lookup h' f p = (if (f, p) = (fd, page) then Inr (-1) else lookup h f p))"
begin

lemma ins_ex:
  assumes "inv h" "ok fd page" "slot \<noteq> -1" "lookup h fd page = Inr (-1)"
  obtains h' where "ins h fd page slot = Inr h'" "inv h'"
    "\<And>f p. ok f p \<Longrightarrow> lookup h' f p = (if (f, p) = (fd, page) then Inr slot else lookup h f p)"
  using ins_absent [OF assms] by blast

lemma del_ex:
  assumes "inv h" "ok fd page"
  obtains h' where "del h fd page = Inr h'" "inv h'"
    "\<And>f p. ok f p \<Longrightarrow> lookup h' f p = (if (f, p) = (fd, page) then Inr (-1) else lookup h f p)"
  using del_any [OF assms] by blast

text \<open>Removing what was inserted restores every lookup.\<close>

lemma ins_del:
  assumes "inv h" "ok fd page" "slot \<noteq> -1" "lookup h fd page = Inr (-1)"
  shows "\<exists>h1 h2. ins h fd page slot = Inr h1 \<and> del h1 fd page = Inr h2 \<and> inv h2
    \<and> (\<forall>f p. ok f p \<longrightarrow> lookup h2 f p = lookup h f p)"
proof -
  obtain h1 where h1: "ins h fd page slot = Inr h1" "inv h1"
    "\<And>f p. ok f p \<Longrightarrow> lookup h1 f p = (if (f, p) = (fd, page) then Inr slot else lookup h f p)"
    by (rule ins_ex [OF assms]) blast
  obtain h2 where h2: "del h1 fd page = Inr h2" "inv h2"
    "\<And>f p. ok f p \<Longrightarrow> lookup h2 f p = (if (f, p) = (fd, page) then Inr (-1) else lookup h1 f p)"
    by (rule del_ex [OF h1(2) assms(2)]) blast
  have "lookup h2 f p = lookup h f p" if "ok f p" for f p
    using h1(3) [OF that] h2(3) [OF that] assms(4) by auto
  with h1 h2 show ?thesis by blast
qed

end

lemma ht_find_of_ents:
  assumes "ht_inv h" "ht_inv h'" "key_ok f p"
    and "\<And>s. (f, p, s) \<in> ents h' \<longleftrightarrow> (f, p, s) \<in> ents h"
  shows "ht_find h' f p = ht_find h f p"
  using assms ht_find_cases [OF assms(2,3)] ht_find_cases [OF assms(1,3)] ents_unique(1)
  by metis

interpretation ht: page_map ht_find ht_insert ht_remove ht_inv key_ok
proof
  fix h and fd page slot :: int
  assume a: "ht_inv h" "key_ok fd page" "slot \<noteq> -1" "ht_find h fd page = Inr (-1)"
  from ht_insert_ok [OF a] obtain h' where h': "ht_insert h fd page slot = Inr h'" "ht_inv h'"
    "ents h' = Set.insert (fd, page, slot) (ents h)" by blast
  have "ht_find h' f p = (if (f, p) = (fd, page) then Inr slot else ht_find h f p)" if "key_ok f p" for f p
    using ents_unique(1) [OF h'(2), of fd page slot] ht_find_of_ents [OF a(1) h'(2) that] h'(3) by auto
  with h' show "\<exists>h'. ht_insert h fd page slot = Inr h' \<and> ht_inv h' \<and> (\<forall>f p. key_ok f p \<longrightarrow>
        ht_find h' f p = (if (f, p) = (fd, page) then Inr slot else ht_find h f p))" by blast
next
  fix h and fd page :: int
  assume a: "ht_inv h" "key_ok fd page"
  from ht_remove_ok [OF a] obtain h' where h': "ht_remove h fd page = Inr h'" "ht_inv h'"
    "ents h' = {(fd', page', s) \<in> ents h. (fd', page') \<noteq> (fd, page)}" by blast
  have "ht_find h' f p = (if (f, p) = (fd, page) then Inr (-1) else ht_find h f p)" if "key_ok f p" for f p
    using ht_find_absent [OF h'(2) a(2)] ht_find_of_ents [OF a(1) h'(2) that] h'(3) by auto
  with h' show "\<exists>h'. ht_remove h fd page = Inr h' \<and> ht_inv h' \<and> (\<forall>f p. key_ok f p \<longrightarrow>
        ht_find h' f p = (if (f, p) = (fd, page) then Inr (-1) else ht_find h f p))" by blast
qed (auto simp: ht_insert_present intro: ht_find_cases)

section \<open>Properties\<close>

definition demo_table :: hash_table where
  "demo_table = \<lparr>bucket_num = 20, buckets = replicate 20 None, heap = Map.empty, brk = 0\<rparr>"

lemma demo_table_inv: "ht_inv demo_table"
proof -
  have "mk_hash_table 20 = Inr demo_table" by (simp add: mk_hash_table_def demo_table_def)
  then show ?thesis using mk_hash_table_ok [of 20] by simp
qed

text \<open>C4: \<open>insert\<close> and \<open>remove\<close> of the chained table implement a finite map from pages to slots.  Inserting
  an absent page succeeds, keeps the chains well formed, and afterwards exactly that page maps to
  the new slot; removing a page (wherever its entry stands in its chain: head, middle or end)
  succeeds and afterwards exactly that page maps to nothing.\<close>

theorem hash_table_is_page_map:
  assumes "ht_inv h" "key_ok fd page" "slot \<noteq> -1"
  shows "(ht_find h fd page = Inr (-1) \<longrightarrow> (\<exists>h'. ht_insert h fd page slot = Inr h' \<and> ht_inv h' \<and>
           (\<forall>f p. key_ok f p \<longrightarrow> ht_find h' f p = (if (f, p) = (fd, page) then Inr slot else ht_find h f p))))
    \<and> (\<exists>h'. ht_remove h fd page = Inr h' \<and> ht_inv h' \<and>
           (\<forall>f p. key_ok f p \<longrightarrow> ht_find h' f p = (if (f, p) = (fd, page) then Inr (-1) else ht_find h f p)))"
  using ht.ins_absent [OF assms] ht.del_any [OF assms(1,2)] by blast

theorem hash_table_is_page_map_witness:
  "\<exists>h'. ht_insert demo_table 3 7 1 = Inr h' \<and> ht_inv h' \<and> ht_find h' 3 7 = Inr 1 \<and> ht_find h' 4 6 = Inr (-1)"
proof -
  have k: "key_ok 3 7" "key_ok 4 6" by (simp_all add: key_ok_def)
  have f: "ht_find demo_table 3 7 = Inr (-1)" "ht_find demo_table 4 6 = Inr (-1)" by code_simp+
  have "(1::int) \<noteq> -1" by simp
  from hash_table_is_page_map [OF demo_table_inv k(1) this] f k show ?thesis by force
qed

text \<open>C8: The destructor frees every entry exactly once: it never touches freed memory and leaves no
  entry allocated.\<close>

theorem hash_table_destroy_frees_all:
  assumes "ht_inv h"
  shows "ht_destroy h = Inr Map.empty"
  by (rule ht_destroy_ok [OF assms])

theorem hash_table_destroy_frees_all_witness: "ht_inv demo_table \<and> ht_destroy demo_table = Inr Map.empty"
  using hash_table_destroy_frees_all [OF demo_table_inv] demo_table_inv by blast

text \<open>The remainder of a negative sum is negative in C++: a key whose sum is negative and no multiple
  of the number of buckets makes \<open>find\<close> read before the bucket array.\<close>

theorem hash_table_negative_key:
  assumes "int_range (fd + page)" "fd + page < 0" "\<not> bucket_num h dvd (fd + page)"
  shows "ht_find h fd page = Inl Undefined_behaviour"
proof (cases "bucket_num h = 0")
  case False
  have "\<not> \<bar>bucket_num h\<bar> dvd \<bar>fd + page\<bar>" using assms(3) by simp
  then have "0 < \<bar>fd + page\<bar> mod \<bar>bucket_num h\<bar>"
    using False by (simp add: order.not_eq_order_implies_strict dvd_eq_mod_eq_0)
  then have "c_rem (fd + page) (bucket_num h) < 0" using assms(2) by (simp add: c_rem_def)
  then show ?thesis using assms(1) False by (simp add: ht_find_def ht_hash_def bucket_at_def)
qed (simp add: ht_find_def ht_hash_def)

theorem hash_table_negative_key_witness: "ht_find demo_table 3 (-4) = Inl Undefined_behaviour"
  using hash_table_negative_key [of 3 "-4" demo_table] by (simp add: int_range_def demo_table_def)

end
