(* ===== verification/Posix.thy ===== *)
theory Posix
  imports Prelude
begin

text \<open>
  The POSIX file calls the storage code makes, on regular files: \<open>open\<close>, \<open>close\<close>,
  \<open>unlink\<close>, \<open>lseek\<close>, \<open>read\<close>, \<open>write\<close>.  Directory entries name inodes, a
  descriptor refers to an inode and carries the file offset, and the device has room for a
  bounded number of further bytes, so that short and failing writes occur.  Results follow
  the C convention: \<open>-1\<close> for an error, otherwise the count or the new offset.

  The lemmas give the effect of a complete write on the aligned blocks of a file.
\<close>

record posix =
  px_names :: "string \<rightharpoonup> nat"
  px_data :: "nat \<Rightarrow> byte list"
  px_fds :: "int \<rightharpoonup> nat \<times> nat"
  px_room :: nat
  px_nexti :: nat
  px_maxfd :: nat

definition px_lseek :: "posix \<Rightarrow> int \<Rightarrow> int \<Rightarrow> int \<times> posix" where
  "px_lseek p fd off = (case px_fds p fd of
      None \<Rightarrow> (-1, p)
    | Some (i, _) \<Rightarrow> if off < 0 then (-1, p)
        else (off, p\<lparr>px_fds := (px_fds p)(fd \<mapsto> (i, nat off))\<rparr>))"

definition px_read :: "posix \<Rightarrow> int \<Rightarrow> nat \<Rightarrow> int \<times> byte list \<times> posix" where
  "px_read p fd n = (case px_fds p fd of
      None \<Rightarrow> (-1, [], p)
    | Some (i, off) \<Rightarrow>
        let bs = take n (drop off (px_data p i))
        in (int (length bs), bs, p\<lparr>px_fds := (px_fds p)(fd \<mapsto> (i, off + length bs))\<rparr>))"

text \<open>Bytes \<open>bs\<close> put at offset \<open>off\<close>; a gap after the old end reads as zeros.\<close>

definition overwrite :: "byte list \<Rightarrow> nat \<Rightarrow> byte list \<Rightarrow> byte list" where
  "overwrite f off bs = take off (f @ replicate (off - length f) 0) @ bs @ drop (off + length bs) f"

definition px_write :: "posix \<Rightarrow> int \<Rightarrow> byte list \<Rightarrow> int \<times> posix" where
  "px_write p fd bs = (case px_fds p fd of
      None \<Rightarrow> (-1, p)
    | Some (i, off) \<Rightarrow>
        let grow = off + length bs - length (px_data p i);
            n = length bs - (grow - px_room p);
            out = take n bs
        in if bs \<noteq> [] \<and> n = 0 then (-1, p)
           else (int n, p\<lparr>px_data := (px_data p)(i := overwrite (px_data p i) off out),
                         px_fds := (px_fds p)(fd \<mapsto> (i, off + n)),
                         px_room := px_room p - min grow (px_room p)\<rparr>))"

definition px_newfd :: "posix \<Rightarrow> int option" where
  "px_newfd p = map_option int (List.find (\<lambda>k. px_fds p (int k) = None) [0..<px_maxfd p])"

text \<open>\<open>open(name, O_CREAT | O_EXCL | O_WRONLY, mode)\<close> and \<open>open(name, O_RDWR)\<close>.\<close>

definition px_create :: "posix \<Rightarrow> string \<Rightarrow> int \<times> posix" where
  "px_create p name = (case px_newfd p of
      None \<Rightarrow> (-1, p)
    | Some fd \<Rightarrow> if px_names p name \<noteq> None then (-1, p)
        else (fd, p\<lparr>px_names := (px_names p)(name \<mapsto> px_nexti p),
                    px_data := (px_data p)(px_nexti p := []),
                    px_fds := (px_fds p)(fd \<mapsto> (px_nexti p, 0)),
                    px_nexti := Suc (px_nexti p)\<rparr>))"

definition px_open :: "posix \<Rightarrow> string \<Rightarrow> int \<times> posix" where
  "px_open p name = (case px_newfd p of
      None \<Rightarrow> (-1, p)
    | Some fd \<Rightarrow> (case px_names p name of None \<Rightarrow> (-1, p)
        | Some i \<Rightarrow> (fd, p\<lparr>px_fds := (px_fds p)(fd \<mapsto> (i, 0))\<rparr>)))"

definition px_close :: "posix \<Rightarrow> int \<Rightarrow> int \<times> posix" where
  "px_close p fd = (if px_fds p fd = None then (-1, p)
     else (0, p\<lparr>px_fds := (px_fds p)(fd := None)\<rparr>))"

definition px_unlink :: "posix \<Rightarrow> string \<Rightarrow> int \<times> posix" where
  "px_unlink p name = (if px_names p name = None then (-1, p)
     else (0, p\<lparr>px_names := (px_names p)(name := None)\<rparr>))"

section \<open>Blocks of a file\<close>

text \<open>\<open>block f off n\<close>: the \<open>n\<close> bytes at \<open>off\<close>, if the file has them all.\<close>

definition block :: "byte list \<Rightarrow> nat \<Rightarrow> nat \<Rightarrow> byte list option" where
  "block f off n = (if off + n \<le> length f then Some (take n (drop off f)) else None)"

lemma length_overwrite: "length (overwrite f off bs) = max (length f) (off + length bs)"
  by (auto simp: overwrite_def)

lemma nth_overwrite:
  assumes "k < max (length f) (off + length bs)"
  shows "overwrite f off bs ! k =
    (if off \<le> k \<and> k < off + length bs then bs ! (k - off) else if k < length f then f ! k else 0)"
  using assms by (auto simp: overwrite_def nth_append min_def less_diff_conv2)

lemma block_eq_iff:
  "block f off n = Some bs \<longleftrightarrow> off + n \<le> length f \<and> length bs = n \<and> (\<forall>k < n. bs ! k = f ! (off + k))"
  by (auto simp: block_def list_eq_iff_nth_eq)

lemma block_overwrite_same: "block (overwrite f off bs) off (length bs) = Some bs"
  by (auto simp: block_eq_iff length_overwrite nth_overwrite)

lemma block_overwrite_other:
  assumes "block f off' n = Some d" "off' + n \<le> off \<or> off + length bs \<le> off'"
  shows "block (overwrite f off bs) off' n = Some d"
  using assms by (auto simp: block_eq_iff length_overwrite nth_overwrite)

text \<open>Two open descriptors never refer to the same inode.\<close>

definition fds_inj :: "posix \<Rightarrow> bool" where
  "fds_inj p \<longleftrightarrow> (\<forall>fd fd' i o1 o2. px_fds p fd = Some (i, o1) \<longrightarrow> px_fds p fd' = Some (i, o2) \<longrightarrow> fd = fd')"

definition fd_block :: "posix \<Rightarrow> int \<Rightarrow> nat \<Rightarrow> nat \<Rightarrow> byte list option" where
  "fd_block p fd off n = (case px_fds p fd of None \<Rightarrow> None | Some (i, _) \<Rightarrow> block (px_data p i) off n)"

lemma px_lseek_ok:
  assumes "px_lseek p fd off = (r, p')" "0 \<le> r"
  obtains i o1 where "px_fds p fd = Some (i, o1)" "0 \<le> off"
    "p' = p\<lparr>px_fds := (px_fds p)(fd \<mapsto> (i, nat off))\<rparr>"
  using assms by (auto simp: px_lseek_def split: option.splits if_splits prod.splits)

lemma px_lseek_fail: "px_lseek p fd off = (r, p') \<Longrightarrow> r < 0 \<Longrightarrow> p' = p"
  by (auto simp: px_lseek_def split: option.splits if_splits prod.splits)

lemma fds_inj_move:
  "fds_inj p \<Longrightarrow> px_fds p fd = Some (i, o1) \<Longrightarrow>
    fds_inj (p\<lparr>px_fds := (px_fds p)(fd \<mapsto> (i, o2))\<rparr>)"
  by (auto simp: fds_inj_def split: if_splits)

lemma fd_block_move:
  "px_fds p fd = Some (i, o1) \<Longrightarrow>
    fd_block (p\<lparr>px_fds := (px_fds p)(fd \<mapsto> (i, o2))\<rparr>) fd' off n = fd_block p fd' off n"
  by (auto simp: fd_block_def split: option.splits)

lemma fds_inj_data: "fds_inj (p\<lparr>px_data := d, px_fds := F, px_room := r\<rparr>) = fds_inj (p\<lparr>px_fds := F\<rparr>)"
  by (simp add: fds_inj_def)

text \<open>A write changes no block it does not overlap, and a complete write leaves its bytes.\<close>

lemma px_write_blocks:
  assumes "px_fds p fd = Some (i, off)" "fds_inj p" "px_write p fd bs = (r, p')"
  shows "fds_inj p'"
    and "r = int (length bs) \<Longrightarrow> fd_block p' fd off (length bs) = Some bs"
    and "fd_block p f o' n = Some d \<Longrightarrow> f \<noteq> fd \<or> o' + n \<le> off \<or> off + length bs \<le> o' \<Longrightarrow>
      fd_block p' f o' n = Some d"
proof -
  let ?grow = "off + length bs - length (px_data p i)"
  let ?n = "length bs - (?grow - px_room p)"
  let ?out = "take ?n bs"
  consider (fail) "p' = p" "r = -1"
    | (ok) "r = int ?n" "p' = p\<lparr>px_data := (px_data p)(i := overwrite (px_data p i) off ?out),
        px_fds := (px_fds p)(fd \<mapsto> (i, off + ?n)), px_room := px_room p - min ?grow (px_room p)\<rparr>"
    using assms(1,3) by (auto simp: px_write_def Let_def split: if_splits)
  note cases = this
  from cases show "fds_inj p'"
    using fds_inj_move [OF assms(2,1)] assms(2) by cases (simp_all add: fds_inj_data)
  show "fd_block p' fd off (length bs) = Some bs" if "r = int (length bs)"
    using cases
  proof cases
    case fail
    then show ?thesis using that by simp
  next
    case ok
    then have "?out = bs" using that by simp
    then show ?thesis using ok block_overwrite_same [of "px_data p i" off bs]
      by (simp add: fd_block_def)
  qed
  show "fd_block p' f o' n = Some d"
    if b: "fd_block p f o' n = Some d" and dis: "f \<noteq> fd \<or> o' + n \<le> off \<or> off + length bs \<le> o'"
    using cases
  proof cases
    case fail
    then show ?thesis using b by simp
  next
    case ok
    from b obtain j o1 where j: "px_fds p f = Some (j, o1)" "block (px_data p j) o' n = Some d"
      by (auto simp: fd_block_def split: option.splits)
    show ?thesis
    proof (cases "f = fd")
      case True
      then have "block (overwrite (px_data p i) off ?out) o' n = Some d"
        using j assms(1) dis by (intro block_overwrite_other) auto
      then show ?thesis using True ok by (simp add: fd_block_def)
    next
      case False
      then have "j \<noteq> i" using assms(1,2) j(1) unfolding fds_inj_def by blast
      then show ?thesis using False ok j by (simp add: fd_block_def)
    qed
  qed
qed

text \<open>A complete write inside a block patches the block.\<close>

lemma block_overwrite_inside:
  assumes "block f off n = Some d" "length bs \<le> n"
  shows "block (overwrite f off bs) off n = Some (bs @ drop (length bs) d)"
  using assms by (auto simp: block_eq_iff length_overwrite nth_overwrite nth_append)

lemma px_write_head:
  assumes "px_fds p fd = Some (i, off)" "fd_block p fd off n = Some d" "length bs \<le> n"
    and "px_write p fd bs = (r, p')"
  shows "r = int (length bs) \<and> fd_block p' fd off n = Some (bs @ drop (length bs) d)"
proof -
  have b: "block (px_data p i) off n = Some d" using assms(1,2) by (simp add: fd_block_def)
  then have "off + length bs \<le> length (px_data p i)" using assms(3) by (auto simp: block_def split: if_splits)
  then show ?thesis using assms(1,4) block_overwrite_inside [OF b assms(3)]
    by (auto simp: px_write_def Let_def fd_block_def split: if_splits)
qed

lemma px_read_full:
  assumes "px_fds p fd = Some (i, off)" "px_read p fd n = (r, bs, p')"
  shows "length bs \<le> n" and "0 \<le> r" and "r = int (length bs)"
    and "r = int n \<Longrightarrow> 0 < n \<Longrightarrow> fd_block p fd off n = Some bs"
    and "p' = p\<lparr>px_fds := (px_fds p)(fd \<mapsto> (i, off + length bs))\<rparr>"
  using assms by (auto simp: px_read_def Let_def fd_block_def block_def)

end
