(* ===== verification/Buffer_Manager.thy ===== *)
theory Buffer_Manager
  imports Hash_Table Posix
begin

text \<open>
  \<^verbatim>\<open>io/buffer_manager.{h,cc}\<close>: the buffer pool.  A slot of the pool caches one page of one
  open file; the hash table finds the slot of a page; free slots are on \<open>free_list\<close>, the
  others on \<open>used_list\<close> in order of use, most recent first.  \<open>std::list\<close> iterators are
  node identities: \<open>used_list\<close> holds \<open>(node, slot)\<close> pairs and \<open>used_map\<close> the node
  of each slot.  A \<open>char*\<close> returned by the manager points to the data of a slot and is
  modelled by the slot.  The state includes the operating system's files.
\<close>

section \<open>The model\<close>

record buffer_entry =
  be_dirty :: bool
  be_fd :: int
  be_page :: int
  be_data :: "byte list"
  be_pin :: int

record bufm =
  pool_size :: int
  buffer_size :: int
  table :: hash_table
  pool :: "buffer_entry list"
  free_list :: "int list"
  used_list :: "(nat \<times> int) list"
  used_map :: "int \<rightharpoonup> nat"
  next_node :: nat
  os :: posix

type_synonym 'a bm = "(bufm, 'a) eff"

definition HASH_TABLE_SIZE :: int where
  "HASH_TABLE_SIZE = 20"

text \<open>\<open>new buffer_entry[pool_size]\<close> leaves the members uninitialised: \<open>junk\<close> is what they
  hold.  Only \<open>data\<close> is set, to a zeroed buffer.\<close>

definition mk_bufm :: "int \<Rightarrow> int \<Rightarrow> (nat \<Rightarrow> buffer_entry) \<Rightarrow> posix \<Rightarrow> bufm res" where
  "mk_bufm psize bsize junk px =
     (if psize < 0 \<or> 0 < psize \<and> bsize < 0 then Inl Std_exception
      else bindR (mk_hash_table HASH_TABLE_SIZE) (\<lambda>h.
        Inr \<lparr>pool_size = psize, buffer_size = bsize, table = h,
             pool = map (\<lambda>i. (junk i)\<lparr>be_data := replicate (nat bsize) 0\<rparr>) [0..<nat psize],
             free_list = map int [0..<nat psize], used_list = [], used_map = Map.empty,
             next_node = 0, os = px\<rparr>))"

text \<open>The destructor releases the data of the slots and the hash table; nothing is written.\<close>

definition bm_destroy :: "bufm \<Rightarrow> entry_heap res" where
  "bm_destroy s = ht_destroy (table s)"

definition slot_ok :: "bufm \<Rightarrow> int \<Rightarrow> bool" where
  "slot_ok s i \<longleftrightarrow> 0 \<le> i \<and> i < int (length (pool s))"

definition entry_at :: "int \<Rightarrow> buffer_entry bm" where
  "entry_at i = liftE (\<lambda>s. if slot_ok s i then Inr (pool s ! nat i) else Inl Undefined_behaviour)"

definition upd_entry :: "int \<Rightarrow> (buffer_entry \<Rightarrow> buffer_entry) \<Rightarrow> unit bm" where
  "upd_entry i f = bindE (entry_at i) (\<lambda>e. modE (\<lambda>s. s\<lparr>pool := (pool s)[nat i := f e]\<rparr>))"

definition insert_free :: "int \<Rightarrow> unit bm" where
  "insert_free slot = modE (\<lambda>s. s\<lparr>free_list := slot # free_list s\<rparr>)"

definition insert_used :: "int \<Rightarrow> unit bm" where
  "insert_used slot = modE (\<lambda>s. s\<lparr>
     used_list := (next_node s, slot) # used_list s,
     used_map := (if used_map s slot = None then (used_map s)(slot \<mapsto> next_node s) else used_map s),
     next_node := Suc (next_node s)\<rparr>)"

fun drop_slot :: "int \<Rightarrow> (nat \<times> int) list \<Rightarrow> (nat \<times> int) list" where
  "drop_slot slot [] = []"
| "drop_slot slot ((n, i) # xs) = (if i = slot then xs else (n, i) # drop_slot slot xs)"

definition remove :: "int \<Rightarrow> unit bm" where
  "remove slot = bindE (getE (\<lambda>s. used_map s slot)) (\<lambda>it.
     case it of
       Some node \<Rightarrow> bindE (getE used_list) (\<lambda>us.
         if node \<in> fst ` set us
         then modE (\<lambda>s. s\<lparr>used_list := filter (\<lambda>(m, _). m \<noteq> node) us,
                          used_map := (used_map s)(slot := None)\<rparr>)
         else throwE Undefined_behaviour)
     | None \<Rightarrow> modE (\<lambda>s. s\<lparr>used_list := drop_slot slot (used_list s)\<rparr>))"

text \<open>\<open>off_t offset = page * buffer_size_ + 4096\<close>, computed in \<open>int\<close>.\<close>

definition page_offset :: "int \<Rightarrow> int \<Rightarrow> int res" where
  "page_offset bs page = bindR (c_int (page * bs)) (\<lambda>x. c_int (x + 4096))"

definition lseek :: "int \<Rightarrow> int \<Rightarrow> int bm" where
  "lseek fd off = (\<lambda>s. case px_lseek (os s) fd off of (r, p) \<Rightarrow> (Inr r, s\<lparr>os := p\<rparr>))"

definition read_fd :: "int \<Rightarrow> nat \<Rightarrow> (int \<times> byte list) bm" where
  "read_fd fd n = (\<lambda>s. case px_read (os s) fd n of (r, bs, p) \<Rightarrow> (Inr (r, bs), s\<lparr>os := p\<rparr>))"

definition write_fd :: "int \<Rightarrow> byte list \<Rightarrow> int bm" where
  "write_fd fd bs = (\<lambda>s. case px_write (os s) fd bs of (r, p) \<Rightarrow> (Inr r, s\<lparr>os := p\<rparr>))"

definition read_page :: "int \<Rightarrow> int \<Rightarrow> int \<Rightarrow> unit bm" where
  "read_page fd page slot =
     bindE (getE buffer_size) (\<lambda>bsize.
     bindE (liftE (\<lambda>_. page_offset bsize page)) (\<lambda>offset.
     bindE (lseek fd offset) (\<lambda>r.
     seqE (guardE (0 \<le> r) Unix_error) (
     bindE (read_fd fd (nat bsize)) (\<lambda>(num_bytes, bs).
     seqE (upd_entry slot (\<lambda>e. e\<lparr>be_data := bs @ drop (length bs) (be_data e)\<rparr>)) (
     seqE (guardE (0 \<le> num_bytes) Unix_error)
          (guardE (num_bytes = bsize) Incomplete_read)))))))"

definition write_page :: "int \<Rightarrow> int \<Rightarrow> byte list \<Rightarrow> unit bm" where
  "write_page fd page src =
     bindE (getE buffer_size) (\<lambda>bsize.
     bindE (liftE (\<lambda>_. page_offset bsize page)) (\<lambda>offset.
     bindE (lseek fd offset) (\<lambda>r.
     seqE (guardE (0 \<le> r) Unix_error) (
     bindE (write_fd fd (take (nat bsize) src)) (\<lambda>num_bytes.
     seqE (guardE (0 \<le> num_bytes) Unix_error)
          (guardE (num_bytes = bsize) Incomplete_write))))))"

text \<open>The backward scan of \<open>internal_alloc\<close> for a slot that is not pinned.\<close>

fun find_victim :: "buffer_entry list \<Rightarrow> int list \<Rightarrow> int option res" where
  "find_victim es [] = Inr None"
| "find_victim es (i # is) =
     (if 0 \<le> i \<and> i < int (length es)
      then if be_pin (es ! nat i) = 0 then Inr (Some i) else find_victim es is
      else Inl Undefined_behaviour)"

definition table_do :: "(hash_table \<Rightarrow> hash_table res) \<Rightarrow> unit bm" where
  "table_do f = bindE (liftE (\<lambda>s. f (table s))) (\<lambda>h. modE (\<lambda>s. s\<lparr>table := h\<rparr>))"

definition evict :: "int \<Rightarrow> unit bm" where
  "evict slot =
     bindE (entry_at slot) (\<lambda>e.
     seqE (whenE (be_dirty e) (write_page (be_fd e) (be_page e) (be_data e))) (
     seqE (table_do (\<lambda>h. ht_remove h (be_fd e) (be_page e))) (
     seqE (remove slot) (insert_used slot))))"

definition internal_alloc :: "int bm" where
  "internal_alloc = bindE (getE free_list) (\<lambda>fl.
     case fl of
       slot # rest \<Rightarrow>
         seqE (modE (\<lambda>s. s\<lparr>free_list := rest\<rparr>)) (seqE (insert_used slot) (retE slot))
     | [] \<Rightarrow>
         bindE (liftE (\<lambda>s. find_victim (pool s) (rev (map snd (used_list s))))) (\<lambda>v.
         case v of None \<Rightarrow> throwE No_buf
         | Some slot \<Rightarrow> seqE (evict slot) (retE slot)))"

definition init_page_info :: "int \<Rightarrow> int \<Rightarrow> int \<Rightarrow> unit bm" where
  "init_page_info fd page slot =
     upd_entry slot (\<lambda>e. e\<lparr>be_fd := fd, be_page := page, be_pin := 1, be_dirty := False\<rparr>)"

definition touch :: "int \<Rightarrow> unit bm" where
  "touch slot = seqE (remove slot) (insert_used slot)"

definition find_page :: "int \<Rightarrow> int \<Rightarrow> int bm" where
  "find_page fd page = liftE (\<lambda>s. ht_find (table s) fd page)"

definition get_page :: "int \<Rightarrow> int \<Rightarrow> bool \<Rightarrow> int bm" where
  "get_page fd page multiple_pins = bindE (find_page fd page) (\<lambda>slot.
     if slot = -1 then
       bindE internal_alloc (\<lambda>slot.
       seqE (read_page fd page slot) (
       seqE (table_do (\<lambda>h. ht_insert h fd page slot)) (
       seqE (init_page_info fd page slot) (retE slot))))
     else
       bindE (entry_at slot) (\<lambda>e.
       seqE (guardE (multiple_pins \<or> \<not> 0 < be_pin e) Page_pinned) (
       bindE (liftE (\<lambda>_. c_int (be_pin e + 1))) (\<lambda>n.
       seqE (upd_entry slot (\<lambda>e. e\<lparr>be_pin := n\<rparr>)) (
       seqE (touch slot) (retE slot))))))"

text \<open>\<open>allocate_page\<close> returns \<open>nullptr\<close> when the page is cached already.\<close>

definition allocate_page :: "int \<Rightarrow> int \<Rightarrow> int option bm" where
  "allocate_page fd page = bindE (find_page fd page) (\<lambda>slot.
     if slot \<noteq> -1 then retE None
     else
       bindE internal_alloc (\<lambda>slot.
       seqE (table_do (\<lambda>h. ht_insert h fd page slot)) (
       seqE (init_page_info fd page slot) (retE (Some slot)))))"

definition mark_dirty :: "int \<Rightarrow> int \<Rightarrow> unit bm" where
  "mark_dirty fd page = bindE (find_page fd page) (\<lambda>slot.
     seqE (guardE (slot \<noteq> -1) Page_not_in_buf) (
     seqE (upd_entry slot (\<lambda>e. e\<lparr>be_dirty := True\<rparr>)) (touch slot)))"

definition unpin_page :: "int \<Rightarrow> int \<Rightarrow> unit bm" where
  "unpin_page fd page = bindE (find_page fd page) (\<lambda>slot.
     seqE (guardE (slot \<noteq> -1) Page_not_in_buf) (
     bindE (entry_at slot) (\<lambda>e.
     seqE (guardE (be_pin e \<noteq> 0) Page_already_unpinned) (
     bindE (liftE (\<lambda>_. c_int (be_pin e - 1))) (\<lambda>n.
     seqE (upd_entry slot (\<lambda>e. e\<lparr>be_pin := n\<rparr>))
          (whenE (n = 0) (touch slot)))))))"

fun force_loop :: "int \<Rightarrow> int \<Rightarrow> int list \<Rightarrow> unit bm" where
  "force_loop fd page [] = retE ()"
| "force_loop fd page (i # is) =
     bindE (entry_at i) (\<lambda>e.
     seqE (whenE (be_fd e = fd \<and> (be_page e = page \<or> page = -1) \<and> be_dirty e)
       (seqE (write_page fd page (be_data e)) (upd_entry i (\<lambda>e. e\<lparr>be_dirty := False\<rparr>))))
     (force_loop fd page is))"

definition force_page :: "int \<Rightarrow> int \<Rightarrow> unit bm" where
  "force_page fd page = bindE (getE used_list) (\<lambda>us. force_loop fd page (map snd us))"

definition flush_slot :: "int \<Rightarrow> int \<Rightarrow> unit bm" where
  "flush_slot fd i =
     bindE (entry_at i) (\<lambda>e.
     whenE (be_fd e = fd) (
       seqE (guardE (\<not> 0 < be_pin e) Page_pinned) (
       seqE (whenE (be_dirty e)
         (seqE (write_page (be_fd e) (be_page e) (be_data e)) (upd_entry i (\<lambda>e. e\<lparr>be_dirty := False\<rparr>)))) (
       seqE (table_do (\<lambda>h. ht_remove h (be_fd e) (be_page e))) (
       seqE (remove i) (insert_free i))))))"

fun flush_loop :: "int \<Rightarrow> int list \<Rightarrow> unit bm" where
  "flush_loop fd [] = retE ()"
| "flush_loop fd (i # is) = seqE (flush_slot fd i) (flush_loop fd is)"

definition flush_pages :: "int \<Rightarrow> unit bm" where
  "flush_pages fd = bindE (getE pool_size) (\<lambda>n. flush_loop fd (map int [0..<nat n]))"

text \<open>What a client does through the pointer it was given: overwrite bytes of the slot.\<close>

definition poke :: "int \<Rightarrow> nat \<Rightarrow> byte list \<Rightarrow> unit bm" where
  "poke slot off bs = upd_entry slot (\<lambda>e. e\<lparr>be_data :=
     take off (be_data e) @ bs @ drop (off + length bs) (be_data e)\<rparr>)"

section \<open>The lists of slots\<close>

abbreviation slots :: "bufm \<Rightarrow> int list" where
  "slots s \<equiv> map snd (used_list s)"

abbreviation ent :: "bufm \<Rightarrow> int \<Rightarrow> buffer_entry" where
  "ent s i \<equiv> pool s ! nat i"

text \<open>Free and used slots partition the pool, and \<open>used_map\<close> knows the node of each used slot.\<close>

definition lists_ok :: "bufm \<Rightarrow> bool" where
  "lists_ok s \<longleftrightarrow> distinct (free_list s @ slots s)
     \<and> set (free_list s) \<union> set (slots s) = {0..<int (length (pool s))}
     \<and> pool_size s = int (length (pool s))
     \<and> distinct (map fst (used_list s)) \<and> fst ` set (used_list s) \<subseteq> {..<next_node s}
     \<and> used_map s = map_of (map prod.swap (used_list s))"

lemma lists_okD:
  assumes "lists_ok s"
  shows "distinct (free_list s)" "distinct (slots s)" "set (free_list s) \<inter> set (slots s) = {}"
    "set (free_list s) \<union> set (slots s) = {0..<int (length (pool s))}"
    "pool_size s = int (length (pool s))"
    "distinct (map fst (used_list s))" "fst ` set (used_list s) \<subseteq> {..<next_node s}"
    "used_map s = map_of (map prod.swap (used_list s))"
  using assms unfolding lists_ok_def by auto

lemma used_slot_ok: "lists_ok s \<Longrightarrow> i \<in> set (slots s) \<Longrightarrow> slot_ok s i"
  using lists_okD(4) by (fastforce simp: slot_ok_def)

lemma free_slot_ok: "lists_ok s \<Longrightarrow> i \<in> set (free_list s) \<Longrightarrow> slot_ok s i"
  using lists_okD(4) by (fastforce simp: slot_ok_def)

lemma slot_cases: "lists_ok s \<Longrightarrow> slot_ok s i \<Longrightarrow> i \<in> set (free_list s) \<or> i \<in> set (slots s)"
  using lists_okD(4) by (fastforce simp: slot_ok_def)

lemma entry_at_eq: "slot_ok s i \<Longrightarrow> entry_at i s = (Inr (ent s i), s)"
  by (simp add: entry_at_def eff_defs)

lemma upd_entry_eq: "slot_ok s i \<Longrightarrow> upd_entry i f s = (Inr (), s\<lparr>pool := (pool s)[nat i := f (ent s i)]\<rparr>)"
  by (simp add: upd_entry_def bindE_def entry_at_eq modE_def)

lemma wpE_entry_at: "slot_ok s i \<Longrightarrow> wpE (entry_at i) Q R s = Q (ent s i) s"
  by (simp add: wpE_def entry_at_eq)

lemma wpE_upd_entry:
  "slot_ok s i \<Longrightarrow> wpE (upd_entry i f) Q R s = Q () (s\<lparr>pool := (pool s)[nat i := f (ent s i)]\<rparr>)"
  by (simp add: wpE_def upd_entry_eq)

lemma drop_slot_absent: "i \<notin> snd ` set us \<Longrightarrow> drop_slot i us = us"
  by (induction i us rule: drop_slot.induct) auto

lemma map_of_swap_filter:
  "map_of (map prod.swap (filter (\<lambda>p. snd p \<noteq> i) us)) = (map_of (map prod.swap us))(i := None)"
  by (induction us) (auto simp: fun_eq_iff)

lemma map_of_swap_None: "map_of (map prod.swap us) i = None \<longleftrightarrow> i \<notin> snd ` set us"
  by (induction us) auto

lemma map_of_swap_SomeD: "map_of (map prod.swap us) i = Some n \<Longrightarrow> (n, i) \<in> set us"
  by (drule map_of_SomeD) auto

lemma filter_node_slot:
  assumes "(n, i) \<in> set us" "distinct (map fst us)" "distinct (map snd us)"
  shows "filter (\<lambda>(m, _). m \<noteq> n) us = filter (\<lambda>p. snd p \<noteq> i) us"
proof (rule filter_cong [OF refl])
  fix p assume p: "p \<in> set us"
  have "fst p = n \<longleftrightarrow> p = (n, i)" using assms(1,2) p by (auto simp: distinct_map inj_on_def)
  moreover have "snd p = i \<longleftrightarrow> p = (n, i)" using assms(1,3) p by (auto simp: distinct_map inj_on_def)
  ultimately show "(case p of (m, _) \<Rightarrow> m \<noteq> n) = (snd p \<noteq> i)" by (simp add: split_beta)
qed

definition without :: "int \<Rightarrow> bufm \<Rightarrow> bufm" where
  "without i s = s\<lparr>used_list := filter (\<lambda>p. snd p \<noteq> i) (used_list s), used_map := (used_map s)(i := None)\<rparr>"

definition touched :: "int \<Rightarrow> bufm \<Rightarrow> bufm" where
  "touched i s = s\<lparr>used_list := (next_node s, i) # filter (\<lambda>p. snd p \<noteq> i) (used_list s),
     used_map := (used_map s)(i \<mapsto> next_node s), next_node := Suc (next_node s)\<rparr>"

lemma remove_eq:
  assumes "lists_ok s"
  shows "remove i s = (Inr (), without i s)"
proof (cases "used_map s i")
  case None
  then have "i \<notin> snd ` set (used_list s)" using lists_okD(8) [OF assms] by (simp add: map_of_swap_None)
  then have "filter (\<lambda>p. snd p \<noteq> i) (used_list s) = used_list s" "drop_slot i (used_list s) = used_list s"
    by (auto simp: filter_id_conv drop_slot_absent)
  moreover have "(used_map s)(i := None) = used_map s" using None by (simp add: fun_eq_iff)
  ultimately show ?thesis using None by (simp add: remove_def without_def eff_defs)
next
  case (Some n)
  then have m: "(n, i) \<in> set (used_list s)" using lists_okD(8) [OF assms] by (simp add: map_of_swap_SomeD)
  have "filter (\<lambda>(m, _). m \<noteq> n) (used_list s) = filter (\<lambda>p. snd p \<noteq> i) (used_list s)"
    using filter_node_slot [OF m] lists_okD(2,6) [OF assms] by simp
  then show ?thesis using Some m by (force simp: remove_def without_def eff_defs)
qed

lemma touch_eq: "lists_ok s \<Longrightarrow> touch i s = (Inr (), touched i s)"
  by (simp add: touch_def insert_used_def seqE_def bindE_def remove_eq modE_def without_def touched_def)

lemma wpE_touch: "lists_ok s \<Longrightarrow> wpE (touch i) Q R s = Q () (touched i s)"
  by (simp add: wpE_def touch_eq)

lemma touched_simps [simp]:
  "pool (touched i s) = pool s" "pool_size (touched i s) = pool_size s"
  "buffer_size (touched i s) = buffer_size s" "table (touched i s) = table s"
  "free_list (touched i s) = free_list s" "os (touched i s) = os s"
  "slots (touched i s) = i # removeAll i (slots s)"
  by (auto simp: touched_def removeAll_filter_not_eq filter_map comp_def
      intro!: arg_cong [where f = "map snd"] filter_cong)

lemma without_simps [simp]:
  "pool (without i s) = pool s" "pool_size (without i s) = pool_size s"
  "buffer_size (without i s) = buffer_size s" "table (without i s) = table s"
  "free_list (without i s) = free_list s" "os (without i s) = os s"
  "next_node (without i s) = next_node s"
  "slots (without i s) = removeAll i (slots s)"
  by (auto simp: without_def removeAll_filter_not_eq filter_map comp_def
      intro!: arg_cong [where f = "map snd"] filter_cong)

lemma lists_ok_touched:
  assumes "lists_ok s" "i \<in> set (slots s)"
  shows "lists_ok (touched i s)"
proof -
  note l = lists_okD [OF assms(1)]
  have "distinct (map fst (used_list (touched i s)))"
    using l(6,7) by (fastforce simp: touched_def distinct_map_filter)
  moreover have "fst ` set (used_list (touched i s)) \<subseteq> {..<next_node (touched i s)}"
    using l(7) by (auto simp: touched_def)
  moreover have "used_map (touched i s) = map_of (map prod.swap (used_list (touched i s)))"
    using l(8) by (simp add: touched_def map_of_swap_filter)
  moreover have "set (free_list s) \<union> insert i (set (slots s) - {i}) = {0..<int (length (pool s))}"
    using l(4) assms(2) by (simp add: insert_absorb)
  ultimately show ?thesis using l assms(2) unfolding lists_ok_def touched_simps
    by (auto simp: distinct_removeAll)
qed

section \<open>Pages on disk\<close>

text \<open>What the file holds at the place of a page, if it is that long.\<close>

definition disk_page :: "bufm \<Rightarrow> int \<Rightarrow> int \<Rightarrow> byte list option" where
  "disk_page s fd page = (let off = page * buffer_size s + 4096 in
     if 0 \<le> off then fd_block (os s) fd (nat off) (nat (buffer_size s)) else None)"

lemma disk_page_cong: "os s' = os s \<Longrightarrow> buffer_size s' = buffer_size s \<Longrightarrow> disk_page s' = disk_page s"
  by (simp add: disk_page_def fun_eq_iff Let_def)

text \<open>A step of the manager that changed nothing but the files, and no page outside \<open>K\<close> there.\<close>

definition disk_step :: "(int \<times> int) set \<Rightarrow> bufm \<Rightarrow> bufm \<Rightarrow> bool" where
  "disk_step K s s' \<longleftrightarrow> s' = s\<lparr>os := os s'\<rparr> \<and> fds_inj (os s')
     \<and> (\<forall>f p d. (f, p) \<notin> K \<longrightarrow> disk_page s f p = Some d \<longrightarrow> disk_page s' f p = Some d)"

lemma page_offset_Inr: "page_offset bs page = Inr off \<Longrightarrow> off = page * bs + 4096"
  by (auto simp: page_offset_def c_int_def split: if_splits)

lemma page_offset_Inl: "page_offset bs page = Inl e \<Longrightarrow> e = Undefined_behaviour"
  by (auto simp: page_offset_def c_int_def bindR_def split: if_splits)

lemma page_disjoint:
  fixes bs :: int
  assumes "0 < bs" "p \<noteq> q"
  shows "p * bs + bs \<le> q * bs \<or> q * bs + bs \<le> p * bs"
proof -
  have *: "a * bs + bs \<le> b * bs" if "a < b" for a b :: int
    using mult_right_mono [of "a + 1" b bs] that assms(1) by (simp add: algebra_simps)
  show ?thesis using * [of p q] * [of q p] assms(2) by linarith
qed

lemma disk_page_disjoint:
  assumes "0 < buffer_size s" "q \<noteq> p" "0 \<le> p * buffer_size s + 4096" "0 \<le> q * buffer_size s + 4096"
  shows "nat (q * buffer_size s + 4096) + nat (buffer_size s) \<le> nat (p * buffer_size s + 4096)
    \<or> nat (p * buffer_size s + 4096) + nat (buffer_size s) \<le> nat (q * buffer_size s + 4096)"
  using page_disjoint [OF assms(1,2)] assms(1,3,4) by linarith

lemma disk_step_refl: "fds_inj (os s) \<Longrightarrow> disk_step K s s"
  by (simp add: disk_step_def)

lemma disk_step_trans: "disk_step K s s' \<Longrightarrow> disk_step K s' s'' \<Longrightarrow> disk_step K s s''"
  unfolding disk_step_def by (metis bufm.surjective bufm.update_convs(9))

lemma lseek_step:
  assumes "fds_inj (os s)" "lseek fd off s = (Inr r, s')"
  shows "disk_step K s s'"
    and "0 \<le> r \<Longrightarrow> \<exists>i. px_fds (os s') fd = Some (i, nat off) \<and> 0 \<le> off"
    and "disk_page s' f p = disk_page s f p"
proof -
  obtain p' where p': "px_lseek (os s) fd off = (r, p')" "s' = s\<lparr>os := p'\<rparr>"
    using assms(2) by (auto simp: lseek_def split: prod.splits)
  have *: "fds_inj p' \<and> (\<forall>f o' n. fd_block p' f o' n = fd_block (os s) f o' n)
    \<and> (0 \<le> r \<longrightarrow> (\<exists>i. px_fds p' fd = Some (i, nat off) \<and> 0 \<le> off))"
  proof (cases "0 \<le> r")
    case True
    from px_lseek_ok [OF p'(1) True] obtain i o1 where "px_fds (os s) fd = Some (i, o1)" "0 \<le> off"
      "p' = (os s)\<lparr>px_fds := (px_fds (os s))(fd \<mapsto> (i, nat off))\<rparr>" by blast
    then show ?thesis using assms(1) by (simp add: fds_inj_move fd_block_move)
  next
    case False
    then show ?thesis using px_lseek_fail [OF p'(1)] assms(1) by simp
  qed
  then show "disk_page s' f p = disk_page s f p" for f p
    using p'(2) by (simp add: disk_page_def Let_def)
  then show "disk_step K s s'" using * p'(2) by (simp add: disk_step_def)
  show "\<exists>i. px_fds (os s') fd = Some (i, nat off) \<and> 0 \<le> off" if "0 \<le> r"
    using * p'(2) that by simp
qed

lemma write_fd_step:
  assumes "fds_inj (os s)" "px_fds (os s) fd = Some (i, nat off)" "0 \<le> off"
    and "off = page * buffer_size s + 4096" "0 < buffer_size s" "length bs = nat (buffer_size s)"
    and "write_fd fd bs s = (Inr r, s')"
  shows "disk_step {(fd, page)} s s'"
    and "r = buffer_size s \<Longrightarrow> disk_page s' fd page = Some bs"
proof -
  obtain p' where p': "px_write (os s) fd bs = (r, p')" "s' = s\<lparr>os := p'\<rparr>"
    using assms(7) by (auto simp: write_fd_def split: prod.splits)
  note w = px_write_blocks [OF assms(2,1) p'(1)]
  have "disk_page s' f p = Some d" if d: "disk_page s f p = Some d" "(f, p) \<noteq> (fd, page)" for f p d
  proof -
    have "f \<noteq> fd \<or> p \<noteq> page" using d(2) by auto
    then have "fd_block p' f (nat (p * buffer_size s + 4096)) (nat (buffer_size s)) = Some d"
      using d(1) disk_page_disjoint [OF assms(5), of p page] assms(3,4,6)
      by (intro w(3)) (auto simp: disk_page_def Let_def split: if_splits)
    then show ?thesis using d(1) p'(2) by (auto simp: disk_page_def Let_def split: if_splits)
  qed
  then show "disk_step {(fd, page)} s s'" using w(1) p'(2) by (auto simp: disk_step_def)
  show "disk_page s' fd page = Some bs" if "r = buffer_size s"
    using w(2) that assms(3-6) p'(2) by (simp add: disk_page_def Let_def)
qed

definition io_errors :: "exn set" where
  "io_errors = {Unix_error, Incomplete_write, Incomplete_read, Undefined_behaviour}"

lemma write_page_spec:
  assumes "fds_inj (os s)" "0 < buffer_size s" "length src = nat (buffer_size s)"
  shows "wpE (write_page fd page src)
    (\<lambda>_ s'. disk_step {(fd, page)} s s' \<and> disk_page s' fd page = Some src)
    (\<lambda>e s'. disk_step {(fd, page)} s s' \<and> e \<in> io_errors) s"
proof (cases "page_offset (buffer_size s) page")
  case (Inl e)
  then show ?thesis using page_offset_Inl [OF Inl] disk_step_refl [OF assms(1)]
    by (simp add: write_page_def wp_simps io_errors_def)
next
  case (Inr off)
  obtain r s1 where s1: "lseek fd off s = (Inr r, s1)" by (cases "px_lseek (os s) fd off") (simp add: lseek_def)
  have st: "disk_step {(fd, page)} s s1" using lseek_step(1) [OF assms(1) s1] .
  then have b: "buffer_size s1 = buffer_size s" "fds_inj (os s1)"
    by (auto simp: disk_step_def) (metis bufm.select_convs(2) bufm.surjective bufm.update_convs(9))
  obtain r2 s2 where s2: "write_fd fd src s1 = (Inr r2, s2)" by (cases "px_write (os s1) fd src") (simp add: write_fd_def)
  have lk: "wpE (lseek fd off) Q R s = Q r s1" for Q R by (simp add: wpE_def s1)
  have wr: "wpE (write_fd fd src) Q R s1 = Q r2 s2" for Q R by (simp add: wpE_def s2)
  have "disk_step {(fd, page)} s1 s2 \<and> (r2 = buffer_size s \<longrightarrow> disk_page s2 fd page = Some src)" if "0 \<le> r"
    using lseek_step(2) [OF assms(1) s1 that] write_fd_step [OF b(2) _ _ _ _ _ s2]
      page_offset_Inr [OF Inr] assms(2,3) b(1) by force
  then show ?thesis using Inr st disk_step_trans [OF st] assms(3)
    by (auto simp: write_page_def wp_simps io_errors_def lk wr)
qed

text \<open>A read moves file offsets and fills the slot; it changes no page on disk.\<close>

definition loaded :: "int \<Rightarrow> byte list \<Rightarrow> posix \<Rightarrow> bufm \<Rightarrow> bufm" where
  "loaded i d px s = s\<lparr>pool := (pool s)[nat i := (ent s i)\<lparr>be_data := d\<rparr>], os := px\<rparr>"

definition same_blocks :: "posix \<Rightarrow> posix \<Rightarrow> bool" where
  "same_blocks p p' \<longleftrightarrow> fds_inj p' \<and> (\<forall>f o1 n. fd_block p' f o1 n = fd_block p f o1 n)"

lemma loaded_simps [simp]:
  "pool_size (loaded i d px s) = pool_size s" "buffer_size (loaded i d px s) = buffer_size s"
  "table (loaded i d px s) = table s" "free_list (loaded i d px s) = free_list s"
  "used_list (loaded i d px s) = used_list s" "used_map (loaded i d px s) = used_map s"
  "next_node (loaded i d px s) = next_node s" "os (loaded i d px s) = px"
  "pool (loaded i d px s) = (pool s)[nat i := (ent s i)\<lparr>be_data := d\<rparr>]"
  by (simp_all add: loaded_def)

lemma same_blocks_refl: "fds_inj p \<Longrightarrow> same_blocks p p"
  by (simp add: same_blocks_def)

lemma same_blocks_trans: "same_blocks p q \<Longrightarrow> same_blocks q r \<Longrightarrow> same_blocks p r"
  by (simp add: same_blocks_def)

lemma same_blocks_disk: "same_blocks (os s) (os s') \<Longrightarrow> buffer_size s' = buffer_size s \<Longrightarrow>
    disk_page s' f p = disk_page s f p"
  by (simp add: disk_page_def same_blocks_def Let_def)

lemma loaded_self: "slot_ok s i \<Longrightarrow> loaded i (be_data (ent s i)) px s = s\<lparr>os := px\<rparr>"
proof -
  have "(ent s i)\<lparr>be_data := be_data (ent s i)\<rparr> = ent s i" by (cases "ent s i") simp
  then show ?thesis by (simp add: loaded_def)
qed

lemma px_lseek_same:
  assumes "fds_inj p" "px_lseek p fd off = (r, p')"
  shows "same_blocks p p'"
    and "0 \<le> r \<Longrightarrow> \<exists>i. px_fds p' fd = Some (i, nat off) \<and> 0 \<le> off"
proof -
  have "same_blocks p p' \<and> (0 \<le> r \<longrightarrow> (\<exists>i. px_fds p' fd = Some (i, nat off) \<and> 0 \<le> off))"
  proof (cases "0 \<le> r")
    case True
    then show ?thesis using assms
      by (auto simp: same_blocks_def fds_inj_move fd_block_move elim!: px_lseek_ok)
  next
    case False
    then show ?thesis using px_lseek_fail [OF assms(2)] assms(1) by (simp add: same_blocks_def)
  qed
  then show "same_blocks p p'" "0 \<le> r \<Longrightarrow> \<exists>i. px_fds p' fd = Some (i, nat off) \<and> 0 \<le> off" by blast+
qed

lemma px_read_same:
  assumes "fds_inj p" "px_fds p fd = Some (i, off)" "px_read p fd n = (r, bs, p')"
  shows "same_blocks p p'"
  using px_read_full(5) [OF assms(2,3)] assms(1,2) by (simp add: same_blocks_def fds_inj_move fd_block_move)

lemma read_page_spec:
  assumes "fds_inj (os s)" "0 < buffer_size s" "slot_ok s i" "length (be_data (ent s i)) = nat (buffer_size s)"
  shows "wpE (read_page fd page i)
    (\<lambda>_ s'. \<exists>d px. s' = loaded i d px s \<and> same_blocks (os s) px
       \<and> length d = nat (buffer_size s) \<and> disk_page s fd page = Some d)
    (\<lambda>e s'. e \<in> io_errors \<and> (\<exists>d px. s' = loaded i d px s \<and> same_blocks (os s) px
       \<and> length d = nat (buffer_size s))) s"
proof (cases "page_offset (buffer_size s) page")
  case (Inl e)
  have "s = loaded i (be_data (ent s i)) (os s) s" using loaded_self [OF assms(3)] by simp
  then have "\<exists>d px. s = loaded i d px s \<and> same_blocks (os s) px \<and> length d = nat (buffer_size s)"
    using same_blocks_refl [OF assms(1)] assms(4) by blast
  then show ?thesis using Inl page_offset_Inl [OF Inl]
    by (simp add: read_page_def wp_simps io_errors_def)
next
  case (Inr off)
  note off = page_offset_Inr [OF Inr]
  obtain r p1 where p1: "px_lseek (os s) fd off = (r, p1)" by fastforce
  note k = px_lseek_same [OF assms(1) p1]
  obtain n bs p2 where p2: "px_read p1 fd (nat (buffer_size s)) = (n, bs, p2)"
    by (cases "px_read p1 fd (nat (buffer_size s))") auto
  have lk: "wpE (lseek fd off) Q R s = Q r (s\<lparr>os := p1\<rparr>)" for Q R by (simp add: wpE_def lseek_def p1)
  have rd: "wpE (read_fd fd (nat (buffer_size s))) Q R (s\<lparr>os := p1\<rparr>) = Q (n, bs) (s\<lparr>os := p2\<rparr>)" for Q R
    by (simp add: wpE_def read_fd_def p2)
  show ?thesis
  proof (cases "0 \<le> r")
    case False
    moreover have "\<exists>d px. s\<lparr>os := p1\<rparr> = loaded i d px s \<and> same_blocks (os s) px \<and> length d = nat (buffer_size s)"
      using loaded_self [OF assms(3), of p1] k(1) assms(4) by metis
    ultimately show ?thesis using Inr
      by (simp add: read_page_def wp_simps io_errors_def lk)
  next
    case True
    obtain j where j: "px_fds p1 fd = Some (j, nat off)" "0 \<le> off" using k(2) [OF True] by blast
    have fi: "fds_inj p1" using k(1) by (simp add: same_blocks_def)
    note rf = px_read_full [OF j(1) p2]
    have sb: "same_blocks (os s) p2" using same_blocks_trans [OF k(1) px_read_same [OF fi j(1) p2]] .
    let ?d = "bs @ drop (length bs) (be_data (ent s i))"
    have st: "s\<lparr>os := p2, pool := (pool s)[nat i := (ent s i)\<lparr>be_data := ?d\<rparr>]\<rparr> = loaded i ?d p2 s"
      by (simp add: loaded_def)
    have so: "slot_ok (s\<lparr>os := p2\<rparr>) i" using assms(3) by (simp add: slot_ok_def)
    have "disk_page s fd page = Some ?d" if "n = buffer_size s"
      using rf that assms(2,4) j off k(1) by (auto simp: disk_page_def Let_def same_blocks_def)
    moreover have "length ?d = nat (buffer_size s)" using rf(1) assms(4) by simp
    ultimately have "\<exists>d px. loaded i ?d p2 s = loaded i d px s \<and> same_blocks (os s) px
        \<and> length d = nat (buffer_size s) \<and> (n = buffer_size s \<longrightarrow> disk_page s fd page = Some d)"
      using sb by blast
    then show ?thesis using Inr True rf(2) assms(2)
      by (auto simp: read_page_def wp_simps io_errors_def lk rd wpE_upd_entry [OF so] st)
  qed
qed

section \<open>The invariant of the pool\<close>

definition hashed :: "bufm \<Rightarrow> int \<Rightarrow> int \<Rightarrow> int \<Rightarrow> bool" where
  "hashed s fd page i \<longleftrightarrow> key_ok fd page \<and> ht_find (table s) fd page = Inr i \<and> i \<noteq> -1"

text \<open>
  \<open>bm_inv X\<close>: every used slot outside \<open>X\<close> is registered in the hash table under its own
  page, and the table registers nothing else.  Between the operations \<open>X\<close> is empty; inside
  \<open>get_page\<close> and \<open>allocate_page\<close> it holds the slot that has been taken but not registered.
\<close>

definition bm_inv :: "int set \<Rightarrow> bufm \<Rightarrow> bool" where
  "bm_inv X s \<longleftrightarrow> lists_ok s \<and> ht_inv (table s) \<and> 0 < buffer_size s \<and> fds_inj (os s)
     \<and> (\<forall>e \<in> set (pool s). length (be_data e) = nat (buffer_size s))
     \<and> (\<forall>i \<in> set (slots s) - X. hashed s (be_fd (ent s i)) (be_page (ent s i)) i \<and> 0 \<le> be_pin (ent s i))
     \<and> (\<forall>f p i. hashed s f p i \<longrightarrow> i \<in> set (slots s) - X \<and> be_fd (ent s i) = f \<and> be_page (ent s i) = p)"

abbreviation bm_ok :: "bufm \<Rightarrow> bool" where
  "bm_ok \<equiv> bm_inv {}"

text \<open>What a client sees of a page: the cached copy, otherwise what the file holds.  A page
  that is not dirty is the same in both places, unless it is one of the pages \<open>F\<close>, fresh from
  \<open>allocate_page\<close>, and still pinned.\<close>

definition view :: "bufm \<Rightarrow> int \<Rightarrow> int \<Rightarrow> byte list option" where
  "view s fd page = (case ht_find (table s) fd page of
      Inl _ \<Rightarrow> None
    | Inr i \<Rightarrow> if i = -1 then disk_page s fd page else Some (be_data (ent s i)))"

definition coherent :: "(int \<times> int) set \<Rightarrow> bufm \<Rightarrow> bool" where
  "coherent F s \<longleftrightarrow> (\<forall>f p i. hashed s f p i \<longrightarrow> \<not> be_dirty (ent s i) \<longrightarrow>
     ((f, p) \<in> F \<longrightarrow> be_pin (ent s i) = 0) \<longrightarrow> disk_page s f p = Some (be_data (ent s i)))"

definition keeps_views :: "(int \<times> int) set \<Rightarrow> bufm \<Rightarrow> bufm \<Rightarrow> bool" where
  "keeps_views K s s' \<longleftrightarrow> (\<forall>f p d. key_ok f p \<longrightarrow> (f, p) \<notin> K \<longrightarrow> view s f p = Some d \<longrightarrow> view s' f p = Some d)"

lemma bm_invD:
  assumes "bm_inv X s"
  shows "lists_ok s" "ht_inv (table s)" "0 < buffer_size s" "fds_inj (os s)"
    "e \<in> set (pool s) \<Longrightarrow> length (be_data e) = nat (buffer_size s)"
    "i \<in> set (slots s) \<Longrightarrow> i \<notin> X \<Longrightarrow> hashed s (be_fd (ent s i)) (be_page (ent s i)) i"
    "i \<in> set (slots s) \<Longrightarrow> i \<notin> X \<Longrightarrow> 0 \<le> be_pin (ent s i)"
    "hashed s f p i \<Longrightarrow> i \<in> set (slots s)" "hashed s f p i \<Longrightarrow> i \<notin> X"
    "hashed s f p i \<Longrightarrow> be_fd (ent s i) = f" "hashed s f p i \<Longrightarrow> be_page (ent s i) = p"
  using assms unfolding bm_inv_def by blast+

lemma bm_destroy_ok: "bm_inv X s \<Longrightarrow> bm_destroy s = Inr Map.empty"
  unfolding bm_destroy_def by (rule ht_destroy_ok) (rule bm_invD(2))

lemma bm_inv_data: "bm_inv X s \<Longrightarrow> slot_ok s i \<Longrightarrow> length (be_data (ent s i)) = nat (buffer_size s)"
  by (rule bm_invD(5)) (auto simp: slot_ok_def)

lemma hashed_slot_ok: "bm_inv X s \<Longrightarrow> hashed s f p i \<Longrightarrow> slot_ok s i"
  using bm_invD(1,8) used_slot_ok by blast

lemma hashed_inj: "bm_inv X s \<Longrightarrow> hashed s f p i \<Longrightarrow> hashed s f' p' i \<Longrightarrow> f = f' \<and> p = p'"
  using bm_invD(10,11) by metis

lemma hashed_cases:
  assumes "bm_inv X s" "key_ok f p"
  obtains "ht_find (table s) f p = Inr (-1)" "\<And>i. \<not> hashed s f p i" "view s f p = disk_page s f p"
  | i where "ht_find (table s) f p = Inr i" "hashed s f p i" "slot_ok s i" "i \<noteq> -1"
      "view s f p = Some (be_data (ent s i))"
proof -
  obtain i where i: "ht_find (table s) f p = Inr i" using ht.lookup_total bm_invD(2) assms by blast
  show thesis
  proof (cases "i = -1")
    case True
    then show ?thesis using i by (intro that(1)) (auto simp: hashed_def view_def)
  next
    case False
    then have "hashed s f p i" using i assms(2) by (simp add: hashed_def)
    then show ?thesis using i False hashed_slot_ok [OF assms(1)] by (intro that(2)) (auto simp: view_def)
  qed
qed

lemma view_hashed: "hashed s f p i \<Longrightarrow> view s f p = Some (be_data (ent s i))"
  by (simp add: hashed_def view_def)

lemma view_disk: "bm_inv X s \<Longrightarrow> key_ok f p \<Longrightarrow> \<forall>i. \<not> hashed s f p i \<Longrightarrow> view s f p = disk_page s f p"
  using hashed_cases by metis

lemma hashed_cong: "table s' = table s \<Longrightarrow> hashed s' = hashed s"
  by (simp add: hashed_def fun_eq_iff)

lemma lists_ok_cong:
  "used_list s' = used_list s \<Longrightarrow> used_map s' = used_map s \<Longrightarrow> next_node s' = next_node s \<Longrightarrow>
   free_list s' = free_list s \<Longrightarrow> pool_size s' = pool_size s \<Longrightarrow> length (pool s') = length (pool s) \<Longrightarrow>
   lists_ok s' = lists_ok s"
  unfolding lists_ok_def by metis

lemma bm_inv_os: "bm_inv X s \<Longrightarrow> fds_inj px \<Longrightarrow> bm_inv X (s\<lparr>os := px\<rparr>)"
  using lists_ok_cong [of "s\<lparr>os := px\<rparr>" s] hashed_cong [of "s\<lparr>os := px\<rparr>" s] by (simp add: bm_inv_def)

lemma bm_inv_disk_step: "bm_inv X s \<Longrightarrow> disk_step K s s' \<Longrightarrow> bm_inv X s'"
  unfolding disk_step_def using bm_inv_os by metis

text \<open>Updating an entry in place.\<close>

abbreviation upd :: "int \<Rightarrow> (buffer_entry \<Rightarrow> buffer_entry) \<Rightarrow> bufm \<Rightarrow> bufm" where
  "upd i f s \<equiv> s\<lparr>pool := (pool s)[nat i := f (ent s i)]\<rparr>"

lemma ent_upd: "slot_ok s i \<Longrightarrow> slot_ok s j \<Longrightarrow> ent (upd i f s) j = (if j = i then f (ent s i) else ent s j)"
  by (auto simp: slot_ok_def nth_list_update)

lemma bm_inv_upd:
  assumes "bm_inv X s" "slot_ok s i" "length (be_data (f (ent s i))) = length (be_data (ent s i))"
    and "i \<in> set (slots s) - X \<Longrightarrow> be_fd (f (ent s i)) = be_fd (ent s i) \<and> be_page (f (ent s i)) = be_page (ent s i)
      \<and> 0 \<le> be_pin (f (ent s i))"
  shows "bm_inv X (upd i f s)"
proof -
  let ?s = "upd i f s"
  note iv = bm_invD [OF assms(1)]
  have h: "hashed ?s = hashed s" by (rule hashed_cong) simp
  have l: "lists_ok ?s" using iv(1) lists_ok_cong [of ?s s] by simp
  have e: "be_fd (ent ?s j) = be_fd (ent s j) \<and> be_page (ent ?s j) = be_page (ent s j)
      \<and> 0 \<le> be_pin (ent ?s j)" if "j \<in> set (slots s) - X" for j
    using that assms(4) iv(7) [of j] ent_upd [OF assms(2) used_slot_ok [OF iv(1)], of j f] by auto
  have d: "\<forall>e \<in> set (pool ?s). length (be_data e) = nat (buffer_size s)"
    using iv(5) bm_inv_data [OF assms(1,2)] assms(3) by (auto dest!: set_update_subset_insert [THEN subsetD])
  have a: "hashed s (be_fd (ent ?s j)) (be_page (ent ?s j)) j \<and> 0 \<le> be_pin (ent ?s j)" if "j \<in> set (slots s) - X" for j
    using e [OF that] iv(6) [of j] that by simp
  have b: "j \<in> set (slots s) - X \<and> be_fd (ent ?s j) = g \<and> be_page (ent ?s j) = p" if "hashed s g p j" for g p j
    using e [of j] iv(8-11) [OF that] by simp
  show ?thesis unfolding bm_inv_def h using l iv(2,3,4) d a b by auto
qed

lemma bm_inv_touched: "bm_inv X s \<Longrightarrow> i \<in> set (slots s) \<Longrightarrow> bm_inv X (touched i s)"
  using lists_ok_touched [of s i] hashed_cong [of "touched i s" s] unfolding bm_inv_def
  by (auto simp: insert_absorb)

section \<open>Taking a slot\<close>

text \<open>The victim is the least recently used slot that is not pinned; there is none exactly
  when every used slot is pinned.\<close>

lemma find_victim_spec:
  assumes "\<forall>i \<in> set is. 0 \<le> i \<and> i < int (length es)"
  shows "find_victim es is = Inr None \<and> (\<forall>i \<in> set is. be_pin (es ! nat i) \<noteq> 0)
    \<or> (\<exists>xs i ys. is = xs @ i # ys \<and> find_victim es is = Inr (Some i) \<and> be_pin (es ! nat i) = 0
        \<and> (\<forall>j \<in> set xs. be_pin (es ! nat j) \<noteq> 0))"
  using assms
proof (induction "is")
  case (Cons i "is")
  show ?case
  proof (cases "be_pin (es ! nat i) = 0")
    case True
    then have "i # is = [] @ i # is \<and> find_victim es (i # is) = Inr (Some i)" using Cons.prems by simp
    then show ?thesis using True by (metis empty_iff empty_set)
  next
    case False
    then have f: "find_victim es (i # is) = find_victim es is" using Cons.prems by simp
    have "\<forall>j \<in> set is. 0 \<le> j \<and> j < int (length es)" using Cons.prems by simp
    from Cons.IH [OF this] show ?thesis
    proof (elim disjE exE conjE)
      fix xs k ys assume "is = xs @ k # ys" "find_victim es is = Inr (Some k)" "be_pin (es ! nat k) = 0"
        "\<forall>j \<in> set xs. be_pin (es ! nat j) \<noteq> 0"
      then have "i # is = (i # xs) @ k # ys \<and> find_victim es (i # is) = Inr (Some k)
        \<and> be_pin (es ! nat k) = 0 \<and> (\<forall>j \<in> set (i # xs). be_pin (es ! nat j) \<noteq> 0)"
        using f False by simp
      then show ?thesis by blast
    qed (use f False in auto)
  qed
qed simp

text \<open>\<open>taken i s s'\<close>: slot \<open>i\<close> was taken; nothing is registered under it any more.\<close>

definition taken :: "int \<Rightarrow> bufm \<Rightarrow> bufm \<Rightarrow> bool" where
  "taken i s s' \<longleftrightarrow> bm_inv {i} s' \<and> i \<in> set (slots s') \<and> pool s' = pool s \<and> buffer_size s' = buffer_size s
     \<and> (\<forall>f p j. hashed s' f p j \<longleftrightarrow> hashed s f p j \<and> j \<noteq> i)
     \<and> (\<forall>f p. hashed s f p i \<longrightarrow> be_pin (ent s i) = 0)
     \<and> (\<forall>F. coherent F s \<longrightarrow> coherent F s' \<and> keeps_views {} s s')"

lemma lists_ok_take_free:
  assumes "lists_ok s" "free_list s = i # rest"
  shows "seqE (modE (\<lambda>s. s\<lparr>free_list := rest\<rparr>)) (insert_used i) s = (Inr (), touched i (s\<lparr>free_list := rest\<rparr>))"
    and "lists_ok (touched i (s\<lparr>free_list := rest\<rparr>))" and "i \<notin> set (slots s)"
proof -
  note l = lists_okD [OF assms(1)]
  show ni: "i \<notin> set (slots s)" using l(3) assms(2) by auto
  have un: "used_map s i = None" using l(8) ni by (simp add: map_of_swap_None)
  have f: "filter (\<lambda>p. snd p \<noteq> i) (used_list s) = used_list s" using ni by (auto simp: filter_id_conv)
  show "seqE (modE (\<lambda>s. s\<lparr>free_list := rest\<rparr>)) (insert_used i) s = (Inr (), touched i (s\<lparr>free_list := rest\<rparr>))"
    using un f by (simp add: eff_defs insert_used_def touched_def)
  let ?t = "touched i (s\<lparr>free_list := rest\<rparr>)"
  have "distinct (map fst (used_list ?t))" "fst ` set (used_list ?t) \<subseteq> {..<next_node ?t}"
    using l(6,7) by (auto simp: touched_def f)
  moreover have "used_map ?t = map_of (map prod.swap (used_list ?t))" using l(8) by (simp add: touched_def f)
  moreover have "distinct (i # rest @ slots s)" "insert i (set rest) \<union> set (slots s) = {0..<int (length (pool s))}"
    using l(1-4) assms(2) by auto
  ultimately show "lists_ok ?t" using l(5) ni unfolding lists_ok_def touched_simps
    by (auto simp: removeAll_id)
qed

lemma keeps_views_same:
  assumes "bm_inv X s" "bm_inv Y s'" "hashed s' = hashed s"
    and "\<And>f p i. hashed s f p i \<Longrightarrow> be_data (ent s' i) = be_data (ent s i)"
    and "\<And>f p d. disk_page s f p = Some d \<Longrightarrow> \<forall>i. \<not> hashed s f p i \<Longrightarrow> disk_page s' f p = Some d"
  shows "keeps_views K s s'"
  unfolding keeps_views_def
proof (intro allI impI)
  fix f p d assume k: "key_ok f p" "view s f p = Some d"
  show "view s' f p = Some d"
  proof (cases "\<exists>i. hashed s f p i")
    case True
    then obtain i where i: "hashed s f p i" by blast
    moreover then have "hashed s' f p i" using assms(3) by simp
    ultimately show ?thesis using k(2) assms(4) by (simp add: view_hashed)
  next
    case False
    then have "disk_page s f p = Some d" using view_disk [OF assms(1) k(1)] k(2) by simp
    then show ?thesis using view_disk [OF assms(2) k(1)] False assms(3,5) by simp
  qed
qed

lemma taken_free:
  assumes "bm_ok s" "free_list s = i # rest"
  shows "taken i s (touched i (s\<lparr>free_list := rest\<rparr>))" (is "taken i s ?t")
proof -
  note iv = bm_invD [OF assms(1)]
  note tf = lists_ok_take_free [OF iv(1) assms(2)]
  have h: "hashed ?t = hashed s" by (rule hashed_cong) simp
  have ni: "\<not> hashed s f p i" for f p using iv(8) tf(3) by blast
  have sl: "set (slots ?t) - {i} = set (slots s)" using tf(3) by simp
  have b: "bm_inv {i} ?t" using tf(2) iv unfolding bm_inv_def h sl by auto
  have dp: "disk_page ?t = disk_page s" by (rule disk_page_cong) simp_all
  then have "coherent F s \<Longrightarrow> coherent F ?t" for F by (simp add: coherent_def h)
  moreover have "keeps_views {} s ?t" using keeps_views_same [OF assms(1) b h] dp by simp
  ultimately show ?thesis using b h ni unfolding taken_def by auto
qed

lemma table_remove_hashed:
  assumes "bm_inv X s" "hashed s f p i"
  obtains h where "ht_remove (table s) f p = Inr h" "ht_inv h"
    "\<And>g q j. hashed (s\<lparr>table := h\<rparr>) g q j \<longleftrightarrow> hashed s g q j \<and> j \<noteq> i"
proof -
  have k: "key_ok f p" using assms(2) by (simp add: hashed_def)
  obtain h where h: "ht_remove (table s) f p = Inr h" "ht_inv h"
    "\<And>g q. key_ok g q \<Longrightarrow> ht_find h g q = (if (g, q) = (f, p) then Inr (-1) else ht_find (table s) g q)"
    by (rule ht.del_ex [OF bm_invD(2) [OF assms(1)] k]) blast
  have "hashed (s\<lparr>table := h\<rparr>) g q j \<longleftrightarrow> hashed s g q j \<and> j \<noteq> i" for g q j
  proof (cases "(g, q) = (f, p)")
    case True
    then show ?thesis using h(3) [OF k] assms(2) by (auto simp: hashed_def)
  next
    case False
    then have "\<not> hashed s g q i" using hashed_inj [OF assms] by auto
    then show ?thesis using h(3) [of g q] False by (auto simp: hashed_def)
  qed
  then show thesis using h that by blast
qed

lemma disk_stepD:
  assumes "disk_step K s s'"
  shows "table s' = table s" "pool s' = pool s" "buffer_size s' = buffer_size s" "pool_size s' = pool_size s"
    "free_list s' = free_list s" "used_list s' = used_list s" "used_map s' = used_map s"
    "next_node s' = next_node s" "fds_inj (os s')"
    "(f, p) \<notin> K \<Longrightarrow> disk_page s f p = Some d \<Longrightarrow> disk_page s' f p = Some d"
proof -
  have e: "s' = s\<lparr>os := os s'\<rparr>" using assms by (simp add: disk_step_def)
  show "table s' = table s" "pool s' = pool s" "buffer_size s' = buffer_size s" "pool_size s' = pool_size s"
    "free_list s' = free_list s" "used_list s' = used_list s" "used_map s' = used_map s"
    "next_node s' = next_node s"
    by (subst e, simp)+
qed (use assms in \<open>auto simp: disk_step_def\<close>)

text \<open>Writing back a dirty page changes no view, and leaves the page on disk.\<close>

lemma write_back_keeps:
  assumes "bm_inv X s" "hashed s f p i" "disk_step {(f, p)} s s'"
  shows "bm_inv X s'" "hashed s' = hashed s" "keeps_views K s s'"
    and "coherent F s \<Longrightarrow> be_dirty (ent s i) \<or> disk_page s' f p = Some (be_data (ent s i)) \<Longrightarrow> coherent F s'"
proof -
  note d = disk_stepD [OF assms(3)]
  show b: "bm_inv X s'" using bm_inv_disk_step [OF assms(1,3)] .
  show h: "hashed s' = hashed s" using hashed_cong d(1) .
  have o: "disk_page s' g q = Some e" if "disk_page s g q = Some e" "(g, q) \<noteq> (f, p)" for g q e
    using d(10) [of g q e] that by simp
  then show "keeps_views K s s'"
    using assms(2) d(2) by (intro keeps_views_same [OF assms(1) b h]) auto
  show "coherent F s'" if c: "coherent F s" and w: "be_dirty (ent s i) \<or> disk_page s' f p = Some (be_data (ent s i))"
    unfolding coherent_def h d(2)
  proof (intro allI impI)
    fix g q j assume a: "hashed s g q j" "\<not> be_dirty (ent s j)" "(g, q) \<in> F \<longrightarrow> be_pin (ent s j) = 0"
    show "disk_page s' g q = Some (be_data (ent s j))"
    proof (cases "(g, q) = (f, p)")
      case True
      then have "j = i" using a(1) assms(2) by (simp add: hashed_def)
      then show ?thesis using w a(2) True by auto
    next
      case False
      then show ?thesis using o [OF _ False] c a unfolding coherent_def by blast
    qed
  qed
qed

lemma taken_evict:
  assumes "bm_ok s" "hashed s f p i" "be_pin (ent s i) = 0" "i \<in> set (slots s)"
    and "disk_step {(f, p)} s s'" and "be_dirty (ent s i) \<longrightarrow> disk_page s' f p = Some (be_data (ent s i))"
    and "\<not> be_dirty (ent s i) \<longrightarrow> s' = s"
    and "ht_inv h" "\<And>g q j. hashed (s'\<lparr>table := h\<rparr>) g q j \<longleftrightarrow> hashed s g q j \<and> j \<noteq> i"
  shows "taken i s (s'\<lparr>table := h\<rparr>)" (is "taken i s ?t")
proof -
  note d = disk_stepD [OF assms(5)]
  note wb = write_back_keeps [OF assms(1,2,5)]
  note iv = bm_invD [OF wb(1)]
  have h: "hashed ?t g q j \<longleftrightarrow> hashed s g q j \<and> j \<noteq> i" for g q j
    using assms(9) hashed_cong [of ?t "s'\<lparr>table := h\<rparr>"] by simp
  have l: "lists_ok ?t" using iv(1) lists_ok_cong [of ?t s'] by simp
  have sl: "set (slots ?t) - {i} = set (slots s') - {i}" by simp
  have "\<forall>j \<in> set (slots ?t) - {i}. hashed ?t (be_fd (ent s' j)) (be_page (ent s' j)) j \<and> 0 \<le> be_pin (ent s' j)"
    unfolding sl using iv(6,7) h wb(2) by auto
  moreover have "hashed ?t g q j \<longrightarrow> j \<in> set (slots ?t) - {i} \<and> be_fd (ent s' j) = g \<and> be_page (ent s' j) = q" for g q j
    unfolding sl using iv(8-11) [of g q j] h wb(2) by auto
  ultimately have b: "bm_inv {i} ?t" using l iv(3-5) assms(8) unfolding bm_inv_def by auto
  have dp: "disk_page ?t = disk_page s'" by (rule disk_page_cong) simp_all
  have "coherent F ?t \<and> keeps_views {} s ?t" if c: "coherent F s" for F
  proof
    have c': "coherent F s'" using wb(4) c assms(6,7) by blast
    then show "coherent F ?t" using h wb(2) unfolding coherent_def dp by auto
    have w: "disk_page s' f p = Some (be_data (ent s i))"
      using assms(2,3,6,7) c unfolding coherent_def by blast
    show "keeps_views {} s ?t" unfolding keeps_views_def
    proof (intro allI impI)
      fix g q e assume k: "key_ok g q" "view s g q = Some e"
      show "view ?t g q = Some e"
      proof (cases "\<exists>j. hashed ?t g q j")
        case True
        then obtain j where j: "hashed ?t g q j" "hashed s g q j" using h by blast
        then show ?thesis using k(2) d(2) by (simp add: view_hashed)
      next
        case False
        have v: "view ?t g q = disk_page s' g q" using view_disk [OF b k(1)] False dp by simp
        have "view s' g q = Some e" using wb(3) k unfolding keeps_views_def by blast
        then show ?thesis using v w k False view_hashed [OF assms(2)] h view_disk [OF wb(1) k(1)] wb(2) assms(2)
            hashed_inj [OF assms(1,2)] by metis
      qed
    qed
  qed
  then show ?thesis using b h assms(3,4) d(2,3,6) unfolding taken_def by simp
qed

lemma taken_touched:
  assumes "taken i s s'"
  shows "taken i s (touched i s')"
proof -
  note t = assms [unfolded taken_def]
  have h: "hashed (touched i s') = hashed s'" by (rule hashed_cong) simp
  have d: "disk_page (touched i s') = disk_page s'" by (rule disk_page_cong) simp_all
  have "view (touched i s') = view s'" by (simp add: view_def fun_eq_iff d split: sum.split)
  then have "coherent F (touched i s') = coherent F s'" "keeps_views {} s (touched i s') = keeps_views {} s s'" for F
    by (simp_all add: coherent_def keeps_views_def h d)
  then show ?thesis using t bm_inv_touched [of "{i}" s' i] h unfolding taken_def by simp
qed

lemma wpE_table_do: "f (table s) = Inr h \<Longrightarrow> wpE (table_do f) Q R s = Q () (s\<lparr>table := h\<rparr>)"
  by (simp add: table_do_def wp_simps)

text \<open>\<open>unharmed s s'\<close>: an operation failed and left the cache as it was.\<close>

definition unharmed :: "bufm \<Rightarrow> bufm \<Rightarrow> bool" where
  "unharmed s s' \<longleftrightarrow> bm_ok s' \<and> pool s' = pool s \<and> hashed s' = hashed s
     \<and> (\<forall>F. coherent F s \<longrightarrow> coherent F s' \<and> keeps_views {} s s')"

lemma keeps_views_refl: "keeps_views K s s"
  by (simp add: keeps_views_def)

lemma unharmed_refl: "bm_ok s \<Longrightarrow> unharmed s s"
  by (simp add: unharmed_def keeps_views_refl)

lemma keeps_views_trans: "keeps_views K s s' \<Longrightarrow> keeps_views K s' s'' \<Longrightarrow> keeps_views K s s''"
  unfolding keeps_views_def by blast

lemma keeps_viewsD: "keeps_views K s s' \<Longrightarrow> key_ok f p \<Longrightarrow> (f, p) \<notin> K \<Longrightarrow> view s f p = Some d \<Longrightarrow> view s' f p = Some d"
  unfolding keeps_views_def by blast

lemma keeps_views_insert:
  assumes "keeps_views {(g, q)} s s'" "\<And>d. view s g q = Some d \<Longrightarrow> view s' g q = Some d"
  shows "keeps_views {} s s'"
  unfolding keeps_views_def
proof (intro allI impI)
  fix f p d assume "key_ok f p" "view s f p = Some d"
  then show "view s' f p = Some d"
    using assms(2) keeps_viewsD [OF assms(1), of f p d] by (cases "(f, p) = (g, q)") auto
qed

lemma keeps_views_weaken: "keeps_views {} s s' \<Longrightarrow> keeps_views K s s'"
  unfolding keeps_views_def by blast

lemma evict_alt:
  "evict slot = bindE (entry_at slot) (\<lambda>e.
     seqE (whenE (be_dirty e) (write_page (be_fd e) (be_page e) (be_data e))) (
     seqE (table_do (\<lambda>h. ht_remove h (be_fd e) (be_page e))) (touch slot)))"
  by (simp add: evict_def touch_def)

lemma evict_spec:
  assumes "bm_ok s" "i \<in> set (slots s)" "be_pin (ent s i) = 0"
  shows "wpE (evict i) (\<lambda>_ s'. taken i s s') (\<lambda>e s'. unharmed s s' \<and> e \<in> io_errors) s"
proof -
  note iv = bm_invD [OF assms(1)]
  let ?f = "be_fd (ent s i)" and ?p = "be_page (ent s i)"
  have h: "hashed s ?f ?p i" using iv(6) assms(2) by simp
  note ok = used_slot_ok [OF iv(1) assms(2)]
  have rest: "wpE (seqE (table_do (\<lambda>h. ht_remove h ?f ?p)) (touch i)) (\<lambda>_ s'. taken i s s') R s'"
    if d: "disk_step {(?f, ?p)} s s'" and w: "be_dirty (ent s i) \<longrightarrow> disk_page s' ?f ?p = Some (be_data (ent s i))"
      and c: "\<not> be_dirty (ent s i) \<longrightarrow> s' = s" for s' R
  proof -
    note wb = write_back_keeps [OF assms(1) h d]
    have h': "hashed s' ?f ?p i" using wb(2) h by simp
    obtain t where t: "ht_remove (table s') ?f ?p = Inr t" "ht_inv t"
      "\<And>g q j. hashed (s'\<lparr>table := t\<rparr>) g q j \<longleftrightarrow> hashed s' g q j \<and> j \<noteq> i"
      by (rule table_remove_hashed [OF wb(1) h']) blast
    have "lists_ok (s'\<lparr>table := t\<rparr>)"
      using bm_invD(1) [OF wb(1)] lists_ok_cong [of "s'\<lparr>table := t\<rparr>" s'] by simp
    moreover have "taken i s (s'\<lparr>table := t\<rparr>)"
      using taken_evict [OF assms(1) h assms(3,2) d w c t(2)] t(3) wb(2) by simp
    ultimately show ?thesis by (simp add: wpE_seq wpE_table_do t(1) wpE_touch taken_touched)
  qed
  have "wpE (write_page ?f ?p (be_data (ent s i)))
      (\<lambda>_. wpE (seqE (table_do (\<lambda>h. ht_remove h ?f ?p)) (touch i)) (\<lambda>_ s'. taken i s s') R)
      (\<lambda>e s'. unharmed s s' \<and> e \<in> io_errors) s" if dirty: "be_dirty (ent s i)" for R
    using write_page_spec [OF iv(4,3) bm_inv_data [OF assms(1) ok]]
  proof (rule wpE_mono)
    fix e s' assume d: "disk_step {(?f, ?p)} s s' \<and> e \<in> io_errors"
    then show "unharmed s s' \<and> e \<in> io_errors"
      using write_back_keeps [OF assms(1) h] disk_stepD(2) dirty unfolding unharmed_def by blast
  qed (use rest dirty in blast)
  moreover have "wpE (seqE (table_do (\<lambda>h. ht_remove h ?f ?p)) (touch i)) (\<lambda>_ s'. taken i s s') R s"
    if "\<not> be_dirty (ent s i)" for R using rest [OF disk_step_refl [OF iv(4)]] that by blast
  ultimately show ?thesis
    by (simp add: evict_alt wpE_bind wpE_seq [of "whenE _ _"] wpE_when wpE_entry_at [OF ok])
qed

text \<open>\<open>chosen i s\<close>: the slot \<open>internal_alloc\<close> has to choose, the first free one or else the
  least recently used one that is not pinned.\<close>

definition chosen :: "int \<Rightarrow> bufm \<Rightarrow> bool" where
  "chosen i s \<longleftrightarrow> (case free_list s of
      k # _ \<Rightarrow> i = k
    | [] \<Rightarrow> i \<in> set (slots s) \<and> be_pin (ent s i) = 0
        \<and> (\<forall>j \<in> set (takeWhile (\<lambda>j. j \<noteq> i) (rev (slots s))). be_pin (ent s j) \<noteq> 0))"

definition all_pinned :: "bufm \<Rightarrow> bool" where
  "all_pinned s \<longleftrightarrow> free_list s = [] \<and> (\<forall>i \<in> set (slots s). 0 < be_pin (ent s i))"

lemma internal_alloc_spec:
  assumes "bm_ok s"
  shows "wpE internal_alloc (\<lambda>i s'. taken i s s' \<and> chosen i s)
    (\<lambda>e s'. unharmed s s' \<and> (e \<in> io_errors \<or> e = No_buf \<and> s' = s \<and> all_pinned s)) s"
proof (cases "free_list s")
  case (Cons i rest)
  note iv = bm_invD [OF assms]
  have "wpE (seqE (modE (\<lambda>s. s\<lparr>free_list := rest\<rparr>)) (insert_used i)) Q R s
      = Q () (touched i (s\<lparr>free_list := rest\<rparr>))" for Q R
    by (simp add: wpE_def lists_ok_take_free [OF iv(1) Cons])
  then have "wpE (modE (\<lambda>s. s\<lparr>free_list := rest\<rparr>)) (\<lambda>_. wpE (insert_used i) Q R) R s
      = Q () (touched i (s\<lparr>free_list := rest\<rparr>))" for Q R
    by (simp add: wpE_seq)
  then show ?thesis using taken_free [OF assms Cons] Cons
    by (simp add: internal_alloc_def wpE_bind wpE_get wpE_seq wpE_ret wpE_mod chosen_def)
next
  case Nil
  note iv = bm_invD [OF assms]
  have ok: "\<forall>i \<in> set (rev (slots s)). 0 \<le> i \<and> i < int (length (pool s))"
    using used_slot_ok [OF iv(1)] by (auto simp: slot_ok_def)
  show ?thesis using find_victim_spec [OF ok]
  proof (elim disjE exE conjE)
    assume v: "find_victim (pool s) (rev (slots s)) = Inr None" "\<forall>i \<in> set (rev (slots s)). be_pin (ent s i) \<noteq> 0"
    have "0 < be_pin (ent s i)" if "i \<in> set (slots s)" for i
      using v(2) iv(7) [of i] that by (force simp: le_less)
    then have "all_pinned s" using Nil unfolding all_pinned_def by blast
    then show ?thesis using Nil v unharmed_refl [OF assms]
      by (simp add: internal_alloc_def wp_simps)
  next
    fix xs i ys assume v: "rev (slots s) = xs @ i # ys" "find_victim (pool s) (rev (slots s)) = Inr (Some i)"
      "be_pin (ent s i) = 0" "\<forall>j \<in> set xs. be_pin (ent s j) \<noteq> 0"
    have m: "i \<in> set (slots s)" using v(1) by (metis in_set_conv_decomp set_rev)
    have "i \<notin> set xs" using v(3,4) by blast
    then have "takeWhile (\<lambda>j. j \<noteq> i) (xs @ i # ys) = xs" by (subst takeWhile_append2) auto
    then have "chosen i s" using Nil m v(1,3,4) by (simp add: chosen_def)
    then show ?thesis using evict_spec [OF assms m v(3)] Nil v(2)
      by (auto simp: internal_alloc_def wpE_bind wpE_get wpE_lift wpE_seq wpE_ret elim!: wpE_mono)
  qed
qed

text \<open>Registering a taken slot under its new page.\<close>

definition registered :: "int \<Rightarrow> int \<Rightarrow> int \<Rightarrow> bufm \<Rightarrow> bufm \<Rightarrow> bool" where
  "registered fd page i s s' \<longleftrightarrow> bm_ok s' \<and> os s' = os s \<and> buffer_size s' = buffer_size s
     \<and> slots s' = slots s \<and> free_list s' = free_list s
     \<and> (\<forall>f p j. hashed s' f p j \<longleftrightarrow> hashed s f p j \<or> (f, p, j) = (fd, page, i))
     \<and> (\<forall>j. slot_ok s j \<longrightarrow> ent s' j =
          (if j = i then (ent s i)\<lparr>be_fd := fd, be_page := page, be_pin := 1, be_dirty := False\<rparr> else ent s j))"

lemma register_spec:
  assumes "bm_inv {i} s" "i \<in> set (slots s)" "key_ok fd page" "\<forall>j. \<not> hashed s fd page j"
  shows "wpE (seqE (table_do (\<lambda>h. ht_insert h fd page i)) (init_page_info fd page i))
    (\<lambda>_. registered fd page i s) R s"
proof -
  note iv = bm_invD [OF assms(1)]
  note ok = used_slot_ok [OF iv(1) assms(2)]
  have "i \<noteq> -1" using ok by (simp add: slot_ok_def)
  have ab: "ht_find (table s) fd page = Inr (-1)"
    by (rule hashed_cases [OF assms(1,3)]) (use assms(4) in auto)
  obtain h where h: "ht_insert (table s) fd page i = Inr h" "ht_inv h"
    "\<And>f p. key_ok f p \<Longrightarrow> ht_find h f p = (if (f, p) = (fd, page) then Inr i else ht_find (table s) f p)"
    by (rule ht.ins_ex [OF iv(2) assms(3) \<open>i \<noteq> -1\<close> ab]) blast
  let ?g = "\<lambda>e. e\<lparr>be_fd := fd, be_page := page, be_pin := 1, be_dirty := False\<rparr>"
  let ?t = "(s\<lparr>table := h\<rparr>)\<lparr>pool := (pool s)[nat i := ?g (ent s i)]\<rparr>"
  have hs: "hashed ?t f p j \<longleftrightarrow> hashed s f p j \<or> (f, p, j) = (fd, page, i)" for f p j
    using h(3) [of f p] ab assms(3) \<open>i \<noteq> -1\<close> by (auto simp: hashed_def)
  have e: "ent ?t j = (if j = i then ?g (ent s i) else ent s j)" if "slot_ok s j" for j
    using ent_upd [OF ok that, of ?g] by simp
  have l: "lists_ok ?t" using iv(1) lists_ok_cong [of ?t s] by simp
  have d: "\<forall>e \<in> set (pool ?t). length (be_data e) = nat (buffer_size s)"
    using iv(5) bm_inv_data [OF assms(1) ok] by (auto dest!: set_update_subset_insert [THEN subsetD])
  have a: "hashed ?t (be_fd (ent ?t j)) (be_page (ent ?t j)) j \<and> 0 \<le> be_pin (ent ?t j)" if j: "j \<in> set (slots s)" for j
    unfolding e [OF used_slot_ok [OF iv(1) j]] hs using iv(6,7) [OF j] by auto
  have b: "j \<in> set (slots s) \<and> be_fd (ent ?t j) = g \<and> be_page (ent ?t j) = p" if "hashed ?t g p j" for g p j
    using that e [of j] iv(8-11) [of g p j] ok assms(2) used_slot_ok [OF iv(1), of j] unfolding hs by auto
  have "bm_ok ?t" using l h(2) iv(3,4) d a b unfolding bm_inv_def by auto
  then have "registered fd page i s ?t" using hs e unfolding registered_def by simp
  moreover have "slot_ok (s\<lparr>table := h\<rparr>) i" using ok by (simp add: slot_ok_def)
  ultimately show ?thesis by (simp add: wpE_seq wpE_table_do h(1) init_page_info_def wpE_upd_entry)
qed

section \<open>The operations on pages\<close>

definition pinned_kept :: "(int \<times> int) set \<Rightarrow> bufm \<Rightarrow> bufm \<Rightarrow> bool" where
  "pinned_kept K s s' \<longleftrightarrow> (\<forall>f p j. hashed s f p j \<longrightarrow> 0 < be_pin (ent s j) \<longrightarrow>
     hashed s' f p j \<and> ((f, p) \<notin> K \<longrightarrow> ent s' j = ent s j))"

lemma taken_pinned: "taken i s s' \<Longrightarrow> pinned_kept {} s s'"
  unfolding taken_def pinned_kept_def by auto

lemma unharmed_pinned: "unharmed s s' \<Longrightarrow> pinned_kept {} s s'"
  unfolding unharmed_def pinned_kept_def by auto

lemma pinned_kept_refl: "pinned_kept K s s"
  by (simp add: pinned_kept_def)

lemma wpE_find_page: "ht_find (table s) fd page = Inr i \<Longrightarrow> wpE (find_page fd page) Q R s = Q i s"
  by (simp add: find_page_def wp_simps)

text \<open>Loading the page of a taken slot.\<close>

lemma loaded_inv:
  assumes "bm_inv {i} s" "i \<in> set (slots s)" "same_blocks (os s) px" "length d = nat (buffer_size s)"
  shows "bm_inv {i} (loaded i d px s)" "hashed (loaded i d px s) = hashed s"
    "slot_ok s j \<Longrightarrow> ent (loaded i d px s) j = (if j = i then (ent s i)\<lparr>be_data := d\<rparr> else ent s j)"
    "disk_page (loaded i d px s) = disk_page s"
    "keeps_views {} s (loaded i d px s)" "coherent F s \<Longrightarrow> coherent F (loaded i d px s)"
proof -
  note iv = bm_invD [OF assms(1)]
  note ok = used_slot_ok [OF iv(1) assms(2)]
  let ?t = "loaded i d px s"
  have t: "?t = (upd i (\<lambda>e. e\<lparr>be_data := d\<rparr>) s)\<lparr>os := px\<rparr>" by (simp add: loaded_def)
  have "bm_inv {i} (upd i (\<lambda>e. e\<lparr>be_data := d\<rparr>) s)"
    using bm_inv_data [OF assms(1) ok] assms(4) by (intro bm_inv_upd [OF assms(1) ok]) auto
  then show b: "bm_inv {i} ?t" unfolding t using assms(3) by (intro bm_inv_os) (simp_all add: same_blocks_def)
  show h: "hashed ?t = hashed s" by (rule hashed_cong) simp
  show e: "ent ?t j = (if j = i then (ent s i)\<lparr>be_data := d\<rparr> else ent s j)" if "slot_ok s j" for j
    using ent_upd [OF ok that, of "\<lambda>e. e\<lparr>be_data := d\<rparr>"] by simp
  show dp: "disk_page ?t = disk_page s" using same_blocks_disk [of s ?t] assms(3) by (simp add: fun_eq_iff)
  have eh: "ent ?t j = ent s j" if "hashed s f p j" for f p j
    using e [OF hashed_slot_ok [OF assms(1) that]] iv(9) [OF that] by auto
  then show "keeps_views {} s ?t" using dp by (intro keeps_views_same [OF assms(1) b h]) auto
  show "coherent F ?t" if "coherent F s" using that eh unfolding coherent_def h dp by auto
qed

text \<open>A page that was not cached is now, pinned once, clean, with data \<open>d\<close>.\<close>

definition brought_in :: "int \<Rightarrow> int \<Rightarrow> int \<Rightarrow> bufm \<Rightarrow> bufm \<Rightarrow> bool" where
  "brought_in fd page i s s' \<longleftrightarrow> bm_ok s' \<and> hashed s' fd page i \<and> be_pin (ent s' i) = 1 \<and> \<not> be_dirty (ent s' i)
     \<and> pinned_kept {} s s' \<and> buffer_size s' = buffer_size s
     \<and> (\<forall>f p j. hashed s' f p j \<longrightarrow> hashed s f p j \<or> (f, p) = (fd, page))
     \<and> (\<forall>F. coherent F s \<longrightarrow> keeps_views {(fd, page)} s s')
     \<and> (\<forall>F. coherent F s \<longrightarrow> (fd, page) \<in> F \<or> disk_page s' fd page = Some (be_data (ent s' i)) \<longrightarrow> coherent F s')"

lemma registered_brought_in:
  assumes "taken i s s1" "bm_inv {i} s2" "i \<in> set (slots s2)" "hashed s2 = hashed s1"
    and "\<And>f p j. hashed s1 f p j \<Longrightarrow> ent s2 j = ent s1 j" "disk_page s2 = disk_page s1" "buffer_size s2 = buffer_size s1"
    and "\<forall>j. \<not> hashed s fd page j" "registered fd page i s2 s3"
  shows "brought_in fd page i s s3" and "be_data (ent s3 i) = be_data (ent s2 i)"
proof -
  note tk = assms(1) [unfolded taken_def] and rg = assms(9) [unfolded registered_def]
  note iv = bm_invD [OF assms(2)]
  note ok = used_slot_ok [OF iv(1) assms(3)]
  have h: "hashed s3 f p j \<longleftrightarrow> hashed s1 f p j \<or> (f, p, j) = (fd, page, i)" for f p j
    using rg assms(4) by simp
  have ei: "ent s3 i = (ent s2 i)\<lparr>be_fd := fd, be_page := page, be_pin := 1, be_dirty := False\<rparr>"
    using rg ok by simp
  then show "be_data (ent s3 i) = be_data (ent s2 i)" by simp
  have e: "ent s3 j = ent s j" if "hashed s1 f p j" for f p j
  proof -
    have "hashed s2 f p j" using that assms(4) by simp
    then have "slot_ok s2 j" "j \<noteq> i" using hashed_slot_ok [OF assms(2)] iv(9) by blast+
    then show ?thesis using rg assms(5) [OF that] tk by simp
  qed
  have pk: "pinned_kept {} s s3" using taken_pinned [OF assms(1)] e h unfolding pinned_kept_def by blast
  have dp: "disk_page s3 = disk_page s1" using disk_page_cong [of s3 s2] rg assms(6) by simp
  have "((fd, page) \<in> F \<or> disk_page s3 fd page = Some (be_data (ent s3 i)) \<longrightarrow> coherent F s3)
      \<and> keeps_views {(fd, page)} s s3" if "coherent F s" for F
  proof (intro conjI impI)
    have c: "coherent F s1" "keeps_views {} s s1" using that tk by blast+
    assume fr: "(fd, page) \<in> F \<or> disk_page s3 fd page = Some (be_data (ent s3 i))"
    have "disk_page s1 f p = Some (be_data (ent s3 j))"
      if "hashed s1 f p j" "\<not> be_dirty (ent s3 j)" "(f, p) \<in> F \<longrightarrow> be_pin (ent s3 j) = 0" for f p j
      using c(1) that e [OF that(1)] tk unfolding coherent_def by metis
    then show "coherent F s3" using h ei fr unfolding coherent_def dp by auto
  next
    have c: "coherent F s1" "keeps_views {} s s1" using that tk by blast+
    show "keeps_views {(fd, page)} s s3" unfolding keeps_views_def
    proof (intro allI impI)
      fix f p d assume k: "key_ok f p" "(f, p) \<notin> {(fd, page)}" "view s f p = Some d"
      have v: "view s1 f p = Some d" using c(2) k unfolding keeps_views_def by blast
      show "view s3 f p = Some d"
      proof (cases "\<exists>j. hashed s1 f p j")
        case True
        then obtain j where j: "hashed s1 f p j" "hashed s3 f p j" using h by blast
        then show ?thesis using v e [OF j(1)] tk by (simp add: view_hashed)
      next
        case False
        moreover then have "\<forall>j. \<not> hashed s3 f p j" using h k(2) by auto
        ultimately show ?thesis using view_disk [of "{i}" s1] view_disk [of "{}" s3] tk rg k(1) v dp by simp
      qed
    qed
  qed
  moreover have "hashed s3 f p j \<longrightarrow> hashed s f p j \<or> (f, p) = (fd, page)" for f p j using h tk by simp
  ultimately show "brought_in fd page i s s3" using rg h ei pk tk assms(7) unfolding brought_in_def by simp
qed

definition leaked :: "int \<Rightarrow> bufm \<Rightarrow> bufm \<Rightarrow> bool" where
  "leaked i s s' \<longleftrightarrow> bm_inv {i} s' \<and> i \<in> set (slots s') \<and> pinned_kept {} s s'
     \<and> (\<forall>F. coherent F s \<longrightarrow> coherent F s' \<and> keeps_views {} s s')"

lemma register_wp:
  assumes "bm_inv {i} s" "i \<in> set (slots s)" "key_ok fd page" "\<forall>j. \<not> hashed s fd page j"
    and "\<And>s'. registered fd page i s s' \<Longrightarrow> Q x s'"
  shows "wpE (seqE (table_do (\<lambda>h. ht_insert h fd page i)) (seqE (init_page_info fd page i) (retE x))) Q R s"
proof -
  have "wpE (seqE (table_do (\<lambda>h. ht_insert h fd page i)) (init_page_info fd page i)) (\<lambda>_. Q x) R s"
    using register_spec [OF assms(1-4), of R] by (rule wpE_mono) (use assms(5) in blast)+
  then show ?thesis unfolding seqE_assoc [symmetric] wpE_seq_ret .
qed

lemma get_page_miss:
  assumes "bm_ok s" "key_ok fd page" "ht_find (table s) fd page = Inr (-1)"
  shows "wpE (get_page fd page mp)
    (\<lambda>i s'. chosen i s \<and> brought_in fd page i s s' \<and> (\<forall>F. coherent F s \<longrightarrow> coherent F s' \<and> keeps_views {} s s')
       \<and> (\<forall>F d. coherent F s \<longrightarrow> view s fd page = Some d \<longrightarrow> be_data (ent s' i) = d))
    (\<lambda>e s'. e = No_buf \<and> s' = s \<and> all_pinned s \<or> e \<in> io_errors \<and> (unharmed s s' \<or> (\<exists>i. leaked i s s'))) s"
    (is "wpE _ ?Q ?R s")
proof -
  have nh: "\<forall>j. \<not> hashed s fd page j" using assms(3) by (simp add: hashed_def)
  have step: "wpE (seqE (read_page fd page i) (seqE (table_do (\<lambda>h. ht_insert h fd page i))
      (seqE (init_page_info fd page i) (retE i)))) ?Q ?R s1" if t: "taken i s s1" and ch: "chosen i s" for i s1
  proof -
    have s1: "bm_inv {i} s1" "i \<in> set (slots s1)" using t by (auto simp: taken_def)
    note iv = bm_invD [OF s1(1)]
    note ok = used_slot_ok [OF iv(1) s1(2)]
    have reg: "wpE (seqE (table_do (\<lambda>h. ht_insert h fd page i)) (seqE (init_page_info fd page i) (retE i))) ?Q ?R s2"
      if l: "s2 = loaded i d px s1" "same_blocks (os s1) px" "length d = nat (buffer_size s1)"
        "disk_page s1 fd page = Some d" for s2 d px
    proof -
      note li = loaded_inv [OF s1 l(2,3), folded l(1)]
      have sl: "i \<in> set (slots s2)" using s1(2) l(1) by simp
      have n2: "\<forall>j. \<not> hashed s2 fd page j" using nh t unfolding li(2) taken_def by simp
      have e2: "ent s2 j = ent s1 j" if "hashed s1 f p j" for f p j
        using li(3) hashed_slot_ok [OF s1(1) that] iv(9) [OF that] by auto
      have "?Q i s3" if r: "registered fd page i s2 s3" for s3
      proof -
        have bi: "brought_in fd page i s s3" "be_data (ent s3 i) = be_data (ent s2 i)"
          using registered_brought_in [OF t li(1) sl li(2) _ li(4) _ nh r] e2 l(1) by simp_all
        have d3: "be_data (ent s3 i) = d" using bi(2) li(3) [OF ok] by simp
        have v1: "view s1 fd page = Some d" using view_disk [OF s1(1) assms(2)] n2 li(2) l(4) by simp
        have "hashed s3 fd page i" using bi(1) by (simp add: brought_in_def)
        then have v3: "view s3 fd page = Some d" using d3 by (simp add: view_hashed)
        have kv: "coherent F s \<Longrightarrow> keeps_views {} s s1" for F using t by (simp add: taken_def)
        have "be_data (ent s3 i) = x" if "coherent F s" "view s fd page = Some x" for x F
          using keeps_viewsD [OF kv [OF that(1)] assms(2) _ that(2)] v1 d3 by simp
        moreover have "coherent F s3" if "coherent F s" for F
          using bi(1) that l(4) li(4) d3 disk_page_cong [of s3 s2] r unfolding brought_in_def registered_def by simp
        moreover have "keeps_views {} s s3" if "coherent F s" for F
        proof (rule keeps_views_insert)
          show "keeps_views {(fd, page)} s s3" using bi(1) that unfolding brought_in_def by blast
          show "view s3 fd page = Some x" if "view s fd page = Some x" for x
            using keeps_viewsD [OF kv [OF \<open>coherent F s\<close>] assms(2) _ that] v1 v3 by simp
        qed
        ultimately show ?thesis using ch bi(1) by blast
      qed
      then show ?thesis by (intro register_wp [OF li(1) sl assms(2) n2])
    qed
    have lk: "leaked i s (loaded i d px s1)" if l: "same_blocks (os s1) px" "length d = nat (buffer_size s1)" for d px
    proof -
      note li = loaded_inv [OF s1 l]
      have "hashed (loaded i d px s1) f p j \<and> ent (loaded i d px s1) j = ent s j"
        if p: "hashed s f p j" "0 < be_pin (ent s j)" for f p j
      proof -
        have h1: "hashed s1 f p j" "ent s1 j = ent s j" using taken_pinned [OF t] p by (auto simp: pinned_kept_def)
        show ?thesis using li(2) li(3) [OF hashed_slot_ok [OF s1(1) h1(1)]] iv(9) [OF h1(1)] h1 by auto
      qed
      then have "pinned_kept {} s (loaded i d px s1)" unfolding pinned_kept_def by blast
      moreover have "i \<in> set (slots (loaded i d px s1))" using s1(2) by simp
      moreover have "coherent F (loaded i d px s1) \<and> keeps_views {} s (loaded i d px s1)" if "coherent F s" for F
        using t that li(5,6) keeps_views_trans unfolding taken_def by blast
      ultimately show ?thesis using li(1) unfolding leaked_def by blast
    qed
    show ?thesis unfolding wpE_seq [of "read_page _ _ _"]
      using read_page_spec [OF iv(4,3) ok bm_inv_data [OF s1(1) ok]]
      by (rule wpE_mono) (use reg lk in blast)+
  qed
  show ?thesis unfolding get_page_def wpE_bind wpE_find_page [OF assms(3)] if_P [OF refl]
    using internal_alloc_spec [OF assms(1)] by (rule wpE_mono) (use step in blast)+
qed

text \<open>The operations on a cached page update its entry and move its slot to the front.\<close>

abbreviation bump :: "int \<Rightarrow> (buffer_entry \<Rightarrow> buffer_entry) \<Rightarrow> bufm \<Rightarrow> bufm" where
  "bump i f s \<equiv> touched i (upd i f s)"

lemma upd_props:
  assumes "bm_ok s" "hashed s fd page i"
    and "be_fd (f (ent s i)) = be_fd (ent s i)" "be_page (f (ent s i)) = be_page (ent s i)"
    and "length (be_data (f (ent s i))) = length (be_data (ent s i))" "0 \<le> be_pin (f (ent s i))"
  shows "bm_ok (upd i f s)" "hashed (upd i f s) = hashed s" "disk_page (upd i f s) = disk_page s"
    "slot_ok s j \<Longrightarrow> ent (upd i f s) j = (if j = i then f (ent s i) else ent s j)"
    "view (upd i f s) fd page = Some (be_data (f (ent s i)))"
    "key_ok g q \<Longrightarrow> (g, q) \<noteq> (fd, page) \<Longrightarrow> view (upd i f s) g q = view s g q"
    "coherent F s \<Longrightarrow> (\<not> be_dirty (f (ent s i)) \<Longrightarrow> (fd, page) \<in> F \<longrightarrow> be_pin (f (ent s i)) = 0 \<Longrightarrow>
       disk_page s fd page = Some (be_data (f (ent s i)))) \<Longrightarrow> coherent F (upd i f s)"
proof -
  let ?t = "upd i f s"
  note ok = hashed_slot_ok [OF assms(1,2)]
  show b: "bm_ok ?t" using assms by (intro bm_inv_upd [OF assms(1) ok]) auto
  show h: "hashed ?t = hashed s" by (rule hashed_cong) simp
  show dp: "disk_page ?t = disk_page s" by (rule disk_page_cong) simp_all
  show e: "ent ?t j = (if j = i then f (ent s i) else ent s j)" if "slot_ok s j" for j
    using ent_upd [OF ok that] .
  have hi: "hashed ?t fd page i" using h assms(2) by simp
  show "view ?t fd page = Some (be_data (f (ent s i)))" using view_hashed [OF hi] e [OF ok] by simp
  show "view ?t g q = view s g q" if k: "key_ok g q" "(g, q) \<noteq> (fd, page)" for g q
  proof (cases rule: hashed_cases [OF assms(1) k(1)])
    case 1
    then show ?thesis using view_disk [OF b k(1)] h dp by simp
  next
    case (2 j)
    have "j \<noteq> i" using hashed_inj [OF assms(1,2)] 2(2) k(2) by auto
    then show ?thesis using view_hashed [of ?t g q j] h 2 e [OF 2(3)] by simp
  qed
  show "coherent F ?t" if c: "coherent F s" and n: "\<not> be_dirty (f (ent s i)) \<Longrightarrow> (fd, page) \<in> F \<longrightarrow> be_pin (f (ent s i)) = 0 \<Longrightarrow>
       disk_page s fd page = Some (be_data (f (ent s i)))"
    unfolding coherent_def h dp
  proof (intro allI impI)
    fix g q j assume a: "hashed s g q j" "\<not> be_dirty (ent ?t j)" "(g, q) \<in> F \<longrightarrow> be_pin (ent ?t j) = 0"
    note ej = e [OF hashed_slot_ok [OF assms(1) a(1)]]
    show "disk_page s g q = Some (be_data (ent ?t j))"
    proof (cases "j = i")
      case True
      then show ?thesis using a ej n hashed_inj [OF assms(1,2)] by auto
    next
      case False
      then show ?thesis using a ej c unfolding coherent_def by simp
    qed
  qed
qed

lemma touched_props:
  assumes "bm_ok s" "i \<in> set (slots s)"
  shows "bm_ok (touched i s)" "hashed (touched i s) = hashed s" "disk_page (touched i s) = disk_page s"
    "view (touched i s) = view s" "coherent F (touched i s) = coherent F s"
proof -
  show "bm_ok (touched i s)" using bm_inv_touched [OF assms] .
  show h: "hashed (touched i s) = hashed s" by (rule hashed_cong) simp
  show d: "disk_page (touched i s) = disk_page s" by (rule disk_page_cong) simp_all
  show "view (touched i s) = view s" by (simp add: view_def fun_eq_iff d split: sum.split)
  show "coherent F (touched i s) = coherent F s" by (simp add: coherent_def h d)
qed

definition cached_step :: "int \<Rightarrow> int \<Rightarrow> int \<Rightarrow> (buffer_entry \<Rightarrow> buffer_entry) \<Rightarrow> bufm \<Rightarrow> bufm \<Rightarrow> bool" where
  "cached_step fd page i f s s' \<longleftrightarrow> bm_ok s' \<and> hashed s' = hashed s \<and> free_list s' = free_list s \<and> os s' = os s
     \<and> buffer_size s' = buffer_size s
     \<and> (\<forall>j. slot_ok s j \<longrightarrow> ent s' j = (if j = i then f (ent s i) else ent s j))
     \<and> disk_page s' = disk_page s
     \<and> view s' fd page = Some (be_data (f (ent s i)))
     \<and> (\<forall>g q. key_ok g q \<longrightarrow> (g, q) \<noteq> (fd, page) \<longrightarrow> view s' g q = view s g q)
     \<and> (\<forall>F. coherent F s \<longrightarrow> (\<not> be_dirty (f (ent s i)) \<longrightarrow> ((fd, page) \<in> F \<longrightarrow> be_pin (f (ent s i)) = 0) \<longrightarrow>
          disk_page s fd page = Some (be_data (f (ent s i)))) \<longrightarrow> coherent F s')"

lemma cached_step_upd:
  assumes "bm_ok s" "hashed s fd page i"
    and "be_fd (f (ent s i)) = be_fd (ent s i)" "be_page (f (ent s i)) = be_page (ent s i)"
    and "length (be_data (f (ent s i))) = length (be_data (ent s i))" "0 \<le> be_pin (f (ent s i))"
  shows "cached_step fd page i f s (upd i f s)" "cached_step fd page i f s (bump i f s)"
    "slots (bump i f s) = i # removeAll i (slots s)"
proof -
  note u = upd_props [where f = f, OF assms]
  show c: "cached_step fd page i f s (upd i f s)" unfolding cached_step_def using u by simp
  have "i \<in> set (slots (upd i f s))" using bm_invD(8) [OF assms(1,2)] by simp
  note t = touched_props [OF u(1) this]
  show "cached_step fd page i f s (bump i f s)"
    using c t unfolding cached_step_def by simp
  show "slots (bump i f s) = i # removeAll i (slots s)" by simp
qed

lemma get_page_hit:
  assumes "bm_ok s" "hashed s fd page i"
  shows "wpE (get_page fd page mp)
    (\<lambda>k s'. k = i \<and> cached_step fd page i (\<lambda>e. e\<lparr>be_pin := be_pin e + 1\<rparr>) s s' \<and> slots s' = i # removeAll i (slots s)
       \<and> int_range (be_pin (ent s i) + 1))
    (\<lambda>e s'. s' = s \<and> (e = Page_pinned \<and> \<not> mp \<and> 0 < be_pin (ent s i) \<or> e = Undefined_behaviour \<and> \<not> int_range (be_pin (ent s i) + 1))) s"
proof -
  note ok = hashed_slot_ok [OF assms]
  have fi: "ht_find (table s) fd page = Inr i" "i \<noteq> -1" using assms(2) by (auto simp: hashed_def)
  let ?f = "\<lambda>e. e\<lparr>be_pin := be_pin e + 1\<rparr>"
  have p: "0 \<le> be_pin (ent s i)" using bm_invD(7,8) [OF assms(1)] assms(2) by blast
  have u: "upd i (\<lambda>e. e\<lparr>be_pin := be_pin (ent s i) + 1\<rparr>) s = upd i ?f s" by simp
  have l: "lists_ok (upd i ?f s)" using bm_invD(1) [OF assms(1)] lists_ok_cong [of "upd i ?f s" s] by simp
  have cs: "cached_step fd page i ?f s (bump i ?f s)" "slots (bump i ?f s) = i # removeAll i (slots s)"
    using cached_step_upd [OF assms, of ?f] p by simp_all
  show ?thesis using fi cs
    by (auto simp: get_page_def wpE_bind wpE_seq wpE_find_page wpE_entry_at [OF ok] wpE_guard wpE_lift c_int_def
        wpE_upd_entry [OF ok] wpE_touch [OF l] wpE_ret simp del: touched_simps)
qed

lemma allocate_page_miss:
  assumes "bm_ok s" "key_ok fd page" "ht_find (table s) fd page = Inr (-1)"
  shows "wpE (allocate_page fd page)
    (\<lambda>r s'. \<exists>i. r = Some i \<and> chosen i s \<and> brought_in fd page i s s')
    (\<lambda>e s'. unharmed s s' \<and> (e \<in> io_errors \<or> e = No_buf \<and> s' = s \<and> all_pinned s)) s"
    (is "wpE _ ?Q ?R s")
proof -
  have nh: "\<forall>j. \<not> hashed s fd page j" using assms(3) by (simp add: hashed_def)
  have step: "wpE (seqE (table_do (\<lambda>h. ht_insert h fd page i)) (seqE (init_page_info fd page i) (retE (Some i)))) ?Q ?R s1"
    if t: "taken i s s1" and ch: "chosen i s" for i s1
  proof -
    have s1: "bm_inv {i} s1" "i \<in> set (slots s1)" "\<forall>j. \<not> hashed s1 fd page j"
      using t nh by (auto simp: taken_def)
    show ?thesis
    proof (rule register_wp [OF s1(1,2) assms(2) s1(3)])
      fix s' assume r: "registered fd page i s1 s'"
      show "\<exists>k. Some i = Some k \<and> chosen k s \<and> brought_in fd page k s s'"
        using registered_brought_in(1) [OF t s1(1,2) refl refl refl refl nh r] ch by blast
    qed
  qed
  show ?thesis unfolding allocate_page_def wpE_bind wpE_find_page [OF assms(3)]
    using internal_alloc_spec [OF assms(1)] by (simp add: wpE_bind) (erule wpE_mono, use step in blast, blast)
qed

lemma allocate_page_hit: "hashed s fd page i \<Longrightarrow> allocate_page fd page s = (Inr None, s)"
  by (simp add: allocate_page_def find_page_def eff_defs hashed_def)

lemma mark_dirty_hit:
  assumes "bm_ok s" "hashed s fd page i"
  shows "wpE (mark_dirty fd page)
    (\<lambda>_ s'. cached_step fd page i (\<lambda>e. e\<lparr>be_dirty := True\<rparr>) s s' \<and> slots s' = i # removeAll i (slots s)) R s"
proof -
  note ok = hashed_slot_ok [OF assms]
  have fi: "ht_find (table s) fd page = Inr i" "i \<noteq> -1" using assms(2) by (auto simp: hashed_def)
  let ?f = "\<lambda>e. e\<lparr>be_dirty := True\<rparr>"
  have p: "0 \<le> be_pin (ent s i)" using bm_invD(7,8) [OF assms(1)] assms(2) by blast
  have l: "lists_ok (upd i ?f s)" using bm_invD(1) [OF assms(1)] lists_ok_cong [of "upd i ?f s" s] by simp
  have cs: "cached_step fd page i ?f s (bump i ?f s)" "slots (bump i ?f s) = i # removeAll i (slots s)"
    using cached_step_upd [OF assms, of ?f] p by simp_all
  show ?thesis using fi cs
    by (simp add: mark_dirty_def wpE_bind wpE_seq wpE_find_page wpE_guard wpE_upd_entry [OF ok] wpE_touch [OF l]
        del: touched_simps)
qed

lemma mark_dirty_miss: "ht_find (table s) fd page = Inr (-1) \<Longrightarrow> mark_dirty fd page s = (Inl Page_not_in_buf, s)"
  by (simp add: mark_dirty_def find_page_def eff_defs)

lemma unpin_page_hit:
  assumes "bm_ok s" "hashed s fd page i" "be_pin (ent s i) < 2 ^ 31"
  shows "wpE (unpin_page fd page)
    (\<lambda>_ s'. 0 < be_pin (ent s i) \<and> cached_step fd page i (\<lambda>e. e\<lparr>be_pin := be_pin e - 1\<rparr>) s s')
    (\<lambda>e s'. e = Page_already_unpinned \<and> s' = s \<and> be_pin (ent s i) = 0) s"
proof -
  note ok = hashed_slot_ok [OF assms(1,2)]
  have fi: "ht_find (table s) fd page = Inr i" "i \<noteq> -1" using assms(2) by (auto simp: hashed_def)
  let ?f = "\<lambda>e. e\<lparr>be_pin := be_pin e - 1\<rparr>"
  have p: "0 \<le> be_pin (ent s i)" using bm_invD(7,8) [OF assms(1)] assms(2) by blast
  have l: "lists_ok (upd i f s)" for f using bm_invD(1) [OF assms(1)] lists_ok_cong [of "upd i f s" s] by simp
  have cs: "cached_step fd page i ?f s (bump i ?f s)" "cached_step fd page i ?f s (upd i ?f s)" if "be_pin (ent s i) \<noteq> 0"
    using cached_step_upd [OF assms(1,2), of ?f] p that by simp_all
  have r: "int_range (be_pin (ent s i) - 1)" using p assms(3) by (simp add: int_range_def)
  show ?thesis using fi cs p r
    by (auto simp: unpin_page_def wpE_bind wpE_seq wpE_find_page wpE_entry_at [OF ok] wpE_guard wpE_lift c_int_def
        wpE_upd_entry [OF ok] wpE_when wpE_touch l simp del: touched_simps)
qed

lemma unpin_page_miss: "ht_find (table s) fd page = Inr (-1) \<Longrightarrow> unpin_page fd page s = (Inl Page_not_in_buf, s)"
  by (simp add: unpin_page_def find_page_def eff_defs)

lemma poke_hit:
  assumes "bm_ok s" "hashed s fd page i" "off + length bs \<le> nat (buffer_size s)"
  shows "wpE (poke i off bs)
    (\<lambda>_ s'. cached_step fd page i (\<lambda>e. e\<lparr>be_data := take off (be_data e) @ bs @ drop (off + length bs) (be_data e)\<rparr>) s s') R s"
proof -
  note ok = hashed_slot_ok [OF assms(1,2)]
  let ?f = "\<lambda>e. e\<lparr>be_data := take off (be_data e) @ bs @ drop (off + length bs) (be_data e)\<rparr>"
  have "0 \<le> be_pin (ent s i)" using bm_invD(7,8) [OF assms(1)] assms(2) by blast
  then have "cached_step fd page i ?f s (upd i ?f s)"
    using cached_step_upd(1) [OF assms(1,2), of ?f] bm_inv_data [OF assms(1) ok] assms(3) by simp
  then show ?thesis by (simp add: poke_def wpE_upd_entry [OF ok])
qed

section \<open>Writing pages back\<close>

lemma force_loop_append: "force_loop fd page (xs @ ys) = seqE (force_loop fd page xs) (force_loop fd page ys)"
proof (induction xs)
  case Nil
  then show ?case by (simp add: seqE_def bindE_def retE_def)
next
  case (Cons i xs)
  then show ?case by (auto simp: seqE_def bindE_def fun_eq_iff split: prod.splits sum.splits)
qed

lemma force_loop_skip:
  assumes "\<forall>j \<in> set xs. slot_ok s j \<and> \<not> (be_fd (ent s j) = fd \<and> be_page (ent s j) = page \<and> be_dirty (ent s j))"
    and "page \<noteq> -1"
  shows "force_loop fd page xs s = (Inr (), s)"
  using assms(1)
proof (induction xs)
  case (Cons i xs)
  then have "slot_ok s i" "\<not> (be_fd (ent s i) = fd \<and> (be_page (ent s i) = page \<or> page = -1) \<and> be_dirty (ent s i))"
    using assms(2) by auto
  then show ?case using Cons by (auto simp: entry_at_eq bindE_def seqE_def whenE_def retE_def)
qed (simp add: retE_def)

definition saved :: "int \<Rightarrow> int \<Rightarrow> int \<Rightarrow> bufm \<Rightarrow> bufm \<Rightarrow> bool" where
  "saved fd page i s s' \<longleftrightarrow> bm_ok s' \<and> hashed s' = hashed s \<and> slots s' = slots s
     \<and> (\<forall>j. slot_ok s j \<longrightarrow> ent s' j = (if j = i then (ent s i)\<lparr>be_dirty := False\<rparr> else ent s j))
     \<and> (be_dirty (ent s i) \<longrightarrow> disk_page s' fd page = Some (be_data (ent s i)))
     \<and> (\<forall>F. coherent F s \<longrightarrow> coherent F s' \<and> keeps_views {} s s')"

lemma saved_write:
  assumes "bm_ok s" "hashed s fd page i" "disk_step {(fd, page)} s s1"
    and "disk_page s1 fd page = Some (be_data (ent s i))"
  shows "saved fd page i s (upd i (\<lambda>e. e\<lparr>be_dirty := False\<rparr>) s1)"
proof -
  let ?f = "\<lambda>e. e\<lparr>be_dirty := False\<rparr>"
  note d = disk_stepD [OF assms(3)]
  note wb = write_back_keeps [OF assms(1-3)]
  have h1: "hashed s1 fd page i" using wb(2) assms(2) by simp
  have p: "0 \<le> be_pin (ent s1 i)" using bm_invD(7,8) [OF wb(1)] h1 by blast
  have u: "cached_step fd page i ?f s1 (upd i ?f s1)" using cached_step_upd(1) [OF wb(1) h1, of ?f] p by simp
  have so: "slot_ok s1 j = slot_ok s j" for j using d(2) by (simp add: slot_ok_def)
  have "coherent F (upd i ?f s1) \<and> keeps_views {} s (upd i ?f s1)" if "coherent F s" for F
  proof
    have "coherent F s1" using wb(4) that assms(4) by blast
    then show "coherent F (upd i ?f s1)" using u assms(4) d(2) unfolding cached_step_def by simp
    show "keeps_views {} s (upd i ?f s1)" unfolding keeps_views_def
    proof (intro allI impI)
      fix g q x assume k: "key_ok g q" "view s g q = Some x"
      have v: "view s1 g q = Some x" using wb(3) k unfolding keeps_views_def by blast
      show "view (upd i ?f s1) g q = Some x"
      proof (cases "(g, q) = (fd, page)")
        case True
        then show ?thesis using u v view_hashed [OF h1] unfolding cached_step_def by simp
      next
        case False
        then show ?thesis using u v k(1) unfolding cached_step_def by simp
      qed
    qed
  qed
  then show ?thesis using u so wb(2) d(2,6) assms(4) unfolding saved_def cached_step_def by simp
qed

lemma force_page_absent:
  assumes "bm_ok s" "\<forall>i. \<not> hashed s fd page i" "page \<noteq> -1"
  shows "force_page fd page s = (Inr (), s)"
proof -
  note iv = bm_invD [OF assms(1)]
  have "slot_ok s j \<and> \<not> (be_fd (ent s j) = fd \<and> be_page (ent s j) = page \<and> be_dirty (ent s j))"
    if "j \<in> set (slots s)" for j
    using used_slot_ok [OF iv(1) that] iv(6) [OF that] assms(2) by auto
  then show ?thesis using force_loop_skip [OF _ assms(3)] by (simp add: force_page_def bindE_def getE_def)
qed

lemma force_page_cached:
  assumes "bm_ok s" "hashed s fd page i" "page \<noteq> -1"
  shows "wpE (force_page fd page) (\<lambda>_. saved fd page i s) (\<lambda>e s'. unharmed s s' \<and> e \<in> io_errors) s"
proof -
  note iv = bm_invD [OF assms(1)]
  note ok = hashed_slot_ok [OF assms(1,2)] and used = iv(8) [OF assms(2)]
  let ?m = "\<lambda>s j. be_fd (ent s j) = fd \<and> be_page (ent s j) = page \<and> be_dirty (ent s j)"
  have only: "slot_ok s j \<and> \<not> ?m s j" if "j \<in> set (slots s)" "j \<noteq> i" for j
    using used_slot_ok [OF iv(1) that(1)] iv(6) [OF that(1)] assms(2) that(2) by (auto simp: hashed_def)
  obtain xs ys where sl: "slots s = xs @ i # ys" "i \<notin> set xs" using split_list_first [OF used] by blast
  then have ny: "i \<notin> set ys" using lists_okD(2) [OF iv(1)] by simp
  have mi: "be_fd (ent s i) = fd" "be_page (ent s i) = page" using iv(10,11) [OF assms(2)] by auto
  have sx: "\<forall>j \<in> set xs. slot_ok s j \<and> \<not> ?m s j" using only sl by auto
  have sy: "\<forall>j \<in> set ys. slot_ok s j \<and> \<not> ?m s j" using only sl(1) ny by auto
  note x = force_loop_skip [OF sx assms(3)]
  have loop: "wpE (force_page fd page) Q R s = wpE (force_loop fd page (i # ys)) Q R s" for Q R
    unfolding force_page_def wpE_bind wpE_get sl(1) force_loop_append wpE_seq by (simp add: wpE_def x)
  show ?thesis
  proof (cases "be_dirty (ent s i)")
    case False
    have "(ent s i)\<lparr>be_dirty := False\<rparr> = ent s i" using False by (cases "ent s i") simp
    then have "saved fd page i s s" using assms(1) False keeps_views_refl unfolding saved_def by simp
    moreover have "\<forall>j \<in> set (i # ys). slot_ok s j \<and> \<not> ?m s j" using sy ok False by simp
    then have fl: "force_loop fd page (i # ys) s = (Inr (), s)" by (rule force_loop_skip [OF _ assms(3)])
    ultimately show ?thesis unfolding loop unfolding wpE_def fl by simp
  next
    case True
    have "wpE (seqE (upd_entry i (\<lambda>e. e\<lparr>be_dirty := False\<rparr>)) (force_loop fd page ys)) (\<lambda>_. saved fd page i s) R s1"
      if d: "disk_step {(fd, page)} s s1 \<and> disk_page s1 fd page = Some (be_data (ent s i))" for s1 R
    proof -
      let ?t = "upd i (\<lambda>e. e\<lparr>be_dirty := False\<rparr>) s1"
      have so: "slot_ok s1 i" using ok d disk_stepD(2) [of "{(fd, page)}" s s1] by (simp add: slot_ok_def)
      have sv: "saved fd page i s ?t" using saved_write [OF assms(1,2)] d by blast
      have "slot_ok ?t j \<and> \<not> ?m ?t j" if "j \<in> set ys" for j
        using sy that ny sv so disk_stepD(2) [OF conjunct1 [OF d]] unfolding saved_def by (auto simp: slot_ok_def)
      then have "force_loop fd page ys ?t = (Inr (), ?t)" using force_loop_skip [OF _ assms(3)] by blast
      then show ?thesis using sv by (simp add: wpE_seq wpE_upd_entry [OF so]) (simp add: wpE_def)
    qed
    note post = this
    have un: "unharmed s s1" if "disk_step {(fd, page)} s s1" for s1
      using write_back_keeps [OF assms(1,2) that] disk_stepD(2) [OF that] True unfolding unharmed_def by blast
    have "wpE (seqE (write_page fd page (be_data (ent s i)))
        (seqE (upd_entry i (\<lambda>e. e\<lparr>be_dirty := False\<rparr>)) (force_loop fd page ys)))
        (\<lambda>_. saved fd page i s) (\<lambda>e s'. unharmed s s' \<and> e \<in> io_errors) s"
      unfolding wpE_seq [of "write_page _ _ _"]
      using write_page_spec [OF iv(4,3) bm_inv_data [OF assms(1) ok]]
      by (rule wpE_mono) (use post un in blast)+
    then show ?thesis unfolding loop using True mi
      by (simp add: wpE_bind wpE_entry_at [OF ok] whenE_def seqE_assoc)
  qed
qed

text \<open>\<open>dropped i s s'\<close>: the unpinned page in slot \<open>i\<close> was written back if needed and slot
  \<open>i\<close> is free.\<close>

definition dropped :: "int \<Rightarrow> bufm \<Rightarrow> bufm \<Rightarrow> bool" where
  "dropped i s s' \<longleftrightarrow> bm_ok s' \<and> free_list s' = i # free_list s \<and> slots s' = removeAll i (slots s)
     \<and> length (pool s') = length (pool s)
     \<and> (\<forall>f p j. hashed s' f p j \<longleftrightarrow> hashed s f p j \<and> j \<noteq> i)
     \<and> (\<forall>j. slot_ok s j \<longrightarrow> j \<noteq> i \<longrightarrow> ent s' j = ent s j)
     \<and> (\<forall>F. coherent F s \<longrightarrow> coherent F s' \<and> keeps_views {} s s')"

abbreviation released :: "int \<Rightarrow> bufm \<Rightarrow> bufm" where
  "released i s \<equiv> (without i s)\<lparr>free_list := i # free_list s\<rparr>"

lemma lists_ok_released:
  assumes "lists_ok s" "i \<in> set (slots s)"
  shows "lists_ok (released i s)"
proof -
  note l = lists_okD [OF assms(1)]
  let ?t = "released i s"
  have "distinct (map fst (used_list ?t))" "fst ` set (used_list ?t) \<subseteq> {..<next_node ?t}"
    using l(6,7) by (auto simp: without_def distinct_map_filter)
  moreover have "used_map ?t = map_of (map prod.swap (used_list ?t))"
    using l(8) by (simp add: without_def map_of_swap_filter)
  moreover have "slots ?t = removeAll i (slots s)" using without_simps(8) [of i s] by simp
  moreover have "distinct ((i # free_list s) @ removeAll i (slots s))" using l(1-3) assms(2) by (auto simp: distinct_removeAll)
  moreover have "set (i # free_list s) \<union> set (removeAll i (slots s)) = {0..<int (length (pool s))}"
    using l(4) assms(2) by (simp only: list.set set_removeAll) blast
  ultimately show ?thesis using l(5) unfolding lists_ok_def by simp
qed

lemma dropped_taken:
  assumes "bm_ok s" "taken i s x" "free_list x = free_list s" "slots x = slots s" "length (be_data (f (ent x i))) = length (be_data (ent x i))"
  shows "dropped i s (released i (upd i f x))" (is "dropped i s ?t")
proof -
  note tk = assms(2) [unfolded taken_def]
  then have b: "bm_inv {i} x" and m: "i \<in> set (slots x)" and px: "pool x = pool s" by auto
  note iv = bm_invD [OF b]
  note ok = used_slot_ok [OF iv(1) m]
  let ?u = "upd i f x"
  have bu: "bm_inv {i} ?u" using assms(5) by (intro bm_inv_upd [OF b ok]) auto
  note iu = bm_invD [OF bu]
  have mu: "i \<in> set (slots ?u)" using m by simp
  have h: "hashed ?t = hashed ?u" by (rule hashed_cong) simp
  have hx: "hashed ?t = hashed x" by (rule hashed_cong) simp
  have sl: "slots ?t = removeAll i (slots s)" using without_simps(8) [of i ?u] assms(4) by simp
  have sd: "set (slots ?t) = set (slots ?u) - {i}" using sl assms(4) by simp
  have bt: "bm_ok ?t" using lists_ok_released [OF iu(1) mu] iu unfolding bm_inv_def h sd by auto
  have e: "ent ?t j = ent s j" if "slot_ok s j" "j \<noteq> i" for j
    using ent_upd [OF ok, of j f] that px by (simp add: slot_ok_def)
  have dp: "disk_page ?t = disk_page x" by (rule disk_page_cong) simp_all
  have eh: "ent ?t j = ent x j" if "hashed x g q j" for g q j
    using e [of j] hashed_slot_ok [OF b that] iv(9) [OF that] px by (simp add: slot_ok_def)
  have "coherent F ?t \<and> keeps_views {} s ?t" if "coherent F s" for F
  proof
    have c: "coherent F x" "keeps_views {} s x" using tk that by blast+
    have "disk_page x g q = Some (be_data (ent ?t j))"
      if "hashed x g q j" "\<not> be_dirty (ent ?t j)" "(g, q) \<in> F \<longrightarrow> be_pin (ent ?t j) = 0" for g q j
      using c(1) that eh [OF that(1)] unfolding coherent_def by metis
    then show "coherent F ?t" unfolding coherent_def hx dp by blast
    have "keeps_views {} x ?t" using eh dp by (intro keeps_views_same [OF b bt hx]) auto
    then show "keeps_views {} s ?t" using keeps_views_trans c(2) by blast
  qed
  then show ?thesis using bt sl e tk hx assms(3) unfolding dropped_def by simp
qed

lemma wpE_remove: "lists_ok s \<Longrightarrow> wpE (remove i) Q R s = Q () (without i s)"
  by (simp add: wpE_def remove_eq)

lemma flush_slot_spec:
  assumes "bm_ok s" "i \<in> set (slots s)" "be_fd (ent s i) = fd"
  shows "wpE (flush_slot fd i) (\<lambda>_ s'. dropped i s s')
    (\<lambda>e s'. unharmed s s' \<and> (e \<in> io_errors \<or> e = Page_pinned \<and> 0 < be_pin (ent s i))) s"
proof -
  note iv = bm_invD [OF assms(1)]
  note ok = used_slot_ok [OF iv(1) assms(2)]
  let ?p = "be_page (ent s i)" and ?g = "\<lambda>e. e\<lparr>be_dirty := False\<rparr>"
  have h: "hashed s fd ?p i" using iv(6) assms(2,3) by auto
  define tail where "tail = seqE (table_do (\<lambda>h. ht_remove h fd ?p)) (seqE (remove i) (insert_free i))"
  have rest: "wpE tail (\<lambda>_ s'. dropped i s s') R (upd i f s')"
    if pin: "be_pin (ent s i) = 0" and d: "disk_step {(fd, ?p)} s s'"
      and w: "be_dirty (ent s i) \<longrightarrow> disk_page s' fd ?p = Some (be_data (ent s i))"
      and c: "\<not> be_dirty (ent s i) \<longrightarrow> s' = s"
      and f: "length (be_data (f (ent s' i))) = length (be_data (ent s' i))" for s' R f
  proof -
    note wb = write_back_keeps [OF assms(1) h d]
    have h': "hashed s' fd ?p i" using wb(2) h by simp
    obtain t where t: "ht_remove (table s') fd ?p = Inr t" "ht_inv t"
      "\<And>g q j. hashed (s'\<lparr>table := t\<rparr>) g q j \<longleftrightarrow> hashed s' g q j \<and> j \<noteq> i"
      by (rule table_remove_hashed [OF wb(1) h']) blast
    let ?x = "s'\<lparr>table := t\<rparr>"
    have tk: "taken i s ?x" using taken_evict [OF assms(1) h pin assms(2) d w c t(2)] t(3) wb(2) by simp
    have dr: "dropped i s (released i (upd i f ?x))"
      using dropped_taken [OF assms(1) tk, of f] disk_stepD(5,6) [OF d] f by simp
    have "lists_ok (upd i f ?x)" using bm_invD(1) [OF wb(1)] lists_ok_cong [of "upd i f ?x" s'] by simp
    then have *: "wpE (seqE (remove i) (insert_free i)) (\<lambda>_ s'. dropped i s s') R (upd i f ?x)"
      using dr by (simp add: wpE_seq wpE_remove insert_free_def wpE_mod)
    have eq: "(upd i f s')\<lparr>table := t\<rparr> = upd i f ?x" by simp
    have "ht_remove (table (upd i f s')) fd ?p = Inr t" using t(1) by simp
    from wpE_table_do [where f = "\<lambda>h. ht_remove h fd ?p", OF this]
    show ?thesis unfolding tail_def wpE_seq [of "table_do _"] eq using * by simp
  qed
  have clean: "wpE tail (\<lambda>_ s'. dropped i s s') R s" if "be_pin (ent s i) = 0" "\<not> be_dirty (ent s i)" for R
    using rest [OF that(1) disk_step_refl [OF iv(4)], of "\<lambda>e. e"] that by simp
  have dirty: "wpE (seqE (seqE (write_page fd ?p (be_data (ent s i))) (upd_entry i ?g)) tail) (\<lambda>_ s'. dropped i s s')
      (\<lambda>e s'. unharmed s s' \<and> e \<in> io_errors) s" if "be_pin (ent s i) = 0" "be_dirty (ent s i)"
  proof -
    have up: "wpE (seqE (upd_entry i ?g) tail) (\<lambda>_ s'. dropped i s s') R s'"
      if d: "disk_step {(fd, ?p)} s s' \<and> disk_page s' fd ?p = Some (be_data (ent s i))" for s' R
    proof -
      have so: "slot_ok s' i" using ok disk_stepD(2) [OF conjunct1 [OF d]] by (simp add: slot_ok_def)
      show ?thesis using rest [of s' ?g] \<open>be_pin (ent s i) = 0\<close> \<open>be_dirty (ent s i)\<close> d
        by (simp add: wpE_seq wpE_upd_entry [OF so])
    qed
    have un: "unharmed s s'" if "disk_step {(fd, ?p)} s s'" for s'
      using write_back_keeps [OF assms(1) h that] disk_stepD(2) [OF that] \<open>be_dirty (ent s i)\<close> unfolding unharmed_def by blast
    show ?thesis unfolding seqE_assoc wpE_seq [of "write_page _ _ _"]
      using write_page_spec [OF iv(4,3) bm_inv_data [OF assms(1) ok]] by (rule wpE_mono) (use up un in blast)+
  qed
  have "wpE (seqE (whenE (be_dirty (ent s i)) (seqE (write_page fd ?p (be_data (ent s i))) (upd_entry i ?g))) tail)
      (\<lambda>_ s'. dropped i s s') (\<lambda>e s'. unharmed s s' \<and> (e \<in> io_errors \<or> e = Page_pinned \<and> 0 < be_pin (ent s i))) s"
    if "be_pin (ent s i) = 0"
    using clean [OF that] dirty [OF that]
    by (cases "be_dirty (ent s i)") (simp_all add: whenE_def wpE_seq [of "retE _"] wpE_ret wpE_mono)
  moreover have "be_pin (ent s i) = 0 \<or> 0 < be_pin (ent s i)" using iv(7) [OF assms(2)] by auto
  ultimately show ?thesis using assms(3) unharmed_refl [OF assms(1)]
    by (auto simp: flush_slot_def wpE_bind wpE_entry_at [OF ok] wpE_when wpE_seq [of "guardE _ _"] wpE_guard tail_def)
qed

text \<open>\<open>flushed fd Y s s'\<close>: the pages of \<open>fd\<close> in the slots \<open>Y\<close> have been dropped.\<close>

definition flushed :: "int \<Rightarrow> int set \<Rightarrow> bufm \<Rightarrow> bufm \<Rightarrow> bool" where
  "flushed fd Y s s' \<longleftrightarrow> bm_ok s' \<and> length (pool s') = length (pool s)
     \<and> (\<forall>f p j. hashed s' f p j \<longleftrightarrow> hashed s f p j \<and> \<not> (f = fd \<and> j \<in> Y))
     \<and> (\<forall>j. slot_ok s j \<longrightarrow> j \<notin> Y \<or> be_fd (ent s j) \<noteq> fd \<longrightarrow> ent s' j = ent s j)
     \<and> (\<forall>F. coherent F s \<longrightarrow> coherent F s' \<and> keeps_views {} s s')"

lemma flushed_refl: "bm_ok s \<Longrightarrow> Y \<inter> {i. slot_ok s i \<and> be_fd (ent s i) = fd} = {} \<Longrightarrow> flushed fd Y s s"
  unfolding flushed_def using keeps_views_refl hashed_slot_ok bm_invD(10) by blast

lemma flushed_unharmed: "unharmed s s' \<Longrightarrow> flushed fd {} s s'"
  unfolding unharmed_def flushed_def by simp

lemma flushed_dropped:
  assumes "bm_ok s" "be_fd (ent s i) = fd" "dropped i s s'"
  shows "flushed fd {i} s s'"
proof -
  have "hashed s f p i \<Longrightarrow> f = fd" for f p using bm_invD(10) [OF assms(1)] assms(2) by blast
  then show ?thesis using assms(2,3) unfolding flushed_def dropped_def by auto
qed

lemma flushed_trans:
  assumes "flushed fd Y s s1" "flushed fd Z s1 s2" "Y \<inter> Z = {}"
  shows "flushed fd (Y \<union> Z) s s2"
proof -
  note a = assms(1) [unfolded flushed_def] and b = assms(2) [unfolded flushed_def]
  have "ent s2 j = ent s j" if "slot_ok s j" "j \<notin> Y \<union> Z \<or> be_fd (ent s j) \<noteq> fd" for j
  proof -
    have "ent s1 j = ent s j" "slot_ok s1 j" using a that by (auto simp: slot_ok_def)
    then show ?thesis using b that by auto
  qed
  moreover have "hashed s2 f p j \<longleftrightarrow> hashed s f p j \<and> \<not> (f = fd \<and> j \<in> Y \<union> Z)" for f p j
    using a b by (cases "f = fd") simp_all
  moreover have "\<forall>F. coherent F s \<longrightarrow> coherent F s2 \<and> keeps_views {} s s2"
    using conjunct2 [OF conjunct2 [OF conjunct2 [OF conjunct2 [OF a]]]]
      conjunct2 [OF conjunct2 [OF conjunct2 [OF conjunct2 [OF b]]]] keeps_views_trans [of "{}" s s1 s2] by blast
  ultimately show ?thesis using a b unfolding flushed_def by simp
qed

definition no_stale :: "int \<Rightarrow> bufm \<Rightarrow> bool" where
  "no_stale fd s \<longleftrightarrow> (\<forall>i \<in> set (free_list s). be_fd (ent s i) \<noteq> fd)"

definition fd_pinned :: "int \<Rightarrow> bufm \<Rightarrow> bool" where
  "fd_pinned fd s \<longleftrightarrow> (\<exists>p j. hashed s fd p j \<and> 0 < be_pin (ent s j))"

lemma flush_loop_spec:
  assumes "bm_ok s" "distinct xs" "\<forall>i \<in> set xs. slot_ok s i \<and> (be_fd (ent s i) = fd \<longrightarrow> i \<in> set (slots s))"
  shows "wpE (flush_loop fd xs) (\<lambda>_ s'. flushed fd (set xs) s s')
    (\<lambda>e s'. (\<exists>Y \<subseteq> set xs. flushed fd Y s s') \<and> (e \<in> io_errors \<or> e = Page_pinned \<and> fd_pinned fd s)) s"
  using assms
proof (induction xs arbitrary: s)
  case Nil
  then show ?case using flushed_refl [of s "{}" fd] by (simp add: wpE_ret)
next
  case (Cons i xs)
  let ?R = "\<lambda>e s'. (\<exists>Y \<subseteq> set (i # xs). flushed fd Y s s') \<and> (e \<in> io_errors \<or> e = Page_pinned \<and> fd_pinned fd s)"
  have ok: "slot_ok s i" using Cons.prems(3) by simp
  have rest: "wpE (flush_loop fd xs) (\<lambda>_ s'. flushed fd (set (i # xs)) s s') ?R s1" if f: "flushed fd {i} s s1" for s1
  proof -
    note a = f [unfolded flushed_def]
    have pre: "\<forall>j \<in> set xs. slot_ok s1 j \<and> (be_fd (ent s1 j) = fd \<longrightarrow> j \<in> set (slots s1))"
    proof (intro ballI conjI impI)
      fix j assume j: "j \<in> set xs"
      then have ji: "j \<noteq> i" "slot_ok s j" using Cons.prems(2,3) by auto
      then show "slot_ok s1 j" using a by (simp add: slot_ok_def)
      have e: "ent s1 j = ent s j" using a ji by simp
      assume "be_fd (ent s1 j) = fd"
      then have "hashed s fd (be_page (ent s j)) j" using e bm_invD(6) [OF Cons.prems(1)] Cons.prems(3) j by auto
      then have "hashed s1 fd (be_page (ent s j)) j" using a ji(1) by blast
      then show "j \<in> set (slots s1)" using a bm_invD(8) by blast
    qed
    have b1: "bm_ok s1" "distinct xs" using a Cons.prems(2) by auto
    have pin: "fd_pinned fd s1 \<longrightarrow> fd_pinned fd s" unfolding fd_pinned_def
      using a hashed_slot_ok [OF Cons.prems(1)] by (metis singletonD)
    have tr: "flushed fd (insert i Y) s s2" if "flushed fd Y s1 s2" "Y \<subseteq> set xs" for Y s2
      using flushed_trans [OF f that(1)] that(2) Cons.prems(2) by auto
    show ?thesis using Cons.IH [OF b1 pre]
    proof (rule wpE_mono)
      fix e s2 assume x: "(\<exists>Y \<subseteq> set xs. flushed fd Y s1 s2) \<and> (e \<in> io_errors \<or> e = Page_pinned \<and> fd_pinned fd s1)"
      then obtain Y where "Y \<subseteq> set xs" "flushed fd Y s1 s2" by blast
      then have "flushed fd (insert i Y) s s2" "insert i Y \<subseteq> set (i # xs)" using tr by auto
      then show "?R e s2" using x pin by blast
    qed (use tr in auto)
  qed
  show ?case
  proof (cases "be_fd (ent s i) = fd")
    case True
    then have m: "i \<in> set (slots s)" using Cons.prems(3) by simp
    have "hashed s fd (be_page (ent s i)) i" using bm_invD(6) [OF Cons.prems(1) m] True by auto
    then have pin: "0 < be_pin (ent s i) \<longrightarrow> fd_pinned fd s" unfolding fd_pinned_def by blast
    show ?thesis unfolding flush_loop.simps wpE_seq
      using flush_slot_spec [OF Cons.prems(1) m True]
    proof (rule wpE_mono)
      fix e s' assume "unharmed s s' \<and> (e \<in> io_errors \<or> e = Page_pinned \<and> 0 < be_pin (ent s i))"
      then show "?R e s'" using flushed_unharmed [of s s' fd] pin by blast
    qed (use rest flushed_dropped [OF Cons.prems(1) True] in blast)
  next
    case False
    then have "flush_slot fd i s = (Inr (), s)"
      using ok by (simp add: flush_slot_def entry_at_eq bindE_def whenE_def retE_def)
    then show ?thesis using rest [of s] flushed_refl [OF Cons.prems(1), of "{i}" fd] False
      by (simp add: wpE_seq) (simp add: wpE_def)
  qed
qed

section \<open>Clients of the pool\<close>

text \<open>
  What a client does with the pool, one operation after another.  \<open>Write\<close> is the client's
  own access through the pointer of a page it has pinned, followed by \<open>mark_dirty\<close>.
\<close>

datatype bm_op =
    Get int int bool | Alloc int int | Write int int nat "byte list"
  | Unpin int int | Force int int | Flush int

fun exec_op :: "bm_op \<Rightarrow> unit bm" where
  "exec_op (Get fd page mp) = seqE (get_page fd page mp) (retE ())"
| "exec_op (Alloc fd page) = seqE (allocate_page fd page) (retE ())"
| "exec_op (Write fd page off bs) =
     bindE (find_page fd page) (\<lambda>i. seqE (poke i off bs) (mark_dirty fd page))"
| "exec_op (Unpin fd page) = unpin_page fd page"
| "exec_op (Force fd page) = force_page fd page"
| "exec_op (Flush fd) = flush_pages fd"

text \<open>The abstract store: a map from pages to contents.  The contents of a page just allocated
  are not specified; the second component collects such pages until they are written.\<close>

type_synonym page_store = "int \<times> int \<rightharpoonup> byte list"

definition patch :: "nat \<Rightarrow> byte list \<Rightarrow> byte list \<Rightarrow> byte list" where
  "patch off bs d = take off d @ bs @ drop (off + length bs) d"

definition store_write :: "nat \<Rightarrow> nat \<Rightarrow> byte list \<Rightarrow> byte list option \<Rightarrow> byte list option" where
  "store_write n off bs c = (if off = 0 \<and> length bs = n then Some bs else map_option (patch off bs) c)"

fun store_op :: "nat \<Rightarrow> bm_op \<Rightarrow> page_store \<times> (int \<times> int) set \<Rightarrow> page_store \<times> (int \<times> int) set" where
  "store_op n (Alloc fd page) (A, F) = (A((fd, page) := None), insert (fd, page) F)"
| "store_op n (Write fd page off bs) (A, F) =
     (A((fd, page) := store_write n off bs (A (fd, page))), F - {(fd, page)})"
| "store_op n _ (A, F) = (A, F)"

text \<open>The contract of the client: it writes only pages it has pinned, within the page, writes a
  page it allocated before it unpins it, does not force \<open>ALL_PAGES\<close> and does not flush a file
  whose descriptor still stands in a free slot.\<close>

definition pinned :: "bufm \<Rightarrow> int \<Rightarrow> int \<Rightarrow> bool" where
  "pinned s fd page \<longleftrightarrow> key_ok fd page \<and> (case ht_find (table s) fd page of
      Inr i \<Rightarrow> i \<noteq> -1 \<and> 0 < be_pin (ent s i) \<and> be_pin (ent s i) < 2 ^ 31 | Inl _ \<Rightarrow> False)"

fun op_ok :: "(int \<times> int) set \<Rightarrow> bufm \<Rightarrow> bm_op \<Rightarrow> bool" where
  "op_ok F s (Get fd page mp) \<longleftrightarrow> key_ok fd page"
| "op_ok F s (Alloc fd page) \<longleftrightarrow> key_ok fd page"
| "op_ok F s (Write fd page off bs) \<longleftrightarrow> pinned s fd page \<and> off + length bs \<le> nat (buffer_size s)"
| "op_ok F s (Unpin fd page) \<longleftrightarrow> pinned s fd page \<and> (fd, page) \<notin> F"
| "op_ok F s (Force fd page) \<longleftrightarrow> key_ok fd page \<and> page \<noteq> -1"
| "op_ok F s (Flush fd) \<longleftrightarrow> no_stale fd s"

inductive client_run :: "bufm \<Rightarrow> page_store \<times> (int \<times> int) set \<Rightarrow> bufm \<Rightarrow> page_store \<times> (int \<times> int) set \<Rightarrow> bool"
  for s0 A0 where
  client_start: "client_run s0 A0 s0 A0"
| client_step: "client_run s0 A0 s (A, F) \<Longrightarrow> op_ok F s oper \<Longrightarrow> exec_op oper s = (Inr (), s') \<Longrightarrow>
    client_run s0 A0 s' (store_op (nat (buffer_size s)) oper (A, F))"

definition refines :: "bufm \<Rightarrow> page_store \<Rightarrow> bool" where
  "refines s A \<longleftrightarrow> (\<forall>f p d. key_ok f p \<longrightarrow> A (f, p) = Some d \<longrightarrow> view s f p = Some d)"

lemma refines_keeps: "refines s A \<Longrightarrow> keeps_views {} s s' \<Longrightarrow> refines s' A"
  unfolding refines_def keeps_views_def by blast

lemma coherent_mono: "coherent F s \<Longrightarrow> F \<subseteq> G \<Longrightarrow> coherent G s"
  unfolding coherent_def by blast

lemma coherent_dirty:
  assumes "coherent G s" "\<And>i. hashed s fd page i \<Longrightarrow> be_dirty (ent s i)"
  shows "coherent (G - {(fd, page)}) s"
  using assms unfolding coherent_def by blast

lemma pinned_hashed:
  assumes "pinned s fd page"
  obtains i where "hashed s fd page i" "0 < be_pin (ent s i)" "be_pin (ent s i) < 2 ^ 31"
  using assms by (auto simp: pinned_def hashed_def split: sum.splits)

lemma get_page_sound:
  assumes "bm_ok s" "key_ok fd page" "coherent F s" "get_page fd page mp s = (Inr i, s')"
  shows "bm_ok s'" "coherent F s'" "keeps_views {} s s'" "hashed s' fd page i" "0 < be_pin (ent s' i)"
    "view s fd page = Some d \<Longrightarrow> be_data (ent s' i) = d" "pinned_kept {(fd, page)} s s'"
    "buffer_size s' = buffer_size s" "be_pin (ent s' i) < 2 ^ 31"
    "hashed s' g q j \<Longrightarrow> hashed s g q j \<or> (g, q) = (fd, page)"
proof -
  have "bm_ok s' \<and> coherent F s' \<and> keeps_views {} s s' \<and> hashed s' fd page i \<and> 0 < be_pin (ent s' i)
    \<and> (\<forall>d. view s fd page = Some d \<longrightarrow> be_data (ent s' i) = d) \<and> pinned_kept {(fd, page)} s s'
    \<and> buffer_size s' = buffer_size s \<and> be_pin (ent s' i) < 2 ^ 31
    \<and> (\<forall>g q j. hashed s' g q j \<longrightarrow> hashed s g q j \<or> (g, q) = (fd, page))"
  proof (cases rule: hashed_cases [OF assms(1,2)])
    case 1
    from wpE_retD [OF get_page_miss [OF assms(1,2) 1(1)] assms(4)] assms(3)
    show ?thesis unfolding brought_in_def pinned_kept_def by force
  next
    case (2 k)
    from wpE_retD [OF get_page_hit [OF assms(1) 2(2)] assms(4)]
    have ik: "i = k" and cs: "cached_step fd page i (\<lambda>e. e\<lparr>be_pin := be_pin e + 1\<rparr>) s s'"
      and ir: "int_range (be_pin (ent s i) + 1)" by auto
    note c = cs [unfolded cached_step_def] and h = 2(2) [folded ik] and ok = 2(3) [folded ik]
    have p: "0 \<le> be_pin (ent s i)" using bm_invD(7,8) [OF assms(1)] h by blast
    have ei: "ent s' i = (ent s i)\<lparr>be_pin := be_pin (ent s i) + 1\<rparr>" using c ok by simp
    have "coherent F s'" using c assms(3) h p unfolding coherent_def by auto
    moreover have "keeps_views {} s s'" using c 2(5) ik unfolding keeps_views_def by force
    moreover have "ent s' j = ent s j" if "hashed s f q j" "(f, q) \<noteq> (fd, page)" for f q j
    proof -
      have "j \<noteq> i" using hashed_inj [OF assms(1) h] that by auto
      then show ?thesis using c hashed_slot_ok [OF assms(1) that(1)] by simp
    qed
    ultimately show ?thesis using c h ei p 2(5) ik ir unfolding pinned_kept_def by (auto simp: int_range_def)
  qed
  then show "bm_ok s'" "coherent F s'" "keeps_views {} s s'" "hashed s' fd page i" "0 < be_pin (ent s' i)"
    "view s fd page = Some d \<Longrightarrow> be_data (ent s' i) = d" "pinned_kept {(fd, page)} s s'"
    "buffer_size s' = buffer_size s" "be_pin (ent s' i) < 2 ^ 31"
    "hashed s' g q j \<Longrightarrow> hashed s g q j \<or> (g, q) = (fd, page)" by blast+
qed

lemma allocate_page_sound:
  assumes "bm_ok s" "key_ok fd page" "coherent F s" "refines s A" "allocate_page fd page s = (Inr r, s')"
  shows "bm_ok s' \<and> coherent (insert (fd, page) F) s' \<and> refines s' (A((fd, page) := None))"
proof (cases rule: hashed_cases [OF assms(1,2)])
  case 1
  have c: "coherent (insert (fd, page) F) s" using coherent_mono [OF assms(3)] by blast
  from wpE_retD [OF allocate_page_miss [OF assms(1,2) 1(1)] assms(5)] obtain i
    where b: "brought_in fd page i s s'" by blast
  have kv: "keeps_views {(fd, page)} s s'" using b assms(3) unfolding brought_in_def by blast
  have "view s' f p = Some d" if "key_ok f p" "(A((fd, page) := None)) (f, p) = Some d" for f p d
    using that assms(4) keeps_viewsD [OF kv that(1)] unfolding refines_def by (simp split: if_splits)
  then show ?thesis using b c unfolding brought_in_def refines_def by blast
next
  case (2 i)
  then have "s' = s" using allocate_page_hit [OF 2(2)] assms(5) by simp
  then show ?thesis using assms coherent_mono [OF assms(3), of "insert (fd, page) F"] unfolding refines_def by auto
qed

lemma write_sound:
  assumes "bm_ok s" "coherent F s" "refines s A" "pinned s fd page" "off + length bs \<le> nat (buffer_size s)"
    and "exec_op (Write fd page off bs) s = (Inr (), s')"
  shows "bm_ok s' \<and> coherent (F - {(fd, page)}) s'
    \<and> refines s' (A((fd, page) := store_write (nat (buffer_size s)) off bs (A (fd, page))))"
proof -
  obtain i where i: "hashed s fd page i" "0 < be_pin (ent s i)" by (rule pinned_hashed [OF assms(4)])
  have fp: "ht_find (table s) fd page = Inr i" using i(1) by (simp add: hashed_def)
  let ?f = "\<lambda>e. e\<lparr>be_data := patch off bs (be_data e)\<rparr>" and ?g = "\<lambda>e. e\<lparr>be_dirty := True\<rparr>"
  have "wpE (seqE (poke i off bs) (mark_dirty fd page))
    (\<lambda>_ s'. \<exists>s1. cached_step fd page i ?f s s1 \<and> cached_step fd page i ?g s1 s') (\<lambda>_ _. False) s"
    unfolding wpE_seq using poke_hit [OF assms(1) i(1) assms(5)]
  proof (rule wpE_mono)
    fix s1 assume c: "cached_step fd page i (\<lambda>e. e\<lparr>be_data := take off (be_data e) @ bs @ drop (off + length bs) (be_data e)\<rparr>) s s1"
    then have "bm_ok s1" "hashed s1 fd page i" using i(1) unfolding cached_step_def by auto
    from mark_dirty_hit [OF this] show "wpE (mark_dirty fd page)
        (\<lambda>_ s'. \<exists>s1. cached_step fd page i ?f s s1 \<and> cached_step fd page i ?g s1 s') (\<lambda>_ _. False) s1"
      by (rule wpE_mono) (use c in \<open>auto simp: patch_def\<close>)
  qed
  moreover have "seqE (poke i off bs) (mark_dirty fd page) s = (Inr (), s')"
    using assms(6) fp by (simp add: find_page_def bindE_def liftE_def)
  ultimately obtain s1 where s1: "cached_step fd page i ?f s s1" "cached_step fd page i ?g s1 s'"
    using wpE_retD by fastforce
  note a = s1(1) [unfolded cached_step_def] and b = s1(2) [unfolded cached_step_def]
  have ok: "slot_ok s i" "slot_ok s1 i" using hashed_slot_ok [OF assms(1) i(1)] hashed_slot_ok [of "{}" s1] a i(1) by auto
  have e1: "ent s1 i = ?f (ent s i)" using a ok by simp
  have e2: "ent s' i = ?g (ent s1 i)" using b ok by simp
  let ?G = "insert (fd, page) F"
  have "coherent ?G s" using coherent_mono [OF assms(2)] by blast
  then have "coherent ?G s1" using a i(2) by simp
  then have "coherent ?G s'" using b by simp
  moreover have "be_dirty (ent s' j)" if "hashed s' fd page j" for j
  proof -
    have "hashed s fd page j" using that a b by simp
    then have "j = i" using i(1) by (simp add: hashed_def)
    then show ?thesis using e2 by simp
  qed
  ultimately have "coherent (?G - {(fd, page)}) s'" by (rule coherent_dirty)
  moreover have "refines s' (A((fd, page) := store_write (nat (buffer_size s)) off bs (A (fd, page))))"
    unfolding refines_def
  proof (intro allI impI)
    fix f p d assume k: "key_ok f p" "(A((fd, page) := store_write (nat (buffer_size s)) off bs (A (fd, page)))) (f, p) = Some d"
    show "view s' f p = Some d"
    proof (cases "(f, p) = (fd, page)")
      case True
      have "d = patch off bs (be_data (ent s i))"
      proof (cases "off = 0 \<and> length bs = nat (buffer_size s)")
        case whole: True
        then show ?thesis using k(2) True bm_inv_data [OF assms(1) ok(1)] by (simp add: store_write_def patch_def)
      next
        case False
        then obtain d0 where d0: "A (fd, page) = Some d0" "d = patch off bs d0"
          using k(2) True by (auto simp: store_write_def)
        then have "d0 = be_data (ent s i)" using assms(3) k(1) True view_hashed [OF i(1)] unfolding refines_def by fastforce
        then show ?thesis using d0 by simp
      qed
      then show ?thesis using b e1 True by simp
    next
      case False
      then have "view s f p = Some d" using assms(3) k unfolding refines_def by (auto split: if_splits)
      then show ?thesis using a b k(1) False by simp
    qed
  qed
  ultimately show ?thesis using b by simp
qed

lemma unpin_sound:
  assumes "bm_ok s" "coherent F s" "pinned s fd page" "(fd, page) \<notin> F" "unpin_page fd page s = (Inr (), s')"
  shows "bm_ok s' \<and> coherent F s' \<and> keeps_views {} s s'"
proof -
  obtain i where i: "hashed s fd page i" "0 < be_pin (ent s i)" "be_pin (ent s i) < 2 ^ 31"
    by (rule pinned_hashed [OF assms(3)])
  have c: "cached_step fd page i (\<lambda>e. e\<lparr>be_pin := be_pin e - 1\<rparr>) s s'"
    using wpE_retD [OF unpin_page_hit [OF assms(1) i(1,3)] assms(5)] by blast
  note c' = c [unfolded cached_step_def]
  have "coherent F s'" using c' assms(2,4) i(1) unfolding coherent_def by auto
  moreover have "keeps_views {} s s'" using c' view_hashed [OF i(1)] unfolding keeps_views_def by force
  ultimately show ?thesis using c' by blast
qed

lemma force_sound:
  assumes "bm_ok s" "coherent F s" "key_ok fd page" "page \<noteq> -1" "force_page fd page s = (Inr (), s')"
  shows "bm_ok s' \<and> coherent F s' \<and> keeps_views {} s s'"
proof (cases rule: hashed_cases [OF assms(1,3)])
  case 1
  then have "s' = s" using force_page_absent [OF assms(1) _ assms(4), of fd] assms(5) by simp
  then show ?thesis using assms keeps_views_refl by simp
next
  case (2 i)
  then show ?thesis using wpE_retD [OF force_page_cached [OF assms(1) 2(2) assms(4)] assms(5)] assms(2)
    unfolding saved_def by blast
qed

lemma flush_pages_spec:
  assumes "bm_ok s" "no_stale fd s"
  shows "wpE (flush_pages fd) (\<lambda>_ s'. flushed fd {i. slot_ok s i} s s')
    (\<lambda>e s'. (\<exists>Y. flushed fd Y s s') \<and> (e \<in> io_errors \<or> e = Page_pinned \<and> fd_pinned fd s)) s"
proof -
  note iv = bm_invD [OF assms(1)]
  let ?xs = "map int [0..<nat (pool_size s)]"
  have ps: "pool_size s = int (length (pool s))" using lists_okD(5) [OF iv(1)] .
  have sx: "set ?xs = {i. slot_ok s i}"
    unfolding ps by (force simp: slot_ok_def image_iff intro: rev_image_eqI [of "nat _"])
  have "\<forall>i \<in> set ?xs. slot_ok s i \<and> (be_fd (ent s i) = fd \<longrightarrow> i \<in> set (slots s))"
    unfolding sx using slot_cases [OF iv(1)] assms(2) unfolding no_stale_def by blast
  moreover have "distinct ?xs" by (simp add: distinct_map)
  ultimately have "wpE (flush_loop fd ?xs) (\<lambda>_ s'. flushed fd (set ?xs) s s')
    (\<lambda>e s'. (\<exists>Y \<subseteq> set ?xs. flushed fd Y s s') \<and> (e \<in> io_errors \<or> e = Page_pinned \<and> fd_pinned fd s)) s"
    using flush_loop_spec [OF assms(1)] by blast
  then show ?thesis unfolding flush_pages_def wpE_bind wpE_get sx by (rule wpE_mono) blast+
qed

lemma exec_op_sound:
  assumes "bm_ok s" "coherent F s" "refines s A" "op_ok F s oper" "exec_op oper s = (Inr (), s')"
    and "store_op (nat (buffer_size s)) oper (A, F) = (A', F')"
  shows "bm_ok s' \<and> coherent F' s' \<and> refines s' A'"
proof (cases oper)
  case (Get fd page mp)
  then obtain i where i: "get_page fd page mp s = (Inr i, s')"
    using assms(5) by (auto simp: seqE_def bindE_def retE_def split: prod.splits sum.splits)
  have k: "key_ok fd page" "A' = A" "F' = F" using Get assms(4,6) by auto
  show ?thesis using get_page_sound(1-3) [OF assms(1) k(1) assms(2) i] refines_keeps [OF assms(3)] k(2,3) by blast
next
  case (Alloc fd page)
  then obtain r where r: "allocate_page fd page s = (Inr r, s')"
    using assms(5) by (auto simp: seqE_def bindE_def retE_def split: prod.splits sum.splits)
  then show ?thesis using allocate_page_sound [OF assms(1) _ assms(2,3) r] Alloc assms(4,6) by auto
next
  case (Write fd page off bs)
  then show ?thesis using write_sound [OF assms(1-3), of fd page off bs s'] assms(4-6) by auto
next
  case (Unpin fd page)
  then show ?thesis using unpin_sound [OF assms(1,2), of fd page s'] assms(4-6) refines_keeps [OF assms(3)] by auto
next
  case (Force fd page)
  then show ?thesis using force_sound [OF assms(1,2), of fd page s'] assms(4-6) refines_keeps [OF assms(3)] by auto
next
  case (Flush fd)
  then have "flushed fd {i. slot_ok s i} s s'"
    using wpE_retD [OF flush_pages_spec [OF assms(1)], of fd "()" s'] assms(4,5) by simp
  then have "bm_ok s' \<and> coherent F s' \<and> keeps_views {} s s'" using assms(2) unfolding flushed_def by blast
  then show ?thesis using refines_keeps [OF assms(3)] Flush assms(6) by auto
qed

section \<open>The interface to the file layer\<close>

text \<open>
  What \<open>file_handle\<close> relies on.  \<open>vw\<close> is the contents of a page, \<open>held s f p i\<close> says that
  the page is pinned and \<open>i\<close> is the pointer to it, \<open>inv F\<close> is the invariant with the pages
  \<open>F\<close> written or allocated but not yet marked dirty.
\<close>

locale page_cache =
  fixes inv :: "(int \<times> int) set \<Rightarrow> 's \<Rightarrow> bool"
    and psize :: "'s \<Rightarrow> nat"
    and vw :: "'s \<Rightarrow> int \<Rightarrow> int \<Rightarrow> byte list option"
    and held :: "'s \<Rightarrow> int \<Rightarrow> int \<Rightarrow> 'p \<Rightarrow> bool"
    and bytes :: "'s \<Rightarrow> 'p \<Rightarrow> byte list"
    and in_pool :: "'s \<Rightarrow> int \<Rightarrow> int \<Rightarrow> bool"
    and ok :: "int \<Rightarrow> int \<Rightarrow> bool"
    and get :: "int \<Rightarrow> int \<Rightarrow> bool \<Rightarrow> ('s, 'p) eff"
    and new :: "int \<Rightarrow> int \<Rightarrow> ('s, 'p option) eff"
    and put :: "'p \<Rightarrow> nat \<Rightarrow> byte list \<Rightarrow> ('s, unit) eff"
    and dirty :: "int \<Rightarrow> int \<Rightarrow> ('s, unit) eff"
    and unpin :: "int \<Rightarrow> int \<Rightarrow> ('s, unit) eff"
  assumes vw_length: "inv F s \<Longrightarrow> ok f p \<Longrightarrow> vw s f p = Some d \<Longrightarrow> length d = psize s"
    and held_vw: "inv F s \<Longrightarrow> held s f p i \<Longrightarrow> vw s f p = Some (bytes s i) \<and> ok f p"
    and get_law: "inv F s \<Longrightarrow> ok f p \<Longrightarrow> get f p mp s = (Inr i, s') \<Longrightarrow>
      inv F s' \<and> psize s' = psize s \<and> held s' f p i
      \<and> (\<forall>g q d. ok g q \<longrightarrow> vw s g q = Some d \<longrightarrow> vw s' g q = Some d)
      \<and> (\<forall>g q. in_pool s' g q \<longrightarrow> in_pool s g q \<or> (g, q) = (f, p))"
    and new_law: "inv F s \<Longrightarrow> ok f p \<Longrightarrow> \<not> in_pool s f p \<Longrightarrow> new f p s = (Inr r, s') \<Longrightarrow>
      \<exists>i. r = Some i \<and> inv (insert (f, p) F) s' \<and> psize s' = psize s \<and> held s' f p i
      \<and> (\<forall>g q d. ok g q \<longrightarrow> (g, q) \<noteq> (f, p) \<longrightarrow> vw s g q = Some d \<longrightarrow> vw s' g q = Some d)
      \<and> (\<forall>g q. in_pool s' g q \<longrightarrow> in_pool s g q \<or> (g, q) = (f, p))"
    and put_law: "inv F s \<Longrightarrow> held s f p i \<Longrightarrow> off + length bs \<le> psize s \<Longrightarrow>
      \<exists>s'. put i off bs s = (Inr (), s') \<and> inv (insert (f, p) F) s' \<and> psize s' = psize s \<and> held s' f p i
      \<and> vw s' f p = Some (patch off bs (bytes s i)) \<and> (\<forall>g q. ok g q \<longrightarrow> (g, q) \<noteq> (f, p) \<longrightarrow> vw s' g q = vw s g q)
      \<and> in_pool s' = in_pool s"
    and dirty_law: "inv F s \<Longrightarrow> held s f p i \<Longrightarrow>
      \<exists>s'. dirty f p s = (Inr (), s') \<and> inv (F - {(f, p)}) s' \<and> psize s' = psize s \<and> held s' f p i
      \<and> (\<forall>g q. ok g q \<longrightarrow> vw s' g q = vw s g q) \<and> in_pool s' = in_pool s"
    and unpin_law: "inv F s \<Longrightarrow> held s f p i \<Longrightarrow> (f, p) \<notin> F \<Longrightarrow>
      \<exists>s'. unpin f p s = (Inr (), s') \<and> inv F s' \<and> psize s' = psize s
      \<and> (\<forall>g q. ok g q \<longrightarrow> vw s' g q = vw s g q) \<and> in_pool s' = in_pool s"
begin

text \<open>Writing a held page and marking it dirty updates exactly that page.\<close>

lemma put_dirty:
  assumes "inv F s" "held s f p i" "off + length bs \<le> psize s"
  obtains s' where "seqE (put i off bs) (dirty f p) s = (Inr (), s')" "inv (F - {(f, p)}) s'"
    "psize s' = psize s" "held s' f p i" "in_pool s' = in_pool s"
    "\<And>g q. ok g q \<Longrightarrow> vw s' g q = (if (g, q) = (f, p) then Some (patch off bs (bytes s i)) else vw s g q)"
proof -
  obtain s1 where s1: "put i off bs s = (Inr (), s1)" "inv (insert (f, p) F) s1" "psize s1 = psize s" "held s1 f p i"
      "vw s1 f p = Some (patch off bs (bytes s i))" "\<And>g q. ok g q \<Longrightarrow> (g, q) \<noteq> (f, p) \<Longrightarrow> vw s1 g q = vw s g q"
      "in_pool s1 = in_pool s"
    using put_law [OF assms] by blast
  obtain s2 where s2: "dirty f p s1 = (Inr (), s2)" "inv (insert (f, p) F - {(f, p)}) s2" "psize s2 = psize s1"
      "held s2 f p i" "\<And>g q. ok g q \<Longrightarrow> vw s2 g q = vw s1 g q" "in_pool s2 = in_pool s1"
    using dirty_law [OF s1(2,4)] by blast
  have "inv (F - {(f, p)}) s2" using s2(2) by simp
  moreover have "seqE (put i off bs) (dirty f p) s = (Inr (), s2)" using s1(1) s2(1) by (simp add: seqE_def bindE_def)
  moreover have "vw s2 g q = (if (g, q) = (f, p) then Some (patch off bs (bytes s i)) else vw s g q)" if "ok g q" for g q
    using s2(5) [OF that] s1(5) s1(6) [OF that] by auto
  ultimately show thesis using that [of s2] s1 s2 by simp
qed

text \<open>A page that was got and is let go again leaves every page as it was.\<close>

lemma get_unpin:
  assumes "inv F s" "ok f p" "(f, p) \<notin> F" "get f p mp s = (Inr i, s')"
  obtains s2 where "unpin f p s' = (Inr (), s2)" "inv F s2" "psize s2 = psize s"
    "\<And>g q d. ok g q \<Longrightarrow> vw s g q = Some d \<Longrightarrow> vw s2 g q = Some d"
    "\<And>g q. in_pool s2 g q \<Longrightarrow> in_pool s g q \<or> (g, q) = (f, p)"
proof -
  note g = get_law [OF assms(1,2,4)]
  then obtain s2 where s2: "unpin f p s' = (Inr (), s2)" "inv F s2" "psize s2 = psize s'"
      "\<And>g q. ok g q \<Longrightarrow> vw s2 g q = vw s' g q" "in_pool s2 = in_pool s'"
    using unpin_law [of F s' f p i] assms(3) by blast
  show thesis using that [OF s2(1,2)] s2 g by simp
qed

end

definition bm_good :: "(int \<times> int) set \<Rightarrow> bufm \<Rightarrow> bool" where
  "bm_good F s \<longleftrightarrow> bm_ok s \<and> coherent F s"

definition bm_psize :: "bufm \<Rightarrow> nat" where
  "bm_psize s = nat (buffer_size s)"

definition bm_held :: "bufm \<Rightarrow> int \<Rightarrow> int \<Rightarrow> int \<Rightarrow> bool" where
  "bm_held s fd page i \<longleftrightarrow> hashed s fd page i \<and> 0 < be_pin (ent s i) \<and> be_pin (ent s i) < 2 ^ 31"

definition bm_in_pool :: "bufm \<Rightarrow> int \<Rightarrow> int \<Rightarrow> bool" where
  "bm_in_pool s fd page \<longleftrightarrow> (\<exists>i. hashed s fd page i)"

lemma in_pool_cong: "hashed s' = hashed s \<Longrightarrow> bm_in_pool s' = bm_in_pool s"
  by (intro ext) (simp add: bm_in_pool_def)

lemma view_length: "bm_ok s \<Longrightarrow> key_ok f p \<Longrightarrow> view s f p = Some d \<Longrightarrow> length d = nat (buffer_size s)"
proof -
  assume a: "bm_ok s" "key_ok f p" "view s f p = Some d"
  show ?thesis
  proof (cases rule: hashed_cases [OF a(1,2)])
    case 1
    then show ?thesis using a(3)
      by (auto simp: disk_page_def Let_def fd_block_def block_def split: if_splits option.splits)
  next
    case (2 i)
    then show ?thesis using a(3) bm_inv_data [OF a(1)] by auto
  qed
qed

lemma cached_step_held:
  assumes "cached_step f p i g s s'" "bm_ok s" "bm_held s f p i" "be_pin (g (ent s i)) = be_pin (ent s i)"
  shows "bm_held s' f p i"
proof -
  have h: "hashed s f p i" using assms(3) by (simp add: bm_held_def)
  then show ?thesis using assms hashed_slot_ok [OF assms(2) h] unfolding cached_step_def bm_held_def by simp
qed

interpretation bmc: page_cache bm_good bm_psize view bm_held "\<lambda>s i. be_data (ent s i)" bm_in_pool key_ok
  get_page allocate_page poke mark_dirty unpin_page
proof
  fix F s and f p :: int and d
  assume "bm_good F s" "key_ok f p" "view s f p = Some d"
  then show "length d = bm_psize s" using view_length by (simp add: bm_good_def bm_psize_def)
next
  fix F s and f p i :: int
  assume "bm_good F s" "bm_held s f p i"
  then show "view s f p = Some (be_data (ent s i)) \<and> key_ok f p"
    by (simp add: bm_held_def view_hashed) (simp add: hashed_def)
next
  fix F s and f p :: int and mp i s'
  assume "bm_good F s" "key_ok f p" "get_page f p mp s = (Inr i, s')"
  then have g: "bm_ok s" "key_ok f p" "coherent F s" "get_page f p mp s = (Inr i, s')" by (auto simp: bm_good_def)
  show "bm_good F s' \<and> bm_psize s' = bm_psize s \<and> bm_held s' f p i
      \<and> (\<forall>g q d. key_ok g q \<longrightarrow> view s g q = Some d \<longrightarrow> view s' g q = Some d)
      \<and> (\<forall>g q. bm_in_pool s' g q \<longrightarrow> bm_in_pool s g q \<or> (g, q) = (f, p))"
    using get_page_sound(1,2,4,5,8-10) [OF g] keeps_viewsD [OF get_page_sound(3) [OF g]]
    unfolding bm_good_def bm_psize_def bm_held_def bm_in_pool_def by (intro conjI allI impI; (simp; fail | blast))
next
  fix F s and f p :: int and r s'
  assume a: "bm_good F s" "key_ok f p" "\<not> bm_in_pool s f p" "allocate_page f p s = (Inr r, s')"
  then have "ht_find (table s) f p = Inr (-1)"
    using hashed_cases [of "{}" s f p] unfolding bm_good_def bm_in_pool_def by metis
  from wpE_retD [OF allocate_page_miss [OF _ a(2) this] a(4)] a(1)
  obtain i where i: "r = Some i" "brought_in f p i s s'" by (auto simp: bm_good_def)
  have "coherent (insert (f, p) F) s" using a(1) coherent_mono unfolding bm_good_def by blast
  then have c: "coherent (insert (f, p) F) s'" "keeps_views {(f, p)} s s'"
    using i(2) unfolding brought_in_def by blast+
  have b: "bm_ok s'" "bm_held s' f p i" "bm_psize s' = bm_psize s"
    "bm_in_pool s' g q \<longrightarrow> bm_in_pool s g q \<or> (g, q) = (f, p)" for g q
    using i(2) unfolding brought_in_def bm_held_def bm_psize_def bm_in_pool_def by (simp; blast)+
  have v: "view s' g q = Some d" if "key_ok g q" "(g, q) \<noteq> (f, p)" "view s g q = Some d" for g q d
    using keeps_viewsD [OF c(2) that(1) _ that(3)] that(2) by simp
  show "\<exists>i. r = Some i \<and> bm_good (insert (f, p) F) s' \<and> bm_psize s' = bm_psize s \<and> bm_held s' f p i
      \<and> (\<forall>g q d. key_ok g q \<longrightarrow> (g, q) \<noteq> (f, p) \<longrightarrow> view s g q = Some d \<longrightarrow> view s' g q = Some d)
      \<and> (\<forall>g q. bm_in_pool s' g q \<longrightarrow> bm_in_pool s g q \<or> (g, q) = (f, p))"
    unfolding bm_good_def using i(1) b c(1) v by blast
next
  fix F s and f p i :: int and off :: nat and bs :: "byte list"
  assume a: "bm_good F s" "bm_held s f p i" "off + length bs \<le> bm_psize s"
  let ?g = "\<lambda>e. e\<lparr>be_data := take off (be_data e) @ bs @ drop (off + length bs) (be_data e)\<rparr>"
  have h: "bm_ok s" "hashed s f p i" "coherent (insert (f, p) F) s"
    using a coherent_mono unfolding bm_good_def bm_held_def by blast+
  from poke_hit [OF h(1,2), of off bs "\<lambda>_ _. False"] a(3) obtain s' where
    s': "poke i off bs s = (Inr (), s')" "cached_step f p i ?g s s'"
    unfolding wpE_def bm_psize_def by (auto split: prod.splits sum.splits)
  note c = s'(2) [unfolded cached_step_def]
  have "coherent (insert (f, p) F) s'" using c h(3) a(2) by (simp add: bm_held_def)
  then show "\<exists>s'. poke i off bs s = (Inr (), s') \<and> bm_good (insert (f, p) F) s' \<and> bm_psize s' = bm_psize s \<and> bm_held s' f p i
      \<and> view s' f p = Some (patch off bs (be_data (ent s i)))
      \<and> (\<forall>g q. key_ok g q \<longrightarrow> (g, q) \<noteq> (f, p) \<longrightarrow> view s' g q = view s g q) \<and> bm_in_pool s' = bm_in_pool s"
    using s' c cached_step_held [OF s'(2) h(1) a(2)]
      in_pool_cong [of s' s] unfolding bm_good_def bm_psize_def patch_def by simp
next
  fix F s and f p i :: int
  assume a: "bm_good F s" "bm_held s f p i"
  have h: "bm_ok s" "hashed s f p i" "coherent F s" using a unfolding bm_good_def bm_held_def by blast+
  from mark_dirty_hit [OF h(1,2), of "\<lambda>_ _. False"] obtain s' where
    s': "mark_dirty f p s = (Inr (), s')" "cached_step f p i (\<lambda>e. e\<lparr>be_dirty := True\<rparr>) s s'"
    unfolding wpE_def by (auto split: prod.splits sum.splits)
  note c = s'(2) [unfolded cached_step_def]
  have "be_dirty (ent s' j)" if "hashed s' f p j" for j
    using that c h(2) hashed_slot_ok [OF h(1,2)] by (simp add: hashed_def)
  then have "coherent (F - {(f, p)}) s'" using c h(3) by (intro coherent_dirty) auto
  moreover have "view s' g q = view s g q" if "key_ok g q" for g q
    using c that view_hashed [OF h(2)] by (cases "(g, q) = (f, p)") auto
  ultimately show "\<exists>s'. mark_dirty f p s = (Inr (), s') \<and> bm_good (F - {(f, p)}) s' \<and> bm_psize s' = bm_psize s \<and> bm_held s' f p i
      \<and> (\<forall>g q. key_ok g q \<longrightarrow> view s' g q = view s g q) \<and> bm_in_pool s' = bm_in_pool s"
    using s' c cached_step_held [OF s'(2) h(1) a(2)] in_pool_cong [of s' s] unfolding bm_good_def bm_psize_def by simp
next
  fix F s and f p i :: int
  assume a: "bm_good F s" "bm_held s f p i" "(f, p) \<notin> F"
  have h: "bm_ok s" "hashed s f p i" "coherent F s" "0 < be_pin (ent s i)" "be_pin (ent s i) < 2 ^ 31"
    using a unfolding bm_good_def bm_held_def by blast+
  from unpin_page_hit [OF h(1,2,5)] h(4) obtain s' where
    s': "unpin_page f p s = (Inr (), s')" "cached_step f p i (\<lambda>e. e\<lparr>be_pin := be_pin e - 1\<rparr>) s s'"
    unfolding wpE_def by (auto split: prod.splits sum.splits)
  note c = s'(2) [unfolded cached_step_def]
  have "coherent F s'" using c h(2,3) a(3) unfolding coherent_def by auto
  moreover have "view s' g q = view s g q" if "key_ok g q" for g q
    using c that view_hashed [OF h(2)] by (cases "(g, q) = (f, p)") auto
  ultimately show "\<exists>s'. unpin_page f p s = (Inr (), s') \<and> bm_good F s' \<and> bm_psize s' = bm_psize s
      \<and> (\<forall>g q. key_ok g q \<longrightarrow> view s' g q = view s g q) \<and> bm_in_pool s' = bm_in_pool s"
    using s' c in_pool_cong [of s' s] unfolding bm_good_def bm_psize_def by simp
qed

section \<open>A fresh pool\<close>

lemma mk_bufm_ok:
  assumes "mk_bufm psize bsize junk px = Inr s" "fds_inj px" "0 < bsize"
  shows "bm_ok s" "coherent F s" "\<not> hashed s f p i" "no_stale fd s \<longleftrightarrow> (\<forall>k < nat psize. be_fd (junk k) \<noteq> fd)"
    "os s = px" "buffer_size s = bsize"
proof -
  obtain h where h: "mk_hash_table HASH_TABLE_SIZE = Inr h" "ht_inv h" "ents h = {}"
    using mk_hash_table_ok [of HASH_TABLE_SIZE] by (auto simp: HASH_TABLE_SIZE_def)
  have ps: "0 \<le> psize" using assms(1) by (simp add: mk_bufm_def split: if_splits)
  have s: "s = \<lparr>pool_size = psize, buffer_size = bsize, table = h,
      pool = map (\<lambda>i. (junk i)\<lparr>be_data := replicate (nat bsize) 0\<rparr>) [0..<nat psize],
      free_list = map int [0..<nat psize], used_list = [], used_map = Map.empty, next_node = 0, os = px\<rparr>"
    using assms(1) h(1) by (simp add: mk_bufm_def split: if_splits)
  have "set (map int [0..<nat psize]) = {0..<int (nat psize)}"
    by (force simp: image_iff intro: rev_image_eqI [of "nat _"])
  then have l: "lists_ok s" using ps unfolding s lists_ok_def by (simp add: distinct_map)
  show nh: "\<not> hashed s f p i" for f p i
    using ht_find_absent [OF h(2)] h(3) by (auto simp: hashed_def s)
  show "bm_ok s" using l h(2) assms(2,3) nh unfolding bm_inv_def by (auto simp: s)
  show "coherent F s" using nh unfolding coherent_def by blast
  show "no_stale fd s \<longleftrightarrow> (\<forall>k < nat psize. be_fd (junk k) \<noteq> fd)" by (auto simp: no_stale_def s)
  show "os s = px" "buffer_size s = bsize" by (simp_all add: s)
qed

text \<open>A small pool and an open file, for the examples below.\<close>

definition demo_os :: posix where
  "demo_os = \<lparr>px_names = [''f'' \<mapsto> 0], px_data = (\<lambda>_. []),
     px_fds = [3 \<mapsto> (0, 0)], px_room = 0, px_nexti = 1, px_maxfd = 16\<rparr>"

definition demo_junk :: buffer_entry where
  "demo_junk = \<lparr>be_dirty = True, be_fd = -1, be_page = -1, be_data = [], be_pin = 0\<rparr>"

definition demo_pool :: bufm where
  "demo_pool = (case mk_bufm 2 4 (\<lambda>_. demo_junk) demo_os of Inr s \<Rightarrow> s | Inl _ \<Rightarrow> undefined)"

lemma demo_pool_ok:
  "mk_bufm 2 4 (\<lambda>_. demo_junk) demo_os = Inr demo_pool" "bm_ok demo_pool" "coherent F demo_pool"
  "no_stale 3 demo_pool" "\<not> hashed demo_pool f p i" "os demo_pool = demo_os" "buffer_size demo_pool = 4"
proof -
  have "fds_inj demo_os" by (auto simp: fds_inj_def demo_os_def split: if_splits)
  moreover obtain h where "mk_hash_table HASH_TABLE_SIZE = Inr h"
    using mk_hash_table_ok [of HASH_TABLE_SIZE] by (auto simp: HASH_TABLE_SIZE_def)
  then show m: "mk_bufm 2 4 (\<lambda>_. demo_junk) demo_os = Inr demo_pool" by (simp add: mk_bufm_def demo_pool_def)
  ultimately show "bm_ok demo_pool" "coherent F demo_pool" "no_stale 3 demo_pool" "\<not> hashed demo_pool f p i"
    "os demo_pool = demo_os" "buffer_size demo_pool = 4"
    using mk_bufm_ok [OF m] by (simp_all add: demo_junk_def)
qed

section \<open>Properties\<close>

text \<open>C2: \<open>get_page\<close> on every branch.  When it returns, the page is registered and pinned in the slot
  it returns, the slot holds what the page held before (in the pool or else on disk), every
  other page keeps its contents, every pinned page keeps its slot and its entry, and the
  invariant holds.  When it throws for lack of a slot or because the page is pinned, nothing
  has changed; an I/O error keeps all contents and all pinned pages.\<close>

theorem get_page_correct:
  assumes "bm_ok s" "coherent F s" "key_ok fd page"
  shows "case get_page fd page multiple_pins s of
      (Inr i, s') \<Rightarrow> bm_ok s' \<and> coherent F s' \<and> hashed s' fd page i \<and> 0 < be_pin (ent s' i)
        \<and> (\<forall>d. view s fd page = Some d \<longrightarrow> be_data (ent s' i) = d)
        \<and> keeps_views {} s s' \<and> pinned_kept {(fd, page)} s s'
    | (Inl e, s') \<Rightarrow> e \<in> {No_buf, Page_pinned} \<union> io_errors \<and> (e \<notin> io_errors \<longrightarrow> s' = s)
        \<and> keeps_views {} s s' \<and> pinned_kept {} s s' \<and> coherent F s'"
proof -
  have "wpE (get_page fd page multiple_pins) (\<lambda>_ _. True)
    (\<lambda>e s'. e \<in> {No_buf, Page_pinned} \<union> io_errors \<and> (e \<notin> io_errors \<longrightarrow> s' = s)
        \<and> keeps_views {} s s' \<and> pinned_kept {} s s' \<and> coherent F s') s"
  proof (cases rule: hashed_cases [OF assms(1,3)])
    case 1
    show ?thesis using get_page_miss [OF assms(1,3) 1(1)]
    proof (rule wpE_mono)
      fix e s' assume "e = No_buf \<and> s' = s \<and> all_pinned s \<or> e \<in> io_errors \<and> (unharmed s s' \<or> (\<exists>i. leaked i s s'))"
      then show "e \<in> {No_buf, Page_pinned} \<union> io_errors \<and> (e \<notin> io_errors \<longrightarrow> s' = s)
        \<and> keeps_views {} s s' \<and> pinned_kept {} s s' \<and> coherent F s'"
        using assms(2) keeps_views_refl [of "{}" s] pinned_kept_refl [of "{}" s] unharmed_pinned [of s s']
        unfolding unharmed_def leaked_def by blast
    qed simp
  next
    case (2 i)
    show ?thesis using get_page_hit [OF assms(1) 2(2)]
      by (rule wpE_mono) (use assms(2) keeps_views_refl pinned_kept_refl in \<open>auto simp: io_errors_def\<close>)
  qed
  then show ?thesis using get_page_sound [OF assms(1,3,2)] unfolding wpE_def
    by (auto split: prod.splits sum.splits)
qed

theorem get_page_correct_witness:
  "bm_ok demo_pool \<and> coherent {} demo_pool \<and> key_ok 3 0 \<and> (case get_page 3 0 True demo_pool of
      (Inr i, s') \<Rightarrow> bm_ok s' \<and> coherent {} s' \<and> hashed s' 3 0 i \<and> 0 < be_pin (ent s' i)
        \<and> (\<forall>d. view demo_pool 3 0 = Some d \<longrightarrow> be_data (ent s' i) = d)
        \<and> keeps_views {} demo_pool s' \<and> pinned_kept {(3, 0)} demo_pool s'
    | (Inl e, s') \<Rightarrow> e \<in> {No_buf, Page_pinned} \<union> io_errors \<and> (e \<notin> io_errors \<longrightarrow> s' = demo_pool)
        \<and> keeps_views {} demo_pool s' \<and> pinned_kept {} demo_pool s' \<and> coherent {} s')"
proof -
  have "key_ok 3 0" by (simp add: key_ok_def)
  with get_page_correct [OF demo_pool_ok(2,3) this, of "{}" True] demo_pool_ok(2,3) show ?thesis by blast
qed

lemma client_run_sound:
  assumes "client_run s0 (A0, F0) s (A, F)" "bm_ok s0" "coherent F0 s0" "refines s0 A0"
  shows "bm_ok s \<and> coherent F s \<and> refines s A"
proof -
  have "client_run s0 (A0, F0) s AF \<Longrightarrow> bm_ok s \<and> coherent (snd AF) s \<and> refines s (fst AF)" for s AF
  proof (induction rule: client_run.induct)
    case client_start
    then show ?case using assms(2-4) by simp
  next
    case (client_step s A F oper s')
    obtain A' F' where so: "store_op (nat (buffer_size s)) oper (A, F) = (A', F')" by fastforce
    then show ?case using exec_op_sound [of s F A oper s'] client_step by simp
  qed
  from this [OF assms(1)] show ?thesis by simp
qed

text \<open>C1: The pool refines a store of pages: whatever sequence of operations a client that keeps the
  contract performs (\<open>op_ok\<close>: it writes pages it has pinned, writes an allocated page before it
  unpins it, does not force \<open>ALL_PAGES\<close> and does not flush a descriptor left in a free
  slot), in whatever order pages are evicted and reloaded, each page reads as the abstract store
  says, and the invariant and the agreement of clean pages with the disk hold.\<close>

theorem buffer_pool_refines_store:
  assumes "client_run s0 (A0, F0) s (A, F)" "bm_ok s0" "coherent F0 s0" "refines s0 A0"
  shows "bm_ok s \<and> coherent F s \<and> refines s A"
  using client_run_sound [OF assms] .

text \<open>The run of the witness: allocate a page, write all of it, write two bytes, unpin it.\<close>

abbreviation demo1 :: bufm where "demo1 \<equiv> snd (exec_op (Alloc 3 0) demo_pool)"
abbreviation demo2 :: bufm where "demo2 \<equiv> snd (exec_op (Write 3 0 0 [1, 2, 3, 4]) demo1)"
abbreviation demo3 :: bufm where "demo3 \<equiv> snd (exec_op (Write 3 0 1 [9, 9]) demo2)"
abbreviation demo4 :: bufm where "demo4 \<equiv> snd (exec_op (Unpin 3 0) demo3)"

lemma client_stepI:
  assumes "client_run s0 A0 s (A, F)" "op_ok F s oper" "fst (exec_op oper s) = Inr ()"
    and "store_op (nat (buffer_size s)) oper (A, F) = AF"
  shows "client_run s0 A0 (snd (exec_op oper s)) AF"
  using client_step [OF assms(1,2), of "snd (exec_op oper s)"] assms(3,4) by (simp add: prod_eq_iff)

lemma demo_run: "client_run demo_pool (Map.empty, {}) demo4 ([(3, 0) \<mapsto> [1, 9, 9, 4]], {})"
proof -
  have 1: "client_run demo_pool (Map.empty, {}) demo1 (Map.empty, {(3, 0)})"
    by (rule client_stepI [OF client_start]) (code_simp, code_simp, simp add: fun_eq_iff)
  have "buffer_size demo1 = 4" "buffer_size demo2 = 4" by code_simp+
  note bs = this
  have 2: "client_run demo_pool (Map.empty, {}) demo2 ([(3, 0) \<mapsto> [1, 2, 3, 4]], {})"
    by (rule client_stepI [OF 1]) (code_simp, code_simp, simp add: store_write_def bs del: exec_op.simps)
  have 3: "client_run demo_pool (Map.empty, {}) demo3 ([(3, 0) \<mapsto> [1, 9, 9, 4]], {})"
    by (rule client_stepI [OF 2]) (code_simp, code_simp, simp add: store_write_def bs patch_def del: exec_op.simps)
  show ?thesis by (rule client_stepI [OF 3]) (code_simp, code_simp, simp)
qed

theorem buffer_pool_refines_store_witness:
  "bm_ok demo4 \<and> coherent {} demo4 \<and> refines demo4 [(3, 0) \<mapsto> [1, 9, 9, 4]]"
  using buffer_pool_refines_store [OF demo_run demo_pool_ok(2,3)] by (simp add: refines_def)

lemma all_pinned_no_buf:
  assumes "bm_ok s" "ht_find (table s) fd page = Inr (-1)" "all_pinned s"
  shows "get_page fd page multiple_pins s = (Inl No_buf, s)"
proof -
  have ok: "\<forall>i \<in> set (rev (slots s)). 0 \<le> i \<and> i < int (length (pool s))"
    using used_slot_ok [OF bm_invD(1) [OF assms(1)]] by (auto simp: slot_ok_def)
  have "be_pin (ent s i) \<noteq> 0" if "i \<in> set (slots s)" for i using assms(3) that unfolding all_pinned_def by force
  then have "find_victim (pool s) (rev (slots s)) = Inr None"
    using find_victim_spec [OF ok] by (metis in_set_conv_decomp set_rev)
  then show ?thesis using assms(2,3)
    by (simp add: get_page_def internal_alloc_def find_page_def all_pinned_def bindE_def liftE_def getE_def throwE_def)
qed

lemma get_page_no_buf:
  assumes "bm_ok s" "key_ok fd page"
  shows "fst (get_page fd page multiple_pins s) = Inl No_buf \<longleftrightarrow>
      ht_find (table s) fd page = Inr (-1) \<and> all_pinned s"
proof (cases rule: hashed_cases [OF assms])
  case 1
  have "get_page fd page multiple_pins s = (Inl No_buf, s)" if a: "all_pinned s"
    using all_pinned_no_buf [OF assms(1) 1(1) a] .
  moreover have "all_pinned s" if "fst (get_page fd page multiple_pins s) = Inl No_buf"
    using get_page_miss [OF assms 1(1), of multiple_pins] that unfolding wpE_def
    by (auto simp: io_errors_def split: prod.splits sum.splits)
  ultimately show ?thesis using 1(1) by auto
next
  case (2 i)
  then show ?thesis using get_page_hit [OF assms(1) 2(2), of multiple_pins] unfolding wpE_def
    by (auto split: prod.splits sum.splits)
qed

text \<open>C7: \<open>get_page\<close> reports that there is no buffer exactly when the page is not cached, no slot is
  free and every used slot is pinned; the state is unchanged then.\<close>

theorem get_page_no_buf_iff:
  assumes "bm_ok s" "key_ok fd page"
  shows "fst (get_page fd page multiple_pins s) = Inl No_buf \<longleftrightarrow>
      ht_find (table s) fd page = Inr (-1) \<and> all_pinned s"
  using get_page_no_buf [OF assms] .

text \<open>The pool with both slots pinned.\<close>

abbreviation demo_full :: bufm where "demo_full \<equiv> snd (exec_op (Alloc 3 1) demo1)"

lemma demo_full_ok: "bm_ok demo_full"
proof -
  have 1: "client_run demo_pool (Map.empty, {}) demo1 (Map.empty, {(3, 0)})"
    by (rule client_stepI [OF client_start]) (code_simp, code_simp, simp add: fun_eq_iff)
  have "client_run demo_pool (Map.empty, {}) demo_full (Map.empty, {(3, 1), (3, 0)})"
    by (rule client_stepI [OF 1]) (code_simp, code_simp, simp add: fun_eq_iff)
  from client_run_sound [OF this demo_pool_ok(2,3)] show ?thesis by (simp add: refines_def)
qed

theorem get_page_no_buf_iff_witness:
  "bm_ok demo_full \<and> key_ok 3 2 \<and> fst (get_page 3 2 True demo_full) = Inl No_buf"
proof -
  have k: "key_ok 3 2" by (simp add: key_ok_def)
  moreover have "ht_find (table demo_full) 3 2 = Inr (-1) \<and> all_pinned demo_full" by code_simp
  ultimately show ?thesis using get_page_no_buf_iff [OF demo_full_ok k, of True] demo_full_ok by blast
qed

lemma flush_pages_outcome:
  assumes "bm_ok s" "coherent F s" "no_stale fd s"
  shows "case flush_pages fd s of
      (Inr _, s') \<Rightarrow> bm_ok s' \<and> coherent F s' \<and> keeps_views {} s s'
        \<and> (\<forall>p i. \<not> hashed s' fd p i) \<and> (\<forall>f p i. f \<noteq> fd \<longrightarrow> hashed s' f p i = hashed s f p i)
        \<and> (\<forall>p d. key_ok fd p \<longrightarrow> view s fd p = Some d \<longrightarrow> disk_page s' fd p = Some d)
    | (Inl e, s') \<Rightarrow> bm_ok s' \<and> coherent F s' \<and> keeps_views {} s s'
        \<and> (e \<in> io_errors \<or> e = Page_pinned \<and> fd_pinned fd s)"
proof -
  have "wpE (flush_pages fd) (\<lambda>_ s'. bm_ok s' \<and> coherent F s' \<and> keeps_views {} s s'
        \<and> (\<forall>p i. \<not> hashed s' fd p i) \<and> (\<forall>f p i. f \<noteq> fd \<longrightarrow> hashed s' f p i = hashed s f p i)
        \<and> (\<forall>p d. key_ok fd p \<longrightarrow> view s fd p = Some d \<longrightarrow> disk_page s' fd p = Some d))
     (\<lambda>e s'. bm_ok s' \<and> coherent F s' \<and> keeps_views {} s s' \<and> (e \<in> io_errors \<or> e = Page_pinned \<and> fd_pinned fd s)) s"
    using flush_pages_spec [OF assms(1,3)]
  proof (rule wpE_mono)
    fix s' assume fl: "flushed fd {i. slot_ok s i} s s'"
    then have b: "bm_ok s'" "coherent F s'" "keeps_views {} s s'" using assms(2) unfolding flushed_def by blast+
    have h: "hashed s' f p j \<longleftrightarrow> hashed s f p j \<and> f \<noteq> fd" for f p j
      using fl hashed_slot_ok [OF assms(1)] unfolding flushed_def by blast
    have "disk_page s' fd p = Some d" if "key_ok fd p" "view s fd p = Some d" for p d
      using keeps_viewsD [OF b(3) that(1) _ that(2)] view_disk [OF b(1) that(1)] h by simp
    then show "bm_ok s' \<and> coherent F s' \<and> keeps_views {} s s'
        \<and> (\<forall>p i. \<not> hashed s' fd p i) \<and> (\<forall>f p i. f \<noteq> fd \<longrightarrow> hashed s' f p i = hashed s f p i)
        \<and> (\<forall>p d. key_ok fd p \<longrightarrow> view s fd p = Some d \<longrightarrow> disk_page s' fd p = Some d)" using b h by simp
  next
    fix e s' assume "(\<exists>Y. flushed fd Y s s') \<and> (e \<in> io_errors \<or> e = Page_pinned \<and> fd_pinned fd s)"
    then show "bm_ok s' \<and> coherent F s' \<and> keeps_views {} s s' \<and> (e \<in> io_errors \<or> e = Page_pinned \<and> fd_pinned fd s)"
      using assms(2) unfolding flushed_def by blast
  qed
  then show ?thesis unfolding wpE_def .
qed



text \<open>Flushing the same descriptor twice, as closing a file and closing the next file that gets the
  same descriptor does, puts a slot on the free list twice: the free slot still carries the
  descriptor and \<open>flush_pages\<close> does not ask whether a slot is in use.  Two pages of the next
  file then share one slot.\<close>

theorem double_flush_shares_slot:
  "fst (seqE (exec_op (Alloc 3 0)) (seqE (unpin_page 3 0) (seqE (flush_pages 3) (seqE (flush_pages 3)
      (bindE (allocate_page 4 0) (\<lambda>a. bindE (allocate_page 4 1) (\<lambda>b. retE (a, b))))))) demo_pool)
     = Inr (Some 0, Some 0)"
  by code_simp

text \<open>\<open>force_page\<close> with \<open>ALL_PAGES\<close>, that is \<open>page = -1\<close>, on a pool with one page.\<close>

lemma force_all_single:
  assumes "bm_ok s" "hashed s fd page i" "slots s = [i]" "be_dirty (ent s i)"
  shows "wpE (force_page fd (-1))
     (\<lambda>_ s'. disk_page s' fd (-1) = Some (be_data (ent s i)) \<and> \<not> be_dirty (ent s' i)
       \<and> (\<forall>d. page \<noteq> -1 \<longrightarrow> disk_page s fd page = Some d \<longrightarrow> disk_page s' fd page = Some d))
     (\<lambda>e _. e \<in> io_errors) s" (is "wpE _ ?Q _ s")
proof -
  note iv = bm_invD [OF assms(1)]
  note ok = hashed_slot_ok [OF assms(1,2)]
  have f: "be_fd (ent s i) = fd" using iv(10) [OF assms(2)] .
  have post: "?Q () (upd i (\<lambda>e. e\<lparr>be_dirty := False\<rparr>) s1) \<and> slot_ok s1 i"
    if d: "disk_step {(fd, -1)} s s1 \<and> disk_page s1 fd (-1) = Some (be_data (ent s i))" for s1
  proof -
    let ?t = "upd i (\<lambda>e. e\<lparr>be_dirty := False\<rparr>) s1"
    have so: "slot_ok s1 i" using ok disk_stepD(2) [OF conjunct1 [OF d]] by (simp add: slot_ok_def)
    have "disk_page ?t = disk_page s1" by (rule disk_page_cong) simp_all
    moreover have "\<not> be_dirty (ent ?t i)" using ent_upd [OF so so] by simp
    ultimately show ?thesis using so d disk_stepD(10) [OF conjunct1 [OF d], of fd page] by auto
  qed
  have "wpE (seqE (write_page fd (-1) (be_data (ent s i))) (upd_entry i (\<lambda>e. e\<lparr>be_dirty := False\<rparr>))) ?Q
      (\<lambda>e _. e \<in> io_errors) s"
    unfolding wpE_seq using write_page_spec [OF iv(4,3) bm_inv_data [OF assms(1) ok]]
    by (rule wpE_mono) (use post wpE_upd_entry in auto)
  then show ?thesis using assms(3,4) f
    by (simp add: force_page_def wpE_bind wpE_get wpE_entry_at [OF ok] whenE_def wpE_seq_ret)
qed

text \<open>\<open>force_page(fd, ALL_PAGES)\<close> does not save the pages of the file: it writes the dirty page at
  the place of page \<open>-1\<close>, which with pages of 4096 bytes is the file header, marks the page
  clean, and leaves the page itself on disk as it was.\<close>

theorem force_all_pages_overwrites_header:
  assumes "bm_ok s" "hashed s fd page i" "slots s = [i]" "be_dirty (ent s i)"
  shows "case force_page fd (-1) s of
      (Inr _, s') \<Rightarrow> disk_page s' fd (-1) = Some (be_data (ent s i)) \<and> \<not> be_dirty (ent s' i)
        \<and> (\<forall>d. page \<noteq> -1 \<longrightarrow> disk_page s fd page = Some d \<longrightarrow> disk_page s' fd page = Some d)
    | (Inl e, _) \<Rightarrow> e \<in> io_errors"
  using force_all_single [OF assms] unfolding wpE_def .

theorem force_all_pages_overwrites_header_witness:
  "bm_ok demo4 \<and> hashed demo4 3 0 0 \<and> slots demo4 = [0] \<and> be_dirty (ent demo4 0)
   \<and> (case force_page 3 (-1) demo4 of
      (Inr _, s') \<Rightarrow> disk_page s' 3 (-1) = Some (be_data (ent demo4 0)) \<and> \<not> be_dirty (ent s' 0)
        \<and> (\<forall>d. (0::int) \<noteq> -1 \<longrightarrow> disk_page demo4 3 0 = Some d \<longrightarrow> disk_page s' 3 0 = Some d)
    | (Inl e, _) \<Rightarrow> e \<in> io_errors)"
proof -
  have s: "bm_ok demo4" using client_run_sound [OF demo_run demo_pool_ok(2,3)] by (simp add: refines_def)
  have d: "hashed demo4 3 0 0" "slots demo4 = [0]" "be_dirty (ent demo4 0)"
    by code_simp+
  show ?thesis using force_all_pages_overwrites_header [OF s d] s d by blast
qed

text \<open>A read that fails loses the slot: \<open>get_page\<close> of a page the file does not have moves the first
  free slot to the used list and throws; no page is registered under the slot, which stays used.\<close>

theorem get_page_eof_leaks_slot:
  assumes "bm_ok s" "key_ok fd page" "ht_find (table s) fd page = Inr (-1)" "disk_page s fd page = None"
    and "free_list s = i # rest"
  shows "\<exists>e s'. get_page fd page multiple_pins s = (Inl e, s') \<and> e \<in> io_errors
     \<and> free_list s' = rest \<and> i \<in> set (slots s') \<and> (\<forall>f p. \<not> hashed s' f p i)"
proof -
  let ?t = "touched i (s\<lparr>free_list := rest\<rparr>)"
  note iv = bm_invD [OF assms(1)]
  note tk = taken_free [OF assms(1,5)]
  then have t: "bm_inv {i} ?t" "i \<in> set (slots ?t)" unfolding taken_def by auto
  note it = bm_invD [OF t(1)]
  note ok = used_slot_ok [OF it(1) t(2)]
  have al: "internal_alloc s = (Inr i, ?t)"
    using lists_ok_take_free(1) [OF iv(1) assms(5)] assms(5)
    by (simp add: internal_alloc_def eff_defs split: prod.splits sum.splits)
  have "disk_page ?t = disk_page s" by (rule disk_page_cong) simp_all
  then have "wpE (read_page fd page i) (\<lambda>_ _. False) (\<lambda>e s'. e \<in> io_errors \<and> free_list s' = rest
      \<and> i \<in> set (slots s') \<and> (\<forall>f p. \<not> hashed s' f p i)) ?t"
    using read_page_spec [OF it(4,3) ok bm_inv_data [OF t(1) ok], of fd page]
  proof (elim wpE_mono)
    fix e s' assume "e \<in> io_errors \<and> (\<exists>d px. s' = loaded i d px ?t \<and> same_blocks (os ?t) px \<and> length d = nat (buffer_size ?t))"
    then obtain d px where l: "e \<in> io_errors" "s' = loaded i d px ?t" by blast
    have h: "hashed s' = hashed ?t" by (rule hashed_cong) (simp add: l(2))
    show "e \<in> io_errors \<and> free_list s' = rest \<and> i \<in> set (slots s') \<and> (\<forall>f p. \<not> hashed s' f p i)"
    proof (intro conjI allI)
      show "\<not> hashed s' f p i" for f p unfolding h using it(9) by blast
      show "i \<in> set (slots s')" using t(2) l(2) by simp
    qed (use l in simp_all)
  qed (use assms(4) in simp)
  then obtain e s' where r: "read_page fd page i ?t = (Inl e, s')" "e \<in> io_errors" "free_list s' = rest"
    "i \<in> set (slots s')" "\<forall>f p. \<not> hashed s' f p i"
    unfolding wpE_def by (auto split: prod.splits sum.splits)
  have "get_page fd page multiple_pins s = (Inl e, s')"
    using assms(3) al r(1) by (simp add: get_page_def find_page_def bindE_def liftE_def seqE_def)
  then show ?thesis using r by blast
qed

theorem get_page_eof_leaks_slot_witness:
  "bm_ok demo_pool \<and> (\<exists>e s'. get_page 3 0 True demo_pool = (Inl e, s') \<and> e \<in> io_errors
     \<and> free_list s' = [1] \<and> 0 \<in> set (slots s') \<and> (\<forall>f p. \<not> hashed s' f p 0))"
proof -
  have k: "key_ok 3 0" "ht_find (table demo_pool) 3 0 = Inr (-1)" by code_simp+
  have f: "free_list demo_pool = 0 # [1]" by code_simp
  have d: "disk_page demo_pool 3 0 = None"
    by (simp add: disk_page_def Let_def demo_pool_ok(6,7) fd_block_def block_def demo_os_def)
  from get_page_eof_leaks_slot [OF demo_pool_ok(2) k d f, of True] demo_pool_ok(2) show ?thesis by blast
qed

end
