(* ===== verification/Pool_Frame.thy ===== *)
theory Pool_Frame
  imports Buffer_Manager
begin

text \<open>
  What the operations on the pool leave alone besides the contents of pages: the names and descriptors of the files, and
  the free slots.  \<open>quiet b b'\<close> holds between the states before and after every operation that frees no slot; its last
  part says that a file without stale free slots keeps none, which \<open>flush_pages\<close> needs.
\<close>

section \<open>Descriptors keep their files\<close>

definition fd_inode :: "posix \<Rightarrow> int \<Rightarrow> nat option" where
  "fd_inode p fd = map_option fst (px_fds p fd)"

definition same_files :: "posix \<Rightarrow> bufm \<Rightarrow> bool" where
  "same_files p s \<longleftrightarrow> px_names (os s) = px_names p \<and> fd_inode (os s) = fd_inode p \<and> px_maxfd (os s) = px_maxfd p"

lemma px_same_files:
  "px_lseek q fd off = (r, q') \<Longrightarrow> px_names q' = px_names q \<and> fd_inode q' = fd_inode q \<and> px_maxfd q' = px_maxfd q"
  "px_write q fd bs = (r, q') \<Longrightarrow> px_names q' = px_names q \<and> fd_inode q' = fd_inode q \<and> px_maxfd q' = px_maxfd q"
  by (auto simp: px_lseek_def px_write_def Let_def fd_inode_def fun_eq_iff split: option.splits if_splits prod.splits)

lemma keeps_files [keeps_rules]:
  "keepsE (same_files p) (lseek fd off)" "keepsE (same_files p) (write_fd fd bs)"
  using px_same_files by (fastforce simp: keepsE_def lseek_def write_fd_def same_files_def split: prod.splits)+

lemma keeps_files_mem [keeps_rules]:
  "keepsE (same_files p) (upd_entry i f)" "keepsE (same_files p) (entry_at i)" "keepsE (same_files p) (table_do g)"
  "keepsE (same_files p) (remove i)" "keepsE (same_files p) (insert_free i)"
  by (auto simp: upd_entry_def entry_at_def table_do_def remove_def insert_free_def same_files_def
      split: option.splits intro!: keeps_rules keepsE_mod)

lemma keeps_files_flush: "keepsE (same_files p) (flush_loop fd xs)"
  by (induction xs) (auto simp: flush_slot_def write_page_def intro!: keeps_rules)

lemma flush_pages_same_files: "keepsE (same_files p) (flush_pages fd)"
  by (auto simp: flush_pages_def keeps_files_flush intro!: keeps_rules)

section \<open>Free slots\<close>

abbreviation slot_fds :: "bufm \<Rightarrow> int list" where
  "slot_fds b \<equiv> map be_fd (pool b)"

text \<open>Everything but the owner of slot \<open>k\<close>.\<close>

definition framed :: "nat \<Rightarrow> posix \<Rightarrow> int set \<Rightarrow> int list \<Rightarrow> bufm \<Rightarrow> bool" where
  "framed k p A X b \<longleftrightarrow> same_files p b \<and> set (free_list b) \<subseteq> A \<and> (\<forall>j. j \<noteq> k \<longrightarrow> slot_fds b ! j = X ! j)"

lemma px_read_same_files:
  "px_read q fd n = (r, bs, q') \<Longrightarrow> px_names q' = px_names q \<and> fd_inode q' = fd_inode q \<and> px_maxfd q' = px_maxfd q"
  by (auto simp: px_read_def Let_def fd_inode_def fun_eq_iff split: option.splits)

lemma framed_io [keeps_rules]:
  "keepsE (framed k p A X) (lseek fd off)" "keepsE (framed k p A X) (write_fd fd bs)" "keepsE (framed k p A X) (read_fd fd n)"
  using px_same_files px_read_same_files
  by (fastforce simp: keepsE_def lseek_def write_fd_def read_fd_def framed_def same_files_def split: prod.splits)+

lemma framed_upd:
  assumes "\<And>e. be_fd (f e) = be_fd e \<or> nat i = k"
  shows "keepsE (framed k p A X) (upd_entry i f)"
proof -
  have "slot_fds (b\<lparr>pool := (pool b)[nat i := f (pool b ! nat i)]\<rparr>) ! j = slot_fds b ! j"
    if "j \<noteq> k" "slot_ok b i" for b j
    using that assms [of "pool b ! nat i"] by (cases "nat i = j") (auto simp: map_update slot_ok_def)
  then show ?thesis
    by (auto simp: keepsE_def upd_entry_def entry_at_def framed_def same_files_def bindE_def liftE_def modE_def)
qed

lemma framed_mem [keeps_rules]:
  "keepsE (framed k p A X) (entry_at i)" "keepsE (framed k p A X) (table_do g)" "keepsE (framed k p A X) (remove i)"
  "keepsE (framed k p A X) (insert_used i)" "keepsE (framed k p A X) (find_page fd page)"
  by (auto simp: entry_at_def table_do_def remove_def insert_used_def find_page_def framed_def same_files_def
      split: option.splits intro!: keeps_rules keepsE_mod)

lemma framed_pages [keeps_rules]:
  "keepsE (framed k p A X) (write_page fd page bs)" "keepsE (framed k p A X) (read_page fd page i)"
  "keepsE (framed k p A X) (evict i)" "keepsE (framed k p A X) (touch i)"
  by (auto simp: write_page_def read_page_def evict_def touch_def intro!: keeps_rules framed_upd)

lemma framed_take: "keepsE (framed k p A X) (bindE (getE free_list) (\<lambda>fl. case fl of [] \<Rightarrow> m | i # is \<Rightarrow> seqE (modE (\<lambda>s. s\<lparr>free_list := is\<rparr>)) (n i)))"
  if "keepsE (framed k p A X) m" "\<And>i. keepsE (framed k p A X) (n i)"
proof -
  have "framed k p A X (snd (seqE (modE (\<lambda>s. s\<lparr>free_list := is\<rparr>)) (n i) b))" if "framed k p A X b" "free_list b = i # is" for b i "is"
  proof -
    have "framed k p A X (b\<lparr>free_list := is\<rparr>)" using that by (auto simp: framed_def same_files_def)
    then show ?thesis using \<open>\<And>i. keepsE (framed k p A X) (n i)\<close> by (simp add: keepsE_def seqE_def bindE_def modE_def)
  qed
  then show ?thesis using that(1) by (auto simp: keepsE_def bindE_def getE_def split: list.splits)
qed

lemma framed_alloc [keeps_rules]: "keepsE (framed k p A X) internal_alloc"
  unfolding internal_alloc_def
  by (rule framed_take; intro keeps_rules; auto intro!: keeps_rules split: option.splits)

lemma framed_self: "framed k (os b) (set (free_list b)) (slot_fds b) b"
  by (simp add: framed_def same_files_def)

text \<open>A computation whose result names the slot that has a new owner.\<close>

definition slot_framed :: "('a \<Rightarrow> int) \<Rightarrow> 'a bm \<Rightarrow> bool" where
  "slot_framed sl m \<longleftrightarrow> (\<forall>p A X b x b'. (\<forall>k. framed k p A X b) \<longrightarrow> m b = (Inr x, b') \<longrightarrow> framed (nat (sl x)) p A X b')"

lemma slot_framed_keeps: "(\<And>k p A X. keepsE (framed k p A X) m) \<Longrightarrow> slot_framed sl m"
  unfolding slot_framed_def by (blast dest: keepsE_step)

lemma slot_framed_ret: "(\<And>p A X. keepsE (framed (nat (sl x)) p A X) m) \<Longrightarrow> slot_framed sl (seqE m (retE x))"
  unfolding slot_framed_def
  by (auto simp: seqE_def bindE_def retE_def split: prod.splits sum.splits) (metis keepsE_step)

lemma slot_framed_bind:
  assumes "\<And>k p A X. keepsE (framed k p A X) m" "\<And>x. slot_framed sl (f x)"
  shows "slot_framed sl (bindE m f)"
  unfolding slot_framed_def
proof (intro allI impI)
  fix p A X b x b' assume b: "\<forall>k. framed k p A X b" and r: "bindE m f b = (Inr x, b')"
  from r obtain y b1 where y: "m b = (Inr y, b1)" "f y b1 = (Inr x, b')" by (auto simp: bindE_def split: prod.splits sum.splits)
  have "framed k p A X b1" for k using keepsE_step [OF assms(1) y(1)] b by blast
  then show "framed (nat (sl x)) p A X b'" using assms(2) y(2) unfolding slot_framed_def by blast
qed

lemma framed_init: "keepsE (framed (nat i) p A X) (init_page_info fd page i)"
  unfolding init_page_info_def by (rule framed_upd) simp

lemma slot_framed_get: "slot_framed (\<lambda>i. i) (get_page fd page mp)"
  unfolding get_page_def
proof (rule slot_framed_bind)
  fix s
  have "slot_framed (\<lambda>i. i) (seqE (read_page fd page i) (seqE (table_do g) (seqE (init_page_info fd page i) (retE i))))" for i g
    using slot_framed_ret [of "\<lambda>i. i" i "seqE (read_page fd page i) (seqE (table_do g) (init_page_info fd page i))"]
    by (simp add: seqE_assoc keeps_rules framed_init)
  moreover have "slot_framed (\<lambda>i. i) (bindE (entry_at s) (\<lambda>e. seqE (guardE (mp \<or> \<not> 0 < be_pin e) Page_pinned)
      (bindE (liftE (\<lambda>_. c_int (be_pin e + 1))) (\<lambda>n. seqE (upd_entry s (\<lambda>e. e\<lparr>be_pin := n\<rparr>)) (seqE (touch s) (retE s))))))"
    by (intro slot_framed_keeps keeps_rules framed_upd) simp
  ultimately show "slot_framed (\<lambda>i. i) (if s = - 1 then bindE internal_alloc (\<lambda>slot. seqE (read_page fd page slot) (
       seqE (table_do (\<lambda>h. ht_insert h fd page slot)) (seqE (init_page_info fd page slot) (retE slot))))
     else bindE (entry_at s) (\<lambda>e. seqE (guardE (mp \<or> \<not> 0 < be_pin e) Page_pinned)
      (bindE (liftE (\<lambda>_. c_int (be_pin e + 1))) (\<lambda>n. seqE (upd_entry s (\<lambda>e. e\<lparr>be_pin := n\<rparr>)) (seqE (touch s) (retE s))))))"
    by (auto intro!: slot_framed_bind keeps_rules)
qed (rule keeps_rules)

lemma slot_framed_new: "slot_framed the (allocate_page fd page)"
proof -
  have "slot_framed the (seqE (table_do g) (seqE (init_page_info fd page i) (retE (Some i))))" for i g
    using slot_framed_ret [of the "Some i" "seqE (table_do g) (init_page_info fd page i)"]
    by (simp add: seqE_assoc keeps_rules framed_init)
  then show ?thesis unfolding allocate_page_def
    by (auto intro!: slot_framed_bind slot_framed_keeps [of "retE _"] keeps_rules split: if_splits)
qed

section \<open>Quiet operations\<close>

definition quiet :: "bufm \<Rightarrow> bufm \<Rightarrow> bool" where
  "quiet b b' \<longleftrightarrow> same_files (os b) b' \<and> set (free_list b') \<subseteq> set (free_list b)
     \<and> (\<forall>j \<in> set (free_list b'). slot_fds b' ! nat j = slot_fds b ! nat j)"

lemma quiet_refl: "quiet b b"
  by (simp add: quiet_def same_files_def)

lemma quiet_trans: "quiet b b1 \<Longrightarrow> quiet b1 b2 \<Longrightarrow> quiet b b2"
  by (auto simp: quiet_def same_files_def)

lemma framed_quiet:
  assumes "framed (nat i) (os b) (set (free_list b)) (slot_fds b) b'" "lists_ok b'" "i \<in> set (slots b')"
  shows "quiet b b'"
proof -
  have "nat j \<noteq> nat i" if "j \<in> set (free_list b')" for j
  proof -
    have "j \<noteq> i" using lists_okD(3) [OF assms(2)] assms(3) that by blast
    moreover have "0 \<le> j" "0 \<le> i" using free_slot_ok [OF assms(2) that] used_slot_ok [OF assms(2,3)] by (auto simp: slot_ok_def)
    ultimately show ?thesis by simp
  qed
  then show ?thesis using assms(1) by (simp add: quiet_def framed_def)
qed

lemma keeps_quiet:
  assumes "\<And>k p A X. keepsE (framed k p A X) m" "m b = (r, b')"
  shows "quiet b b'"
proof -
  have f: "framed k (os b) (set (free_list b)) (slot_fds b) b'" for k
    by (rule keepsE_step [OF assms]) (rule framed_self)
  have "slot_fds b' ! nat j = slot_fds b ! nat j" for j using f [of "Suc (nat j)"] by (simp add: framed_def)
  then show ?thesis using f [of 0] by (simp add: quiet_def framed_def)
qed

lemma quiet_get: "bm_ok b' \<Longrightarrow> hashed b' f p i \<Longrightarrow> get_page f p mp b = (Inr i, b') \<Longrightarrow> quiet b b'"
  using slot_framed_get [of f p mp] framed_self bm_invD(1,8) unfolding slot_framed_def
  by (blast intro: framed_quiet)

lemma quiet_new: "bm_ok b' \<Longrightarrow> hashed b' f p i \<Longrightarrow> allocate_page f p b = (Inr (Some i), b') \<Longrightarrow> quiet b b'"
proof -
  assume a: "bm_ok b'" "hashed b' f p i" "allocate_page f p b = (Inr (Some i), b')"
  have "framed (nat (the (Some i))) (os b) (set (free_list b)) (slot_fds b) b'"
    using slot_framed_new [of f p] framed_self a(3) unfolding slot_framed_def by blast
  then show "quiet b b'" using framed_quiet bm_invD(1,8) a(1,2) by auto
qed

lemma quiet_ops:
  "poke i off bs b = (r, b') \<Longrightarrow> quiet b b'" "mark_dirty f p b = (r, b') \<Longrightarrow> quiet b b'" "unpin_page f p b = (r, b') \<Longrightarrow> quiet b b'"
  by (erule keeps_quiet [rotated], simp add: poke_def mark_dirty_def unpin_page_def, intro keeps_rules framed_upd, simp)+

text \<open>A file without stale free slots keeps none.\<close>

lemma quiet_no_stale:
  assumes "quiet b b'" "lists_ok b" "lists_ok b'" "no_stale fd b"
  shows "no_stale fd b'"
  unfolding no_stale_def
proof
  fix j assume j: "j \<in> set (free_list b')"
  then have f: "j \<in> set (free_list b)" using assms(1) by (auto simp: quiet_def)
  have "slot_fds b' ! nat j = slot_fds b ! nat j" using assms(1) j by (simp add: quiet_def)
  moreover have "nat j < length (pool b)" "nat j < length (pool b')"
    using free_slot_ok [OF assms(2) f] free_slot_ok [OF assms(3) j] by (auto simp: slot_ok_def)
  ultimately show "be_fd (ent b' j) \<noteq> fd" using assms(4) f by (simp add: no_stale_def)
qed

end
