(* ===== verification/File_Handle.thy ===== *)
theory File_Handle
  imports Pool_Frame
begin

text \<open>
  \<^verbatim>\<open>io/file_handle.{h,cc}\<close> and \<^verbatim>\<open>io/page_handle.{h,cc}\<close>: a paged file on top of the buffer pool.  The first four bytes
  of a page are its \<open>page_header\<close>: \<open>PAGE_USED\<close>, or the next page of the list of free pages,
  which starts at \<open>first_free\<close> in the file header and ends with \<open>PAGE_LIST_END\<close>.

  The state of an operation is the handle together with the buffer manager it points to.  A
  \<open>page_handle\<close> carries the slot its \<open>data_\<close> pointer points into; the pointer itself is four
  bytes after the start of the slot.
\<close>

section \<open>The model\<close>

definition DEFAULT_PAGE_SIZE :: int where "DEFAULT_PAGE_SIZE = 4096"
definition PAGE_LIST_END :: int where "PAGE_LIST_END = -1"
definition PAGE_USED :: int where "PAGE_USED = -2"
definition ALL_PAGES :: int where "ALL_PAGES = -1"

record file_handle =
  fh_fd :: int
  first_free :: int
  page_num :: int
  file_is_open :: bool
  header_changed :: bool

record fh_state =
  handle :: file_handle
  buf :: bufm

record page_handle =
  ph_page :: int
  ph_slot :: int

type_synonym 'a fh = "(fh_state, 'a) eff"

definition liftB :: "'a bm \<Rightarrow> 'a fh" where
  "liftB m = (\<lambda>st. case m (buf st) of (r, b) \<Rightarrow> (r, st\<lparr>buf := b\<rparr>))"

definition modH :: "(file_handle \<Rightarrow> file_handle) \<Rightarrow> unit fh" where
  "modH f = modE (\<lambda>st. st\<lparr>handle := f (handle st)\<rparr>)"

text \<open>Access through \<open>data\<close>: an \<open>int\<close> read, and a write that must stay within the slot.\<close>

definition load_int :: "int \<Rightarrow> nat \<Rightarrow> int bm" where
  "load_int slot off = bindE (entry_at slot) (\<lambda>e.
     if off + 4 \<le> length (be_data e) then retE (dec_int (drop off (be_data e))) else throwE Undefined_behaviour)"

definition store_bytes :: "int \<Rightarrow> nat \<Rightarrow> byte list \<Rightarrow> unit bm" where
  "store_bytes slot off bs = bindE (entry_at slot) (\<lambda>e.
     if off + length bs \<le> length (be_data e) then poke slot off bs else throwE Undefined_behaviour)"

definition is_valid_page :: "file_handle \<Rightarrow> int \<Rightarrow> bool" where
  "is_valid_page h page \<longleftrightarrow> page \<ge> 0 \<and> page < page_num h"

definition fh_unpin_page :: "int \<Rightarrow> unit fh" where
  "fh_unpin_page page = bindE (getE handle) (\<lambda>h.
     seqE (guardE (file_is_open h) Closed_file) (
     seqE (guardE (is_valid_page h page) Invalid_page)
          (liftB (unpin_page (fh_fd h) page))))"

definition fh_mark_dirty :: "int \<Rightarrow> unit fh" where
  "fh_mark_dirty page = bindE (getE handle) (\<lambda>h.
     seqE (guardE (file_is_open h) Closed_file) (
     seqE (guardE (is_valid_page h page) Invalid_page)
          (liftB (mark_dirty (fh_fd h) page))))"

text \<open>The two ways \<open>allocate_page\<close> finds a page: reuse the first free one, or extend the file.  A
  null pointer from the buffer manager is dereferenced by the caller.\<close>

definition fh_take_page :: "(int \<times> int) fh" where
  "fh_take_page = bindE (getE handle) (\<lambda>h.
     if first_free h \<noteq> PAGE_LIST_END then
       bindE (liftB (get_page (fh_fd h) (first_free h) True)) (\<lambda>data.
       bindE (liftB (load_int data 0)) (\<lambda>next_free.
       seqE (modH (\<lambda>h. h\<lparr>first_free := next_free\<rparr>)) (retE (first_free h, data))))
     else
       bindE (liftB (allocate_page (fh_fd h) (page_num h))) (\<lambda>data.
       bindE (liftE (\<lambda>_. c_int (page_num h + 1))) (\<lambda>n.
       seqE (modH (\<lambda>h. h\<lparr>page_num := n\<rparr>))
         (case data of None \<Rightarrow> throwE Undefined_behaviour | Some slot \<Rightarrow> retE (page_num h, slot)))))"

definition fh_allocate_page :: "page_handle fh" where
  "fh_allocate_page = bindE (getE handle) (\<lambda>h.
     seqE (guardE (file_is_open h) Closed_file) (
     bindE fh_take_page (\<lambda>(page, data).
     seqE (modH (\<lambda>h. h\<lparr>header_changed := True\<rparr>)) (
     seqE (liftB (store_bytes data 0 (enc_int PAGE_USED))) (
     seqE (liftB (store_bytes data 4 (replicate (nat DEFAULT_PAGE_SIZE - 4) 0))) (
     seqE (fh_mark_dirty page)
          (retE \<lparr>ph_page = page, ph_slot = data\<rparr>)))))))"

definition dispose_page :: "int \<Rightarrow> unit fh" where
  "dispose_page page = bindE (getE handle) (\<lambda>h.
     seqE (guardE (file_is_open h) Closed_file) (
     seqE (guardE (is_valid_page h page) Invalid_page) (
     bindE (liftB (get_page (fh_fd h) page False)) (\<lambda>data.
     bindE (liftB (load_int data 0)) (\<lambda>next_free.
     seqE (whenE (next_free \<noteq> PAGE_USED) (seqE (fh_unpin_page page) (throwE Page_already_free))) (
     seqE (liftB (store_bytes data 0 (enc_int (first_free h)))) (
     seqE (modH (\<lambda>h. h\<lparr>first_free := page, header_changed := True\<rparr>)) (
     seqE (fh_mark_dirty page)
          (fh_unpin_page page)))))))))"

definition get_this_page :: "int \<Rightarrow> page_handle fh" where
  "get_this_page page = bindE (getE handle) (\<lambda>h.
     seqE (guardE (file_is_open h) Closed_file) (
     seqE (guardE (is_valid_page h page) Invalid_page) (
     bindE (liftB (get_page (fh_fd h) page True)) (\<lambda>data.
     bindE (liftB (load_int data 0)) (\<lambda>next_free.
     if next_free = -2 then retE \<lparr>ph_page = page, ph_slot = data\<rparr>
     else seqE (fh_unpin_page page) (throwE Invalid_page))))))"

text \<open>\<open>write(fd_, &header_, sizeof(file_header))\<close> at the start of the file.\<close>

definition write_header :: "unit fh" where
  "write_header = bindE (getE handle) (\<lambda>h.
     whenE (header_changed h) (
       bindE (liftB (lseek (fh_fd h) 0)) (\<lambda>r.
       seqE (guardE (0 \<le> r) Unix_error) (
       bindE (liftB (write_fd (fh_fd h) (enc_int (first_free h) @ enc_int (page_num h)))) (\<lambda>num_bytes.
       seqE (guardE (0 \<le> num_bytes) Unix_error) (
       seqE (guardE (num_bytes = 8) Incomplete_header_write)
            (modH (\<lambda>h. h\<lparr>header_changed := False\<rparr>))))))))"

definition fh_flush_pages :: "unit fh" where
  "fh_flush_pages = bindE (getE handle) (\<lambda>h.
     seqE (guardE (file_is_open h) Closed_file) (
     seqE write_header (liftB (flush_pages (fh_fd h)))))"

definition fh_force_page :: "int \<Rightarrow> unit fh" where
  "fh_force_page page = bindE (getE handle) (\<lambda>h.
     seqE (guardE (file_is_open h) Closed_file) (
     seqE write_header (liftB (force_page (fh_fd h) page))))"

text \<open>The scans of \<open>get_next_page\<close> and \<open>get_prev_page\<close> over the pages listed.\<close>

fun first_used :: "int list \<Rightarrow> page_handle fh" where
  "first_used [] = throwE Eof"
| "first_used (p # ps) = catchE (get_this_page p) (\<lambda>_. first_used ps)"

definition get_next_page :: "int \<Rightarrow> page_handle fh" where
  "get_next_page current = bindE (getE handle) (\<lambda>h.
     seqE (guardE (file_is_open h) Closed_file) (
     seqE (guardE (current = -1 \<or> is_valid_page h current) Invalid_page)
          (first_used [current + 1..page_num h - 1])))"

definition get_prev_page :: "int \<Rightarrow> page_handle fh" where
  "get_prev_page current = bindE (getE handle) (\<lambda>h.
     seqE (guardE (file_is_open h) Closed_file) (
     seqE (guardE (current = page_num h \<or> is_valid_page h current) Invalid_page)
          (first_used (rev [0..current - 1]))))"

definition get_first_page :: "page_handle fh" where
  "get_first_page = get_next_page (-1)"

definition get_last_page :: "page_handle fh" where
  "get_last_page = bindE (getE handle) (\<lambda>h. get_prev_page (page_num h))"

section \<open>The list of free pages\<close>

text \<open>\<open>chain n h ps\<close>: following \<open>n\<close> from \<open>h\<close> visits \<open>ps\<close> and ends with \<open>PAGE_LIST_END\<close>.\<close>

fun chain :: "(int \<Rightarrow> int option) \<Rightarrow> int \<Rightarrow> int list \<Rightarrow> bool" where
  "chain n h [] \<longleftrightarrow> h = PAGE_LIST_END"
| "chain n h (p # ps) \<longleftrightarrow> h = p \<and> h \<noteq> PAGE_LIST_END \<and> (\<exists>q. n p = Some q \<and> chain n q ps)"

abbreviation content :: "fh_state \<Rightarrow> int \<Rightarrow> byte list option" where
  "content st p \<equiv> view (buf st) (fh_fd (handle st)) p"

definition next_of :: "fh_state \<Rightarrow> int \<Rightarrow> int option" where
  "next_of st p = map_option dec_int (content st p)"

text \<open>
  The invariant of an open file: the pool is sound, every page of the file has contents, the
  free list is well formed and contains valid pages only, every other page is marked used, and
  pages past the end are not cached.  \<open>free\<close> is the abstract free list.
\<close>

definition fh_inv :: "(int \<times> int) set \<Rightarrow> int list \<Rightarrow> fh_state \<Rightarrow> bool" where
  "fh_inv F free st \<longleftrightarrow> (let h = handle st in
     file_is_open h \<and> bm_good F (buf st) \<and> bm_psize (buf st) = 4096
     \<and> (\<forall>p. (fh_fd h, p) \<notin> F)
     \<and> 0 \<le> fh_fd h \<and> 0 \<le> page_num h \<and> fh_fd h + page_num h < 2 ^ 31
     \<and> chain (next_of st) (first_free h) free \<and> distinct free \<and> set free \<subseteq> {0..<page_num h}
     \<and> (\<forall>p \<in> {0..<page_num h}. content st p \<noteq> None)
     \<and> (\<forall>p \<in> {0..<page_num h} - set free. next_of st p = Some PAGE_USED)
     \<and> (\<forall>p \<ge> page_num h. \<not> bm_in_pool (buf st) (fh_fd h) p))"

lemma wpE_liftB: "wpE (liftB m) Q R st =
    wpE m (\<lambda>x b. Q x (st\<lparr>buf := b\<rparr>)) (\<lambda>e b. R e (st\<lparr>buf := b\<rparr>)) (buf st)"
  by (auto simp: wpE_def liftB_def split: prod.splits sum.splits)

lemma wpE_modH: "wpE (modH f) Q R st = Q () (st\<lparr>handle := f (handle st)\<rparr>)"
  by (simp add: modH_def wpE_mod)

lemmas fh_wp = wpE_bind wpE_seq wpE_get wpE_guard wpE_when wpE_if wpE_ret wpE_throw wpE_lift wpE_liftB wpE_modH

text \<open>The laws of the pool as rules for \<open>wpE\<close>.\<close>

definition get_errors :: "bool \<Rightarrow> exn set" where
  "get_errors mp = {No_buf} \<union> io_errors \<union> (if mp then {} else {Page_pinned})"

definition got :: "(int \<times> int) set \<Rightarrow> int \<Rightarrow> int \<Rightarrow> int \<Rightarrow> bufm \<Rightarrow> bufm \<Rightarrow> bool" where
  "got F f p i b b' \<longleftrightarrow> bm_good F b' \<and> bm_psize b' = bm_psize b \<and> bm_held b' f p i
     \<and> (\<forall>g q d. key_ok g q \<longrightarrow> (g, q) \<noteq> (f, p) \<or> (f, p) \<notin> F \<longrightarrow> view b g q = Some d \<longrightarrow> view b' g q = Some d)
     \<and> (\<forall>g q. bm_in_pool b' g q \<longrightarrow> bm_in_pool b g q \<or> (g, q) = (f, p)) \<and> quiet b b'"

lemma bm_held_ok: "bm_good F b \<Longrightarrow> bm_held b f p i \<Longrightarrow> bm_ok b \<and> hashed b f p i"
  by (simp add: bm_good_def bm_held_def)

lemma wpE_get_page:
  assumes "bm_good F b" "key_ok f p"
    and "\<And>i b'. got F f p i b b' \<Longrightarrow> Q i b'" "\<And>e b'. e \<in> get_errors mp \<Longrightarrow> R e b'"
  shows "wpE (get_page f p mp) Q R b"
proof (rule wpE_runI)
  fix i b' assume r: "get_page f p mp b = (Inr i, b')"
  from bmc.get_law [OF assms(1,2) r] show "Q i b'"
    using bm_held_ok quiet_get r by (intro assms(3)) (simp add: got_def, blast)
next
  fix e b' assume r: "get_page f p mp b = (Inl e, b')"
  have ok: "bm_ok b" using assms(1) by (simp add: bm_good_def)
  have "e \<in> get_errors mp"
  proof (cases rule: hashed_cases [OF ok assms(2)])
    case 1
    from wpE_throwD [OF get_page_miss [OF ok assms(2) 1(1)] r] show ?thesis by (auto simp: get_errors_def)
  next
    case (2 i)
    from wpE_throwD [OF get_page_hit [OF ok 2(2)] r] show ?thesis by (auto simp: get_errors_def io_errors_def)
  qed
  then show "R e b'" by (rule assms(4))
qed

lemma wpE_allocate_page:
  assumes "bm_good F b" "key_ok f p" "\<not> bm_in_pool b f p"
    and "\<And>i b'. got (insert (f, p) F) f p i b b' \<Longrightarrow> Q (Some i) b'" "\<And>e b'. e \<in> get_errors True \<Longrightarrow> R e b'"
  shows "wpE (allocate_page f p) Q R b"
proof (rule wpE_runI)
  fix r b' assume r: "allocate_page f p b = (Inr r, b')"
  from bmc.new_law [OF assms(1-3) r] obtain i where i: "r = Some i" "bm_good (insert (f, p) F) b'" "bm_held b' f p i"
    "quiet b b' \<Longrightarrow> got (insert (f, p) F) f p i b b'"
    unfolding got_def by auto
  then have "quiet b b'" using bm_held_ok quiet_new r by blast
  then show "Q r b'" using assms(4) i by blast
next
  fix e b' assume r: "allocate_page f p b = (Inl e, b')"
  have ok: "bm_ok b" using assms(1) by (simp add: bm_good_def)
  have nf: "ht_find (table b) f p = Inr (-1)"
    by (rule hashed_cases [OF ok assms(2)]) (use assms(3) in \<open>auto simp: bm_in_pool_def\<close>)
  from wpE_throwD [OF allocate_page_miss [OF ok assms(2) nf] r] have "e \<in> get_errors True"
    by (auto simp: get_errors_def)
  then show "R e b'" by (rule assms(5))
qed

lemma held_slot:
  assumes "bm_good F b" "bm_held b f p i"
  shows "slot_ok b i" "length (be_data (ent b i)) = bm_psize b"
proof -
  have h: "bm_ok b" "hashed b f p i" using assms by (auto simp: bm_good_def bm_held_def)
  show "slot_ok b i" using hashed_slot_ok [OF h] .
  then show "length (be_data (ent b i)) = bm_psize b" using bm_inv_data [OF h(1)] by (simp add: bm_psize_def)
qed

lemma wpE_load_int:
  assumes "bm_good F b" "bm_held b f p i" "view b f p = Some d" "off + 4 \<le> bm_psize b"
  shows "wpE (load_int i off) Q R b = Q (dec_int (drop off d)) b"
proof -
  have "d = be_data (ent b i)" using bmc.held_vw [OF assms(1,2)] assms(3) by simp
  then show ?thesis using held_slot [OF assms(1,2)] assms(4)
    by (simp add: load_int_def wpE_bind wpE_entry_at wpE_ret)
qed

text \<open>\<open>wrote F f p i d b b'\<close>: page \<open>(f, p)\<close>, held at \<open>i\<close>, now contains \<open>d\<close>; nothing else changed.\<close>

definition wrote :: "(int \<times> int) set \<Rightarrow> int \<Rightarrow> int \<Rightarrow> int \<Rightarrow> byte list \<Rightarrow> bufm \<Rightarrow> bufm \<Rightarrow> bool" where
  "wrote F f p i d b b' \<longleftrightarrow> bm_good F b' \<and> bm_psize b' = bm_psize b \<and> bm_held b' f p i \<and> view b' f p = Some d
     \<and> (\<forall>g q. key_ok g q \<longrightarrow> (g, q) \<noteq> (f, p) \<longrightarrow> view b' g q = view b g q) \<and> bm_in_pool b' = bm_in_pool b \<and> quiet b b'"

lemma wpE_store_bytes:
  assumes "bm_good F b" "bm_held b f p i" "view b f p = Some d" "off + length bs \<le> bm_psize b"
    and "\<And>b'. wrote (insert (f, p) F) f p i (patch off bs d) b b' \<Longrightarrow> Q () b'"
  shows "wpE (store_bytes i off bs) Q R b"
proof -
  have d: "d = be_data (ent b i)" using bmc.held_vw [OF assms(1,2)] assms(3) by simp
  obtain b' where b': "poke i off bs b = (Inr (), b')" "wrote (insert (f, p) F) f p i (patch off bs d) b b'"
    using bmc.put_law [OF assms(1,2,4)] quiet_ops(1) [of i off bs b] unfolding wrote_def d by blast
  then show ?thesis using held_slot [OF assms(1,2)] assms(4,5)
    by (simp add: store_bytes_def wpE_bind wpE_entry_at) (simp add: wpE_def)
qed

lemma wpE_mark_dirty:
  assumes "bm_good F b" "bm_held b f p i" "view b f p = Some d"
    and "\<And>b'. wrote (F - {(f, p)}) f p i d b b' \<Longrightarrow> Q () b'"
  shows "wpE (mark_dirty f p) Q R b"
proof -
  have k: "key_ok f p" using bmc.held_vw [OF assms(1,2)] by simp
  obtain b' where b': "mark_dirty f p b = (Inr (), b')" "wrote (F - {(f, p)}) f p i d b b'"
    using bmc.dirty_law [OF assms(1,2)] k assms(3) quiet_ops(2) [of f p b] unfolding wrote_def by auto
  then show ?thesis using assms(4) by (simp add: wpE_def)
qed

lemma wpE_unpin_page:
  assumes "bm_good F b" "bm_held b f p i" "(f, p) \<notin> F"
    and "\<And>b'. bm_good F b' \<Longrightarrow> bm_psize b' = bm_psize b \<Longrightarrow> (\<And>g q. key_ok g q \<Longrightarrow> view b' g q = view b g q) \<Longrightarrow>
      bm_in_pool b' = bm_in_pool b \<Longrightarrow> quiet b b' \<Longrightarrow> Q () b'"
  shows "wpE (unpin_page f p) Q R b"
proof -
  obtain b' where "unpin_page f p b = (Inr (), b')" "bm_good F b'" "bm_psize b' = bm_psize b"
      "\<And>g q. key_ok g q \<Longrightarrow> view b' g q = view b g q" "bm_in_pool b' = bm_in_pool b"
    using bmc.unpin_law [OF assms(1-3)] by blast
  then show ?thesis using assms(4) quiet_ops(3) [of f p b] by (simp add: wpE_def)
qed

text \<open>What an operation on the pages of a file leaves alone: other files, and the header block of this one.\<close>

definition aside :: "int \<Rightarrow> bufm \<Rightarrow> bufm \<Rightarrow> bool" where
  "aside f b b' \<longleftrightarrow> quiet b b' \<and> (\<forall>g q d. (g = f \<longrightarrow> q < 0) \<longrightarrow> key_ok g q \<longrightarrow> view b g q = Some d \<longrightarrow> view b' g q = Some d)
     \<and> (\<forall>g q. (g = f \<longrightarrow> q < 0) \<longrightarrow> bm_in_pool b' g q \<longrightarrow> bm_in_pool b g q)"

lemma aside_refl: "aside f b b"
  by (simp add: aside_def quiet_refl)

lemma aside_trans: "aside f b b1 \<Longrightarrow> aside f b1 b2 \<Longrightarrow> aside f b b2"
  unfolding aside_def using quiet_trans by blast

lemma got_aside: "got G f p i b b' \<Longrightarrow> 0 \<le> p \<Longrightarrow> aside f b b'"
  unfolding aside_def got_def by fastforce

lemma wrote_aside: "wrote G f p i d b b' \<Longrightarrow> 0 \<le> p \<Longrightarrow> aside f b b'"
  unfolding aside_def wrote_def by auto

lemma chain_cong: "(\<And>q. q \<in> set ps \<Longrightarrow> n' q = n q) \<Longrightarrow> chain n' h ps = chain n h ps"
  by (induction ps arbitrary: h) auto

lemma chain_head: "chain n h ps \<Longrightarrow> ps = [] \<longleftrightarrow> h = PAGE_LIST_END"
  by (cases ps) auto

lemma fh_invD:
  assumes "fh_inv F free st"
  shows "file_is_open (handle st)" "bm_good F (buf st)" "bm_psize (buf st) = 4096" "(fh_fd (handle st), p) \<notin> F"
    "0 \<le> fh_fd (handle st)" "0 \<le> page_num (handle st)" "fh_fd (handle st) + page_num (handle st) < 2 ^ 31"
    "chain (next_of st) (first_free (handle st)) free" "distinct free" "set free \<subseteq> {0..<page_num (handle st)}"
    "0 \<le> q \<Longrightarrow> q < page_num (handle st) \<Longrightarrow> \<exists>d. content st q = Some d"
    "0 \<le> q \<Longrightarrow> q < page_num (handle st) \<Longrightarrow> q \<notin> set free \<Longrightarrow> next_of st q = Some PAGE_USED"
    "page_num (handle st) \<le> q \<Longrightarrow> \<not> bm_in_pool (buf st) (fh_fd (handle st)) q"
  using assms unfolding fh_inv_def Let_def by auto

lemma fh_key_ok: "fh_inv F free st \<Longrightarrow> 0 \<le> q \<Longrightarrow> q \<le> page_num (handle st) \<Longrightarrow> key_ok (fh_fd (handle st)) q"
  using fh_invD(5,7) [of F free st] by (simp add: key_ok_def)

lemma dec_int_PAGE_USED: "dec_int (enc_int PAGE_USED @ rest) = PAGE_USED"
  by (rule dec_int_enc_int) (simp add: int_range_def PAGE_USED_def)

text \<open>The bytes of a page after \<open>allocate_page\<close>.\<close>

definition blank_page :: "byte list" where
  "blank_page = enc_int PAGE_USED @ replicate 4092 0"

lemma blank_page_patches:
  assumes "length d = 4096"
  shows "patch 4 (replicate (nat DEFAULT_PAGE_SIZE - 4) 0) (patch 0 (enc_int PAGE_USED) d) = blank_page"
proof -
  have n: "nat DEFAULT_PAGE_SIZE - 4 = 4092" by (simp add: DEFAULT_PAGE_SIZE_def)
  show ?thesis unfolding patch_def blank_page_def n using assms
    by (simp add: length_replicate)
qed

lemma dec_int_blank: "dec_int blank_page = PAGE_USED"
  unfolding blank_page_def by (rule dec_int_PAGE_USED)

text \<open>The part of \<open>allocate_page\<close> after the page has been found.\<close>

abbreviation blanking :: "int \<Rightarrow> int \<Rightarrow> page_handle fh" where
  "blanking p i \<equiv> seqE (modH (\<lambda>h. h\<lparr>header_changed := True\<rparr>)) (
     seqE (liftB (store_bytes i 0 (enc_int PAGE_USED))) (
     seqE (liftB (store_bytes i 4 (replicate (nat DEFAULT_PAGE_SIZE - 4) 0))) (
     seqE (fh_mark_dirty p) (retE \<lparr>ph_page = p, ph_slot = i\<rparr>))))"

lemma fh_alloc_tail:
  assumes "bm_good G b" "bm_held b f p i" "bm_psize b = 4096" "insert (f, p) G - {(f, p)} = F"
    and "file_is_open h" "fh_fd h = f" "is_valid_page h p"
    and Q: "\<And>b'. wrote F f p i blank_page b b' \<Longrightarrow>
      Q \<lparr>ph_page = p, ph_slot = i\<rparr> \<lparr>handle = h\<lparr>header_changed := True\<rparr>, buf = b'\<rparr>"
  shows "wpE (blanking p i) Q R \<lparr>handle = h, buf = b\<rparr>"
proof -
  obtain d where d: "view b f p = Some d" "length d = 4096"
    using bmc.held_vw [OF assms(1,2)] bmc.vw_length [OF assms(1)] assms(3) by metis
  let ?z = "replicate (nat DEFAULT_PAGE_SIZE - 4) (0 :: byte)"
  have lz: "4 + length ?z \<le> 4096" by (simp add: DEFAULT_PAGE_SIZE_def)
  have fin: "wpE (mark_dirty f p) (\<lambda>_ b'. Q \<lparr>ph_page = p, ph_slot = i\<rparr> \<lparr>handle = h\<lparr>header_changed := True\<rparr>, buf = b'\<rparr>) R' b2"
    if w1: "wrote (insert (f, p) G) f p i (patch 0 (enc_int PAGE_USED) d) b b1"
      and w2: "wrote (insert (f, p) (insert (f, p) G)) f p i (patch 4 ?z (patch 0 (enc_int PAGE_USED) d)) b1 b2" for b1 b2 R'
  proof (rule wpE_mark_dirty)
    show "bm_good (insert (f, p) G) b2" "bm_held b2 f p i" "view b2 f p = Some blank_page"
      using w2 blank_page_patches [OF d(2)] by (auto simp: wrote_def)
    fix b' assume "wrote (insert (f, p) G - {(f, p)}) f p i blank_page b2 b'"
    then have "wrote F f p i blank_page b b'" using w1 w2 quiet_trans unfolding assms(4) wrote_def by auto
    then show "Q \<lparr>ph_page = p, ph_slot = i\<rparr> \<lparr>handle = h\<lparr>header_changed := True\<rparr>, buf = b'\<rparr>" by (rule Q)
  qed
  have s2: "wpE (store_bytes i 4 ?z) (\<lambda>_ b2. wpE (mark_dirty f p) (\<lambda>_ b'. Q \<lparr>ph_page = p, ph_slot = i\<rparr>
      \<lparr>handle = h\<lparr>header_changed := True\<rparr>, buf = b'\<rparr>) (\<lambda>e b. R e \<lparr>handle = h\<lparr>header_changed := True\<rparr>, buf = b\<rparr>) b2)
      (\<lambda>e b. R e \<lparr>handle = h\<lparr>header_changed := True\<rparr>, buf = b\<rparr>) b1"
    if w1: "wrote (insert (f, p) G) f p i (patch 0 (enc_int PAGE_USED) d) b b1" for b1
    by (rule wpE_store_bytes [of "insert (f, p) G" _ f p _ "patch 0 (enc_int PAGE_USED) d"])
      (use w1 lz assms(3) fin in \<open>auto simp: wrote_def\<close>)
  have "wpE (store_bytes i 0 (enc_int PAGE_USED)) (\<lambda>_ b1. wpE (store_bytes i 4 ?z) (\<lambda>_ b2. wpE (mark_dirty f p)
      (\<lambda>_ b'. Q \<lparr>ph_page = p, ph_slot = i\<rparr> \<lparr>handle = h\<lparr>header_changed := True\<rparr>, buf = b'\<rparr>)
      (\<lambda>e b. R e \<lparr>handle = h\<lparr>header_changed := True\<rparr>, buf = b\<rparr>) b2)
      (\<lambda>e b. R e \<lparr>handle = h\<lparr>header_changed := True\<rparr>, buf = b\<rparr>) b1)
      (\<lambda>e b. R e \<lparr>handle = h\<lparr>header_changed := True\<rparr>, buf = b\<rparr>) b"
    by (rule wpE_store_bytes [OF assms(1,2) d(1)]) (use assms(3) s2 in auto)
  then show ?thesis using assms(5-7)
    by (simp add: fh_wp fh_mark_dirty_def is_valid_page_def)
qed

definition allocated :: "(int \<times> int) set \<Rightarrow> int list \<Rightarrow> fh_state \<Rightarrow> page_handle \<Rightarrow> fh_state \<Rightarrow> bool" where
  "allocated F free st ph st' \<longleftrightarrow> (let h = handle st; p = ph_page ph in
     p = (case free of [] \<Rightarrow> page_num h | q # _ \<Rightarrow> q)
     \<and> fh_inv F (tl free) st' \<and> fh_fd (handle st') = fh_fd h \<and> header_changed (handle st')
     \<and> page_num (handle st') = (if free = [] then page_num h + 1 else page_num h)
     \<and> content st' p = Some blank_page \<and> bm_held (buf st') (fh_fd h) p (ph_slot ph)
     \<and> (\<forall>q. 0 \<le> q \<longrightarrow> q < page_num h \<longrightarrow> q \<noteq> p \<longrightarrow> content st' q = content st q)
     \<and> aside (fh_fd h) (buf st) (buf st'))"

lemma got_content:
  assumes "fh_inv F free st" "got G (fh_fd (handle st)) p i (buf st) b" "0 \<le> q" "q < page_num (handle st)" "q \<noteq> p \<or> G = F"
  shows "view b (fh_fd (handle st)) q = content st q"
proof -
  obtain d where "content st q = Some d" using fh_invD(11) [OF assms(1,3,4)] by blast
  moreover have "key_ok (fh_fd (handle st)) q" using fh_key_ok [OF assms(1,3)] assms(4) by simp
  moreover have "(fh_fd (handle st), p) \<notin> F" using fh_invD(4) [OF assms(1)] .
  ultimately show ?thesis using assms(2,5) unfolding got_def by auto
qed

text \<open>One page rewritten: the invariant follows from what happened to the free list.\<close>

lemma fh_inv_step:
  assumes inv: "fh_inv F free \<lparr>handle = h, buf = b\<rparr>"
    and h': "fh_fd h' = fh_fd h" "file_is_open h'" "page_num h \<le> page_num h'" "fh_fd h + page_num h' < 2 ^ 31"
    and b': "bm_good F b'" "bm_psize b' = 4096" "\<And>q. page_num h' \<le> q \<Longrightarrow> \<not> bm_in_pool b' (fh_fd h) q"
    and old: "\<And>q. 0 \<le> q \<Longrightarrow> q < page_num h \<Longrightarrow> q \<noteq> p \<Longrightarrow> view b' (fh_fd h) q = view b (fh_fd h) q"
    and p: "view b' (fh_fd h) p = Some d" "0 \<le> p" "p < page_num h'" "\<And>q. page_num h \<le> q \<Longrightarrow> q < page_num h' \<Longrightarrow> q = p"
    and fr: "distinct free'" "set free' - {p} = set free - {p}" "p \<notin> set free' \<Longrightarrow> dec_int d = PAGE_USED"
    and ch: "(\<And>q. q \<in> set free' \<Longrightarrow> q \<noteq> p \<Longrightarrow>
        next_of \<lparr>handle = h', buf = b'\<rparr> q = next_of \<lparr>handle = h, buf = b\<rparr> q) \<Longrightarrow>
      chain (next_of \<lparr>handle = h', buf = b'\<rparr>) (first_free h') free'"
  shows "fh_inv F free' \<lparr>handle = h', buf = b'\<rparr>" (is "fh_inv F free' ?st'")
proof -
  note iv = fh_invD [OF inv, simplified]
  have nx: "next_of ?st' q = next_of \<lparr>handle = h, buf = b\<rparr> q" if "0 \<le> q" "q < page_num h" "q \<noteq> p" for q
    using old [OF that] h'(1) by (simp add: next_of_def)
  have fv: "0 \<le> q \<and> q < page_num h" if "q \<in> set free'" "q \<noteq> p" for q
  proof -
    have "q \<in> set free" using fr(2) that by blast
    then show ?thesis using iv(10) by (auto dest!: subsetD [of "set free" _ q])
  qed
  have sub: "0 \<le> q \<and> q < page_num h'" if "q \<in> set free'" for q
    using fv [OF that] p(2,3) h'(3) by (cases "q = p") auto
  have "q \<in> set free' \<Longrightarrow> q \<noteq> p \<Longrightarrow> next_of ?st' q = next_of \<lparr>handle = h, buf = b\<rparr> q" for q
    using nx [of q] fv [of q] by blast
  then have c: "chain (next_of ?st') (first_free h') free'" by (rule ch)
  have v: "view b' (fh_fd h) q \<noteq> None" if "0 \<le> q" "q < page_num h'" for q
  proof (cases "q = p")
    case False
    then have "q < page_num h" using p(4) [of q] that(2) by fastforce
    then show ?thesis using old [OF that(1) _ False] iv(11) [OF that(1)] by simp
  qed (use p(1) in simp)
  have u: "next_of ?st' q = Some PAGE_USED" if q: "0 \<le> q" "q < page_num h'" "q \<notin> set free'" for q
  proof (cases "q = p")
    case True
    then show ?thesis using p(1) fr(3) q(3) h'(1) by (simp add: next_of_def)
  next
    case False
    then have "q < page_num h" "q \<notin> set free" using p(4) [of q] q fr(2) by force+
    then show ?thesis using nx [OF q(1) _ False] iv(12) [OF q(1)] by simp
  qed
  have "set free' \<subseteq> {0..<page_num h'}" using sub by auto
  moreover have "\<forall>q \<in> {0..<page_num h'}. content ?st' q \<noteq> None" using v h'(1) by simp
  moreover have "\<forall>q \<in> {0..<page_num h'} - set free'. next_of ?st' q = Some PAGE_USED" using u by simp
  ultimately show ?thesis unfolding fh_inv_def Let_def using h' b' c fr(1) iv(4,5,6) by simp
qed

lemma fh_allocate_reuse:
  assumes inv: "fh_inv F (p # free) st"
  shows "wpE fh_allocate_page (allocated F (p # free) st) (\<lambda>e _. e \<in> get_errors True) st"
proof -
  obtain h b where st: "st = \<lparr>handle = h, buf = b\<rparr>" by (cases st) simp
  note iv = fh_invD [OF inv, unfolded st, simplified]
  have ff: "first_free h = p" "p \<noteq> PAGE_LIST_END" using iv(8) by auto
  have pv: "0 \<le> p" "p < page_num h" using iv(10) by auto
  have k: "key_ok (fh_fd h) p" using fh_key_ok [OF inv] pv st by simp
  obtain d where d: "view b (fh_fd h) p = Some d" using iv(11) [OF pv] by blast
  have nx: "chain (next_of st) (dec_int d) free" using iv(8) d by (simp add: next_of_def st)
  have fin: "allocated F (p # free) st \<lparr>ph_page = p, ph_slot = i\<rparr>
      \<lparr>handle = h\<lparr>first_free := dec_int d, header_changed := True\<rparr>, buf = b2\<rparr>"
    if g: "got F (fh_fd h) p i b b1" and w: "wrote F (fh_fd h) p i blank_page b1 b2" for i b1 b2
  proof -
    let ?st = "\<lparr>handle = h\<lparr>first_free := dec_int d, header_changed := True\<rparr>, buf = b2\<rparr>"
    have c: "content ?st q = content st q" if "0 \<le> q" "q < page_num h" "q \<noteq> p" for q
    proof -
      have "key_ok (fh_fd h) q" using fh_key_ok [OF inv that(1)] that(2) st by simp
      moreover have "view b1 (fh_fd h) q = content st q" using got_content [OF inv _ that(1), of F p i b1] g that st by simp
      ultimately show ?thesis using w that(3) unfolding wrote_def by simp
    qed
    have cp: "content ?st p = Some blank_page" using w by (simp add: wrote_def)
    have "fh_inv F free ?st"
    proof (rule fh_inv_step [OF inv [unfolded st]])
      show "\<not> bm_in_pool b2 (fh_fd h) q" if "page_num (h\<lparr>first_free := dec_int d, header_changed := True\<rparr>) \<le> q" for q
        using iv(13) [of q] g w pv(2) that unfolding got_def wrote_def by fastforce
      assume "\<And>q. q \<in> set free \<Longrightarrow> q \<noteq> p \<Longrightarrow> next_of ?st q = next_of \<lparr>handle = h, buf = b\<rparr> q"
      then have "next_of ?st q = next_of st q" if "q \<in> set free" for q using that iv(9) st by auto
      then show "chain (next_of ?st) (first_free (h\<lparr>first_free := dec_int d, header_changed := True\<rparr>)) free"
        using chain_cong [of free "next_of ?st" "next_of st"] nx by simp
    qed (use w g iv pv c cp st in \<open>auto simp: wrote_def got_def dec_int_blank\<close>)
    moreover have "aside (fh_fd h) b b2" using got_aside [OF g pv(1)] wrote_aside [OF w pv(1)] by (rule aside_trans)
    ultimately show ?thesis using w cp c st unfolding allocated_def wrote_def by simp
  qed
  have "wpE (get_page (fh_fd h) p True) (\<lambda>i b1. wpE (liftB (load_int i 0)) (\<lambda>nf. wpE (seqE (modH (\<lambda>h. h\<lparr>first_free := nf\<rparr>)) (retE (p, i)))
      (\<lambda>x. wpE (case x of (page, data) \<Rightarrow> blanking page data)
         (allocated F (p # free) st) (\<lambda>e _. e \<in> get_errors True)) (\<lambda>e _. e \<in> get_errors True))
         (\<lambda>e _. e \<in> get_errors True) \<lparr>handle = h, buf = b1\<rparr>) (\<lambda>e _. e \<in> get_errors True) b"
  proof (rule wpE_get_page [OF iv(2) k])
    fix i b1 assume g: "got F (fh_fd h) p i b b1"
    then have g': "bm_good F b1" "bm_held b1 (fh_fd h) p i" "bm_psize b1 = 4096" "view b1 (fh_fd h) p = Some d"
      using iv(3,4) k d by (auto simp: got_def)
    have "wpE (blanking p i)
         (allocated F (p # free) st) (\<lambda>e _. e \<in> get_errors True) \<lparr>handle = h\<lparr>first_free := dec_int d\<rparr>, buf = b1\<rparr>"
      by (rule fh_alloc_tail [OF g'(1-3)]) (use iv(1,4) pv fin [OF g] in \<open>auto simp: is_valid_page_def\<close>)
    then show "wpE (liftB (load_int i 0)) (\<lambda>nf. wpE (seqE (modH (\<lambda>h. h\<lparr>first_free := nf\<rparr>)) (retE (p, i)))
      (\<lambda>x. wpE (case x of (page, data) \<Rightarrow> blanking page data)
         (allocated F (p # free) st) (\<lambda>e _. e \<in> get_errors True)) (\<lambda>e _. e \<in> get_errors True))
         (\<lambda>e _. e \<in> get_errors True) \<lparr>handle = h, buf = b1\<rparr>"
      using wpE_load_int [OF g'(1,2,4), of 0] g'(3)
      by (simp add: wpE_liftB wpE_seq [of "modH _" "retE _"] wpE_modH wpE_ret)
  qed simp
  then show ?thesis using iv(1) ff st
    by (simp add: fh_allocate_page_def fh_take_page_def wpE_bind wpE_get wpE_seq [of "guardE _ _"] wpE_guard wpE_liftB)
qed

lemma fh_allocate_extend:
  assumes inv: "fh_inv F [] st" and room: "fh_fd (handle st) + page_num (handle st) + 1 < 2 ^ 31"
  shows "wpE fh_allocate_page (allocated F [] st) (\<lambda>e _. e \<in> get_errors True) st"
proof -
  obtain h b where st: "st = \<lparr>handle = h, buf = b\<rparr>" by (cases st) simp
  note iv = fh_invD [OF inv, unfolded st, simplified]
  let ?p = "page_num h" and ?h = "h\<lparr>page_num := page_num h + 1\<rparr>" and ?G = "insert (fh_fd h, page_num h) F"
  have k: "key_ok (fh_fd h) ?p" using fh_key_ok [OF inv] iv(6) st by simp
  have ni: "\<not> bm_in_pool b (fh_fd h) ?p" using iv(13) by simp
  have fin: "allocated F [] st \<lparr>ph_page = ?p, ph_slot = i\<rparr> \<lparr>handle = ?h\<lparr>header_changed := True\<rparr>, buf = b2\<rparr>"
    if g: "got ?G (fh_fd h) ?p i b b1" and w: "wrote F (fh_fd h) ?p i blank_page b1 b2" for i b1 b2
  proof -
    let ?st = "\<lparr>handle = ?h\<lparr>header_changed := True\<rparr>, buf = b2\<rparr>"
    have c: "content ?st q = content st q" if "0 \<le> q" "q < page_num h" for q
    proof -
      have "key_ok (fh_fd h) q" using fh_key_ok [OF inv that(1)] that(2) st by simp
      moreover have "view b1 (fh_fd h) q = content st q" using got_content [OF inv _ that(1), of ?G ?p i b1] g that st by simp
      ultimately show ?thesis using w that(2) unfolding wrote_def by simp
    qed
    have cp: "content ?st ?p = Some blank_page" using w by (simp add: wrote_def)
    have "fh_inv F [] ?st"
    proof (rule fh_inv_step [OF inv [unfolded st]])
      show "\<not> bm_in_pool b2 (fh_fd h) q" if "page_num (?h\<lparr>header_changed := True\<rparr>) \<le> q" for q
        using iv(13) [of q] g w that unfolding got_def wrote_def by fastforce
    qed (use w g iv room c cp st in \<open>auto simp: wrote_def got_def dec_int_blank\<close>)
    moreover have "aside (fh_fd h) b b2" using got_aside [OF g iv(6)] wrote_aside [OF w iv(6)] by (rule aside_trans)
    ultimately show ?thesis using w cp c st unfolding allocated_def wrote_def by simp
  qed
  have ir: "c_int (page_num h + 1) = Inr (page_num h + 1)" using iv(5,6) room st by (simp add: c_int_def int_range_def)
  have "wpE (allocate_page (fh_fd h) ?p) (\<lambda>r b1. wpE (bindE (liftE (\<lambda>_. c_int (page_num h + 1))) (\<lambda>n.
       seqE (modH (\<lambda>h. h\<lparr>page_num := n\<rparr>))
         (case r of None \<Rightarrow> throwE Undefined_behaviour | Some slot \<Rightarrow> retE (page_num h, slot))))
       (\<lambda>x. wpE (case x of (page, data) \<Rightarrow> blanking page data) (allocated F [] st) (\<lambda>e _. e \<in> get_errors True))
       (\<lambda>e _. e \<in> get_errors True) \<lparr>handle = h, buf = b1\<rparr>) (\<lambda>e _. e \<in> get_errors True) b"
  proof (rule wpE_allocate_page [OF iv(2) k ni])
    fix i b1 assume g: "got ?G (fh_fd h) ?p i b b1"
    then have g': "bm_good ?G b1" "bm_held b1 (fh_fd h) ?p i" "bm_psize b1 = 4096" using iv(3) by (auto simp: got_def)
    have "wpE (blanking ?p i) (allocated F [] st) (\<lambda>e _. e \<in> get_errors True) \<lparr>handle = ?h, buf = b1\<rparr>"
      by (rule fh_alloc_tail [OF g']) (use iv(1,4,6) fin [OF g] in \<open>auto simp: is_valid_page_def\<close>)
    then show "wpE (bindE (liftE (\<lambda>_. c_int (page_num h + 1))) (\<lambda>n. seqE (modH (\<lambda>h. h\<lparr>page_num := n\<rparr>))
         (case Some i of None \<Rightarrow> throwE Undefined_behaviour | Some slot \<Rightarrow> retE (page_num h, slot))))
       (\<lambda>x. wpE (case x of (page, data) \<Rightarrow> blanking page data) (allocated F [] st) (\<lambda>e _. e \<in> get_errors True))
       (\<lambda>e _. e \<in> get_errors True) \<lparr>handle = h, buf = b1\<rparr>"
      by (simp add: wpE_bind wpE_lift ir wpE_seq [of "modH _" "retE _"] wpE_modH wpE_ret)
  qed simp
  moreover have "first_free h = PAGE_LIST_END" using iv(8) by simp
  ultimately show ?thesis using iv(1) st
    by (simp add: fh_allocate_page_def fh_take_page_def wpE_bind [of _ "\<lambda>x. case x of (page, data) \<Rightarrow> blanking page data"]
        wpE_bind [of "getE _"] wpE_bind [of "liftB _"] wpE_get wpE_seq [of "guardE _ _"] wpE_guard wpE_liftB
        cong: option.case_cong)
qed

lemma fh_allocate_spec:
  assumes "fh_inv F free st" "fh_fd (handle st) + page_num (handle st) + 1 < 2 ^ 31"
  shows "wpE fh_allocate_page (allocated F free st) (\<lambda>e _. e \<in> get_errors True) st"
  using fh_allocate_reuse fh_allocate_extend assms by (cases free) blast+

lemma fh_inv_same:
  assumes inv: "fh_inv F free \<lparr>handle = h, buf = b\<rparr>" and b': "bm_good F b'" "bm_psize b' = 4096"
    and old: "\<And>q. 0 \<le> q \<Longrightarrow> q < page_num h \<Longrightarrow> view b' (fh_fd h) q = view b (fh_fd h) q"
    and ni: "\<And>q. page_num h \<le> q \<Longrightarrow> \<not> bm_in_pool b' (fh_fd h) q"
  shows "fh_inv F free \<lparr>handle = h, buf = b'\<rparr>" (is "fh_inv F free ?st'")
proof -
  let ?st = "\<lparr>handle = h, buf = b\<rparr>"
  note iv = fh_invD [OF inv, simplified]
  have nx: "next_of ?st' q = next_of ?st q" if "0 \<le> q" "q < page_num h" for q
    using old [OF that] by (simp add: next_of_def)
  have "next_of ?st' q = next_of ?st q" if "q \<in> set free" for q
    using nx [of q] subsetD [OF iv(10) that] by simp
  then have "chain (next_of ?st') (first_free h) free"
    using chain_cong [of free "next_of ?st'" "next_of ?st"] iv(8) by simp
  moreover have "\<forall>q \<in> {0..<page_num h}. content ?st' q \<noteq> None" using old iv(11) by fastforce
  moreover have "\<forall>q \<in> {0..<page_num h} - set free. next_of ?st' q = Some PAGE_USED" using nx iv(12) by simp
  ultimately show ?thesis unfolding fh_inv_def Let_def using iv(1,4-7,9,10) b' ni by simp
qed

lemma chain_next:
  assumes "chain n h ps" "p \<in> set ps" "\<forall>q \<in> set ps. 0 \<le> q"
  shows "\<exists>q. n p = Some q \<and> q \<noteq> PAGE_USED"
  using assms
proof (induction ps arbitrary: h)
  case (Cons a ps)
  then obtain q where q: "n a = Some q" "chain n q ps" by auto
  show ?case
  proof (cases "p = a")
    case True
    have "q \<noteq> PAGE_USED" using q(2) Cons.prems(3)
      by (cases ps) (auto simp: PAGE_USED_def PAGE_LIST_END_def)
    then show ?thesis using q(1) True by blast
  next
    case False
    then show ?thesis using Cons.IH [OF q(2)] Cons.prems by auto
  qed
qed simp

lemma next_of_free_iff:
  assumes "fh_inv F free st" "0 \<le> p" "p < page_num (handle st)" "content st p = Some d"
  shows "dec_int d = PAGE_USED \<longleftrightarrow> p \<notin> set free"
proof -
  have n: "next_of st p = Some (dec_int d)" using assms(4) by (simp add: next_of_def)
  have "\<forall>q \<in> set free. 0 \<le> q" using fh_invD(10) [OF assms(1)] by auto
  then show ?thesis
    using chain_next [OF fh_invD(8) [OF assms(1)]] fh_invD(12) [OF assms(1-3)] n by fastforce
qed

definition same_pages :: "int list \<Rightarrow> (int \<times> int) set \<Rightarrow> fh_state \<Rightarrow> fh_state \<Rightarrow> bool" where
  "same_pages free F st st' \<longleftrightarrow> fh_inv F free st' \<and> handle st' = handle st
     \<and> (\<forall>q. 0 \<le> q \<longrightarrow> q < page_num (handle st) \<longrightarrow> content st' q = content st q)
     \<and> aside (fh_fd (handle st)) (buf st) (buf st')"

lemma got_same:
  assumes inv: "fh_inv F free \<lparr>handle = h, buf = b\<rparr>" and p: "0 \<le> p" "p < page_num h"
    and g: "got F (fh_fd h) p i b b'"
  shows "same_pages free F \<lparr>handle = h, buf = b\<rparr> \<lparr>handle = h, buf = b'\<rparr>"
proof -
  note iv = fh_invD [OF inv, simplified]
  have v: "view b' (fh_fd h) q = view b (fh_fd h) q" if "0 \<le> q" "q < page_num h" for q
    using got_content [OF inv, of F p i b' q] g that by simp
  have "fh_inv F free \<lparr>handle = h, buf = b'\<rparr>"
  proof (rule fh_inv_same [OF inv _ _ v])
    show "\<not> bm_in_pool b' (fh_fd h) q" if "page_num h \<le> q" for q
      using iv(13) [OF that] g that p unfolding got_def by fastforce
  qed (use g iv(3) in \<open>auto simp: got_def\<close>)
  then show ?thesis using v got_aside [OF g p(1)] by (simp add: same_pages_def)
qed

text \<open>Letting go of a page.\<close>

lemma wpE_fh_unpin:
  assumes inv: "fh_inv F free \<lparr>handle = h, buf = b\<rparr>" and p: "0 \<le> p" "p < page_num h" and hd: "bm_held b (fh_fd h) p i"
    and Q: "\<And>b'. same_pages free F \<lparr>handle = h, buf = b\<rparr> \<lparr>handle = h, buf = b'\<rparr> \<Longrightarrow> Q () \<lparr>handle = h, buf = b'\<rparr>"
  shows "wpE (fh_unpin_page p) Q R \<lparr>handle = h, buf = b\<rparr>"
proof -
  note iv = fh_invD [OF inv, simplified]
  have "wpE (unpin_page (fh_fd h) p) (\<lambda>_ b'. Q () \<lparr>handle = h, buf = b'\<rparr>) R' b" for R'
  proof (rule wpE_unpin_page [OF iv(2) hd iv(4)])
    fix b' assume u: "bm_good F b'" "bm_psize b' = bm_psize b" "\<And>g q. key_ok g q \<Longrightarrow> view b' g q = view b g q"
      "bm_in_pool b' = bm_in_pool b" "quiet b b'"
    have v: "view b' (fh_fd h) q = view b (fh_fd h) q" if "0 \<le> q" "q < page_num h" for q
      using u(3) fh_key_ok [OF inv that(1)] that(2) by simp
    have "fh_inv F free \<lparr>handle = h, buf = b'\<rparr>"
      using fh_inv_same [OF inv u(1) _ v] u(2,4) iv(3,13) by simp
    then show "Q () \<lparr>handle = h, buf = b'\<rparr>" using v u(3-5) by (intro Q) (simp add: same_pages_def aside_def)
  qed
  then show ?thesis using iv(1) p by (simp add: fh_unpin_page_def fh_wp is_valid_page_def)
qed

lemma get_this_page_spec:
  assumes inv: "fh_inv F free st" and p: "0 \<le> p" "p < page_num (handle st)"
  shows "wpE (get_this_page p)
    (\<lambda>ph st'. p \<notin> set free \<and> ph_page ph = p \<and> same_pages free F st st' \<and> bm_held (buf st') (fh_fd (handle st)) p (ph_slot ph))
    (\<lambda>e st'. e \<in> get_errors True \<or> e = Invalid_page \<and> p \<in> set free \<and> same_pages free F st st') st"
proof -
  obtain h b where st: "st = \<lparr>handle = h, buf = b\<rparr>" by (cases st) simp
  note inv' = inv [unfolded st] and p' = p [unfolded st, simplified]
  note iv = fh_invD [OF inv', simplified]
  have k: "key_ok (fh_fd h) p" using fh_key_ok [OF inv'] p' by simp
  obtain d where d: "view b (fh_fd h) p = Some d" using iv(11) [OF p'] by blast
  have u: "dec_int d = -2 \<longleftrightarrow> p \<notin> set free" using next_of_free_iff [OF inv' _ _] p' d by (simp add: PAGE_USED_def)
  let ?Q = "\<lambda>ph st'. p \<notin> set free \<and> ph_page ph = p \<and> same_pages free F st st' \<and> bm_held (buf st') (fh_fd (handle st)) p (ph_slot ph)"
  let ?R = "\<lambda>e st'. e \<in> get_errors True \<or> e = Invalid_page \<and> p \<in> set free \<and> same_pages free F st st'"
  have "wpE (get_page (fh_fd h) p True) (\<lambda>i b1. wpE (load_int i 0) (\<lambda>nf b1. wpE (if nf = -2 then retE \<lparr>ph_page = p, ph_slot = i\<rparr>
      else seqE (fh_unpin_page p) (throwE Invalid_page)) ?Q ?R \<lparr>handle = h, buf = b1\<rparr>) (\<lambda>e b. ?R e \<lparr>handle = h, buf = b\<rparr>) b1)
      (\<lambda>e b. ?R e \<lparr>handle = h, buf = b\<rparr>) b"
  proof (rule wpE_get_page [OF iv(2) k])
    fix i b1 assume g: "got F (fh_fd h) p i b b1"
    have sp: "same_pages free F st \<lparr>handle = h, buf = b1\<rparr>" using got_same [OF inv' p' g] st by simp
    have g': "bm_good F b1" "bm_held b1 (fh_fd h) p i" "view b1 (fh_fd h) p = Some d" "0 + 4 \<le> bm_psize b1"
      using g iv(3,4) k d by (auto simp: got_def)
    have i1: "fh_inv F free \<lparr>handle = h, buf = b1\<rparr>" using sp unfolding same_pages_def by blast
    have "wpE (fh_unpin_page p) (\<lambda>_ st'. ?R Invalid_page st') ?R \<lparr>handle = h, buf = b1\<rparr>" if "p \<in> set free"
      by (rule wpE_fh_unpin [OF i1 p' g'(2)]) (use that sp st in \<open>auto simp: same_pages_def intro: aside_trans\<close>)
    then show "wpE (load_int i 0) (\<lambda>nf b1. wpE (if nf = -2 then retE \<lparr>ph_page = p, ph_slot = i\<rparr>
      else seqE (fh_unpin_page p) (throwE Invalid_page)) ?Q ?R \<lparr>handle = h, buf = b1\<rparr>) (\<lambda>e b. ?R e \<lparr>handle = h, buf = b\<rparr>) b1"
      using wpE_load_int [OF g'] sp u g'(2) st by (auto simp: wpE_ret wpE_seq_throw)
  qed simp
  then show ?thesis using iv(1) p' st
    by (simp add: get_this_page_def wpE_bind wpE_get wpE_seq [of "guardE _ _"] wpE_guard wpE_liftB is_valid_page_def)
qed

definition disposed :: "(int \<times> int) set \<Rightarrow> int list \<Rightarrow> int \<Rightarrow> fh_state \<Rightarrow> fh_state \<Rightarrow> bool" where
  "disposed F free p st st' \<longleftrightarrow> fh_inv F (p # free) st' \<and> fh_fd (handle st') = fh_fd (handle st)
     \<and> page_num (handle st') = page_num (handle st)
     \<and> (\<forall>q. 0 \<le> q \<longrightarrow> q < page_num (handle st) \<longrightarrow> q \<noteq> p \<longrightarrow> content st' q = content st q)
     \<and> map_option (drop 4) (content st' p) = map_option (drop 4) (content st p) \<and> aside (fh_fd (handle st)) (buf st) (buf st')"

text \<open>The part of \<open>dispose_page\<close> after the check of the page header.\<close>

abbreviation disposing :: "int \<Rightarrow> int \<Rightarrow> int \<Rightarrow> unit fh" where
  "disposing ff p i \<equiv> seqE (liftB (store_bytes i 0 (enc_int ff))) (
     seqE (modH (\<lambda>h. h\<lparr>first_free := p, header_changed := True\<rparr>)) (
     seqE (fh_mark_dirty p) (fh_unpin_page p)))"

lemma dispose_tail:
  assumes inv: "fh_inv F free \<lparr>handle = h, buf = b\<rparr>" and p: "0 \<le> p" "p < page_num h" "p \<notin> set free"
    and hd: "bm_held b (fh_fd h) p i"
  shows "wpE (disposing (first_free h) p i) (\<lambda>_. disposed F free p \<lparr>handle = h, buf = b\<rparr>) R \<lparr>handle = h, buf = b\<rparr>"
proof -
  note iv = fh_invD [OF inv, simplified]
  let ?h = "h\<lparr>first_free := p, header_changed := True\<rparr>" and ?st = "\<lparr>handle = h, buf = b\<rparr>"
  obtain d where d: "view b (fh_fd h) p = Some d" using iv(11) [OF p(1,2)] by blast
  let ?d = "patch 0 (enc_int (first_free h)) d"
  have ff: "int_range (first_free h)"
  proof (cases free)
    case Nil
    then show ?thesis using iv(8) by (simp add: PAGE_LIST_END_def int_range_def)
  next
    case (Cons q qs)
    then have "first_free h = q" "0 \<le> q" "q < page_num h" using iv(8,10) by auto
    then show ?thesis using iv(5,7) by (simp add: int_range_def)
  qed
  have dd: "dec_int ?d = first_free h" using ff by (simp add: patch_def)
  have fin: "wpE (fh_unpin_page p) (\<lambda>_. disposed F free p ?st) R \<lparr>handle = ?h, buf = b2\<rparr>"
    if w: "wrote F (fh_fd h) p i ?d b b2" for b2
  proof -
    have v: "view b2 (fh_fd h) q = view b (fh_fd h) q" if "0 \<le> q" "q < page_num h" "q \<noteq> p" for q
      using w fh_key_ok [OF inv that(1)] that unfolding wrote_def by simp
    have i2: "fh_inv F (p # free) \<lparr>handle = ?h, buf = b2\<rparr>"
    proof (rule fh_inv_step [OF inv])
      show "view b2 (fh_fd h) p = Some ?d" using w by (simp add: wrote_def)
      show "\<not> bm_in_pool b2 (fh_fd h) q" if "page_num ?h \<le> q" for q
        using iv(13) [of q] that w unfolding wrote_def by simp
      assume n: "\<And>q. q \<in> set (p # free) \<Longrightarrow> q \<noteq> p \<Longrightarrow> next_of \<lparr>handle = ?h, buf = b2\<rparr> q = next_of ?st q"
      have "next_of \<lparr>handle = ?h, buf = b2\<rparr> q = next_of ?st q" if "q \<in> set free" for q
        using n [of q] that p(3) by auto
      then have "chain (next_of \<lparr>handle = ?h, buf = b2\<rparr>) (first_free h) free"
        using chain_cong [of free "next_of \<lparr>handle = ?h, buf = b2\<rparr>" "next_of ?st"] iv(8) by simp
      moreover have "next_of \<lparr>handle = ?h, buf = b2\<rparr> p = Some (first_free h)"
        using w dd by (simp add: next_of_def wrote_def)
      ultimately show "chain (next_of \<lparr>handle = ?h, buf = b2\<rparr>) (first_free ?h) (p # free)"
        using p(1) by (simp add: PAGE_LIST_END_def)
    qed (use w iv p v in \<open>auto simp: wrote_def\<close>)
    have hd2: "bm_held b2 (fh_fd ?h) p i" using w by (simp add: wrote_def)
    have dp: "map_option (drop 4) (view b2 (fh_fd h) p) = map_option (drop 4) (view b (fh_fd h) p)"
      using w d by (simp add: wrote_def patch_def)
    show ?thesis
      by (rule wpE_fh_unpin [OF i2 _ _ hd2])
        (use p v dp wrote_aside [OF w p(1)] in \<open>auto simp: same_pages_def disposed_def intro: aside_trans\<close>)
  qed
  have md: "wpE (fh_mark_dirty p) (\<lambda>_. wpE (fh_unpin_page p) (\<lambda>_. disposed F free p ?st) R) R \<lparr>handle = ?h, buf = b1\<rparr>"
    if w: "wrote (insert (fh_fd h, p) F) (fh_fd h) p i ?d b b1" for b1
  proof -
    have g: "bm_good (insert (fh_fd h, p) F) b1" "bm_held b1 (fh_fd h) p i" "view b1 (fh_fd h) p = Some ?d"
      using w by (auto simp: wrote_def)
    have F: "insert (fh_fd h, p) F - {(fh_fd h, p)} = F" using iv(4) by simp
    have "wpE (mark_dirty (fh_fd h) p) (\<lambda>_ b2. wpE (fh_unpin_page p) (\<lambda>_. disposed F free p ?st) R \<lparr>handle = ?h, buf = b2\<rparr>) R' b1" for R'
    proof (rule wpE_mark_dirty [OF g])
      fix b2 assume "wrote (insert (fh_fd h, p) F - {(fh_fd h, p)}) (fh_fd h) p i ?d b1 b2"
      then have "wrote F (fh_fd h) p i ?d b b2" using w quiet_trans unfolding F wrote_def by auto
      then show "wpE (fh_unpin_page p) (\<lambda>_. disposed F free p ?st) R \<lparr>handle = ?h, buf = b2\<rparr>" by (rule fin)
    qed
    then show ?thesis using iv(1) p by (simp add: fh_mark_dirty_def fh_wp is_valid_page_def)
  qed
  have "wpE (store_bytes i 0 (enc_int (first_free h))) (\<lambda>_ b1. wpE (fh_mark_dirty p) (\<lambda>_. wpE (fh_unpin_page p)
      (\<lambda>_. disposed F free p ?st) R) R \<lparr>handle = ?h, buf = b1\<rparr>) R' b" for R'
    by (rule wpE_store_bytes [OF iv(2) hd d]) (use md iv(3) in auto)
  then show ?thesis by (simp add: wpE_seq wpE_liftB wpE_modH)
qed

lemma dispose_page_spec:
  assumes inv: "fh_inv F free st" and p: "0 \<le> p" "p < page_num (handle st)"
  shows "wpE (dispose_page p) (\<lambda>_ st'. p \<notin> set free \<and> disposed F free p st st')
    (\<lambda>e st'. e \<in> get_errors False \<or> e = Page_already_free \<and> p \<in> set free \<and> same_pages free F st st') st"
proof -
  obtain h b where st: "st = \<lparr>handle = h, buf = b\<rparr>" by (cases st) simp
  note inv' = inv [unfolded st] and p' = p [unfolded st, simplified]
  note iv = fh_invD [OF inv', simplified]
  have k: "key_ok (fh_fd h) p" using fh_key_ok [OF inv'] p' by simp
  obtain d where d: "view b (fh_fd h) p = Some d" using iv(11) [OF p'] by blast
  have u: "dec_int d = PAGE_USED \<longleftrightarrow> p \<notin> set free" using next_of_free_iff [OF inv' _ _] p' d by simp
  let ?Q = "\<lambda>_ st'. p \<notin> set free \<and> disposed F free p st st'"
  let ?R = "\<lambda>e st'. e \<in> get_errors False \<or> e = Page_already_free \<and> p \<in> set free \<and> same_pages free F st st'"
  let ?rest = "\<lambda>nf i. seqE (whenE (nf \<noteq> PAGE_USED) (seqE (fh_unpin_page p) (throwE Page_already_free))) (disposing (first_free h) p i)"
  have "wpE (get_page (fh_fd h) p False) (\<lambda>i b1. wpE (load_int i 0) (\<lambda>nf b1. wpE (?rest nf i) ?Q ?R \<lparr>handle = h, buf = b1\<rparr>)
      (\<lambda>e b. ?R e \<lparr>handle = h, buf = b\<rparr>) b1) (\<lambda>e b. ?R e \<lparr>handle = h, buf = b\<rparr>) b"
  proof (rule wpE_get_page [OF iv(2) k])
    fix i b1 assume g: "got F (fh_fd h) p i b b1"
    have sp: "same_pages free F st \<lparr>handle = h, buf = b1\<rparr>" using got_same [OF inv' p' g] st by simp
    have g': "bm_good F b1" "bm_held b1 (fh_fd h) p i" "view b1 (fh_fd h) p = Some d" "0 + 4 \<le> bm_psize b1"
      using g iv(3,4) k d by (auto simp: got_def)
    have i1: "fh_inv F free \<lparr>handle = h, buf = b1\<rparr>" using sp unfolding same_pages_def by blast
    have "wpE (fh_unpin_page p) (\<lambda>_ st'. ?R Page_already_free st') ?R \<lparr>handle = h, buf = b1\<rparr>" if "p \<in> set free"
      by (rule wpE_fh_unpin [OF i1 p' g'(2)]) (use that sp st in \<open>auto simp: same_pages_def intro: aside_trans\<close>)
    then have "wpE (?rest (dec_int d) i) ?Q ?R \<lparr>handle = h, buf = b1\<rparr>" if "p \<in> set free"
      using that u by (simp add: wpE_seq [of "whenE _ _"] wpE_when wpE_seq_throw)
    moreover have "wpE (?rest (dec_int d) i) ?Q ?R \<lparr>handle = h, buf = b1\<rparr>" if n: "p \<notin> set free"
    proof -
      have "wpE (disposing (first_free h) p i) ?Q ?R \<lparr>handle = h, buf = b1\<rparr>"
        using dispose_tail [OF i1 p' n g'(2), of ?R]
        by (rule wpE_mono) (use n sp st p' in \<open>auto simp: disposed_def same_pages_def intro: aside_trans\<close>)
      then show ?thesis using n u by (simp add: wpE_seq [of "whenE _ _"] wpE_when)
    qed
    ultimately show "wpE (load_int i 0) (\<lambda>nf b1. wpE (?rest nf i) ?Q ?R \<lparr>handle = h, buf = b1\<rparr>)
      (\<lambda>e b. ?R e \<lparr>handle = h, buf = b\<rparr>) b1"
      unfolding wpE_load_int [OF g'] drop_0 by blast
  qed simp
  then show ?thesis using iv(1) p' st
    by (simp add: dispose_page_def wpE_bind wpE_get wpE_seq [of "guardE _ _"] wpE_guard wpE_liftB is_valid_page_def)
qed

section \<open>A file for the examples\<close>

text \<open>A pool of pages of 4096 bytes and an open file with one page, which is in use.\<close>

definition demo_header :: "byte list" where
  "demo_header = enc_int PAGE_LIST_END @ enc_int 1 @ replicate 4088 0"

definition file_os :: posix where
  "file_os = \<lparr>px_names = [''f'' \<mapsto> 0], px_data = (\<lambda>_. demo_header @ blank_page),
     px_fds = [3 \<mapsto> (0, 0)], px_room = 100000, px_nexti = 1, px_maxfd = 16\<rparr>"

definition file_pool :: bufm where
  "file_pool = (case mk_bufm 2 4096 (\<lambda>_. demo_junk) file_os of Inr s \<Rightarrow> s | Inl _ \<Rightarrow> undefined)"

definition demo_file :: fh_state where
  "demo_file = \<lparr>handle = \<lparr>fh_fd = 3, first_free = -1, page_num = 1, file_is_open = True, header_changed = False\<rparr>,
     buf = file_pool\<rparr>"

lemma file_pool_ok:
  "bm_good F file_pool" "bm_psize file_pool = 4096" "\<not> bm_in_pool file_pool f p" "os file_pool = file_os"
  "buffer_size file_pool = 4096" "no_stale 3 file_pool"
proof -
  obtain h where "mk_hash_table HASH_TABLE_SIZE = Inr h"
    using mk_hash_table_ok [of HASH_TABLE_SIZE] by (auto simp: HASH_TABLE_SIZE_def)
  then have m: "mk_bufm 2 4096 (\<lambda>_. demo_junk) file_os = Inr file_pool" by (simp add: mk_bufm_def file_pool_def)
  have "fds_inj file_os" by (auto simp: fds_inj_def file_os_def split: if_splits)
  note ok = mk_bufm_ok [OF m this]
  show "bm_good F file_pool" "bm_psize file_pool = 4096" "\<not> bm_in_pool file_pool f p" "os file_pool = file_os"
    "buffer_size file_pool = 4096" "no_stale 3 file_pool"
    using ok by (simp_all add: bm_good_def bm_psize_def bm_in_pool_def demo_junk_def)
qed

lemma file_pool_view: "view file_pool 3 0 = Some blank_page" "view file_pool 3 (-1) = Some demo_header"
proof -
  have b: "bm_ok file_pool" using file_pool_ok(1) by (simp add: bm_good_def)
  have l: "length blank_page = 4096" "length demo_header = 4096" by (simp_all add: blank_page_def demo_header_def)
  have nh: "\<forall>i. \<not> hashed file_pool f p i" for f p using file_pool_ok(3) by (simp add: bm_in_pool_def)
  have "view file_pool 3 p = disk_page file_pool 3 p" if "p \<in> {0, -1}" for p
    using that by (intro view_disk [OF b]) (auto simp: key_ok_def nh)
  then show "view file_pool 3 0 = Some blank_page" "view file_pool 3 (-1) = Some demo_header"
    using l by (simp_all add: disk_page_def file_pool_ok(4,5) fd_block_def block_def file_os_def)
qed

lemma demo_file_inv: "fh_inv {} [] demo_file"
proof -
  have "{0..<1 :: int} = {0}" by auto
  then show ?thesis using file_pool_ok(1-3)
    by (simp add: fh_inv_def demo_file_def PAGE_LIST_END_def next_of_def file_pool_view dec_int_blank)
qed

section \<open>Properties\<close>

text \<open>\<open>allocate_page\<close> returns the first free page, or the page after the last when there is none.
  The page is zeroed, marked used and pinned at the address of the handle; no other page of the
  file changes; the free list has lost exactly that page.  The only exceptions are those of the
  pool: no buffer, or an I/O error.\<close>

theorem fh_allocate_page_correct:
  assumes "fh_inv F free st" "fh_fd (handle st) + page_num (handle st) + 1 < 2 ^ 31"
  shows "case fh_allocate_page st of (Inr ph, st') \<Rightarrow> allocated F free st ph st' | (Inl e, _) \<Rightarrow> e \<in> get_errors True"
  using fh_allocate_spec [OF assms] unfolding wpE_def .

theorem fh_allocate_page_correct_witness:
  "fh_inv {} [] demo_file \<and> (case fh_allocate_page demo_file of
     (Inr ph, st') \<Rightarrow> allocated {} [] demo_file ph st' | (Inl e, _) \<Rightarrow> e \<in> get_errors True)"
  using fh_allocate_page_correct [OF demo_file_inv] demo_file_inv by (simp add: demo_file_def)

text \<open>\<open>get_this_page\<close> on a page of the file: it returns a used page pinned and changes no contents;
  a page on the free list is refused, unpinned again, and the file is as before.\<close>

theorem get_this_page_correct:
  assumes "fh_inv F free st" "0 \<le> p" "p < page_num (handle st)"
  shows "case get_this_page p st of
      (Inr ph, st') \<Rightarrow> p \<notin> set free \<and> ph_page ph = p \<and> same_pages free F st st'
        \<and> bm_held (buf st') (fh_fd (handle st)) p (ph_slot ph)
    | (Inl e, st') \<Rightarrow> e \<in> get_errors True \<or> e = Invalid_page \<and> p \<in> set free \<and> same_pages free F st st'"
  using get_this_page_spec [OF assms] unfolding wpE_def .

theorem get_this_page_correct_witness:
  "fh_inv {} [] demo_file \<and> (case get_this_page 0 demo_file of
      (Inr ph, st') \<Rightarrow> 0 \<notin> set ([] :: int list) \<and> ph_page ph = 0 \<and> same_pages [] {} demo_file st'
        \<and> bm_held (buf st') (fh_fd (handle demo_file)) 0 (ph_slot ph)
    | (Inl e, st') \<Rightarrow> e \<in> get_errors True \<or> e = Invalid_page \<and> 0 \<in> set ([] :: int list) \<and> same_pages [] {} demo_file st')"
  using get_this_page_correct [OF demo_file_inv, of 0] demo_file_inv by (simp add: demo_file_def)

text \<open>The free list is a stack of pages: a used page that is disposed of becomes its head, disposing
  of it again is refused and harmless, and the next allocation hands out that very page, blank,
  and restores the previous free list.\<close>

theorem disposed_page_reused:
  assumes "fh_inv F free st" "0 \<le> p" "p < page_num (handle st)" "fh_fd (handle st) + page_num (handle st) + 1 < 2 ^ 31"
  shows "case dispose_page p st of
      (Inr _, st1) \<Rightarrow> p \<notin> set free \<and> fh_inv F (p # free) st1 \<and>
        (case fh_allocate_page st1 of
           (Inr ph, st2) \<Rightarrow> ph_page ph = p \<and> content st2 p = Some blank_page \<and> fh_inv F free st2
             \<and> (\<forall>q. 0 \<le> q \<longrightarrow> q < page_num (handle st) \<longrightarrow> q \<noteq> p \<longrightarrow> content st2 q = content st q)
         | (Inl e, _) \<Rightarrow> e \<in> get_errors True)
    | (Inl e, st1) \<Rightarrow> e \<in> get_errors False \<or> e = Page_already_free \<and> p \<in> set free \<and> same_pages free F st st1"
proof -
  have "wpE (dispose_page p) (\<lambda>_ st1. p \<notin> set free \<and> fh_inv F (p # free) st1 \<and>
      wpE fh_allocate_page (\<lambda>ph st2. ph_page ph = p \<and> content st2 p = Some blank_page \<and> fh_inv F free st2
             \<and> (\<forall>q. 0 \<le> q \<longrightarrow> q < page_num (handle st) \<longrightarrow> q \<noteq> p \<longrightarrow> content st2 q = content st q))
        (\<lambda>e _. e \<in> get_errors True) st1)
    (\<lambda>e st1. e \<in> get_errors False \<or> e = Page_already_free \<and> p \<in> set free \<and> same_pages free F st st1) st"
    using dispose_page_spec [OF assms(1-3)]
  proof (rule wpE_mono)
    fix st1 assume d: "p \<notin> set free \<and> disposed F free p st st1"
    then have i1: "fh_inv F (p # free) st1" "fh_fd (handle st1) = fh_fd (handle st)" "page_num (handle st1) = page_num (handle st)"
      by (auto simp: disposed_def)
    have r: "fh_fd (handle st1) + page_num (handle st1) + 1 < 2 ^ 31" using assms(4) i1 by simp
    have "wpE fh_allocate_page (\<lambda>ph st2. ph_page ph = p \<and> content st2 p = Some blank_page \<and> fh_inv F free st2
             \<and> (\<forall>q. 0 \<le> q \<longrightarrow> q < page_num (handle st) \<longrightarrow> q \<noteq> p \<longrightarrow> content st2 q = content st q))
        (\<lambda>e _. e \<in> get_errors True) st1"
      using fh_allocate_spec [OF i1(1) r] by (rule wpE_mono) (use d i1 in \<open>auto simp: allocated_def disposed_def Let_def\<close>)
    then show "p \<notin> set free \<and> fh_inv F (p # free) st1 \<and>
      wpE fh_allocate_page (\<lambda>ph st2. ph_page ph = p \<and> content st2 p = Some blank_page \<and> fh_inv F free st2
             \<and> (\<forall>q. 0 \<le> q \<longrightarrow> q < page_num (handle st) \<longrightarrow> q \<noteq> p \<longrightarrow> content st2 q = content st q))
        (\<lambda>e _. e \<in> get_errors True) st1" using d i1 by blast
  qed
  then show ?thesis unfolding wpE_def .
qed

theorem disposed_page_reused_witness:
  "case dispose_page 0 demo_file of
      (Inr _, st1) \<Rightarrow> fh_inv {} [0] st1 \<and>
        (case fh_allocate_page st1 of
           (Inr ph, st2) \<Rightarrow> ph_page ph = 0 \<and> content st2 0 = Some blank_page \<and> fh_inv {} [] st2
         | (Inl e, _) \<Rightarrow> e \<in> get_errors True)
    | (Inl e, st1) \<Rightarrow> e \<in> get_errors False"
  using disposed_page_reused [OF demo_file_inv, of 0]
  by (auto simp: demo_file_def split: prod.splits sum.splits)

text \<open>\<open>get_next_page\<close> catches every exception of \<open>get_this_page\<close>, not only the one for a free page.
  When every slot of the pool is pinned and no later page is cached, it reports the end of the
  file, whatever pages the file has: a scan silently misses them.\<close>

theorem scan_misses_pages_when_pool_full:
  assumes "fh_inv F free st" "all_pinned (buf st)" "current = -1 \<or> is_valid_page (handle st) current"
    and "\<And>q. current < q \<Longrightarrow> \<not> bm_in_pool (buf st) (fh_fd (handle st)) q"
  shows "get_next_page current st = (Inl Eof, st)"
proof -
  note iv = fh_invD [OF assms(1)]
  have ok: "bm_ok (buf st)" using iv(2) by (simp add: bm_good_def)
  have step: "get_this_page q st = (Inl No_buf, st)" if "current < q" "q < page_num (handle st)" for q
  proof -
    have q: "0 \<le> q" using assms(3) that(1) by (auto simp: is_valid_page_def)
    have k: "key_ok (fh_fd (handle st)) q" using fh_key_ok [OF assms(1) q] that(2) by simp
    have "ht_find (table (buf st)) (fh_fd (handle st)) q = Inr (-1)"
      by (rule hashed_cases [OF ok k]) (use assms(4) [OF that(1)] in \<open>auto simp: bm_in_pool_def\<close>)
    from all_pinned_no_buf [OF ok this assms(2)] show ?thesis
      using iv(1) q that(2) by (simp add: get_this_page_def eff_defs liftB_def is_valid_page_def)
  qed
  have "first_used qs st = (Inl Eof, st)" if "\<forall>q \<in> set qs. current < q \<and> q < page_num (handle st)" for qs
    using that by (induction qs) (auto simp: throwE_def catchE_def step is_std_def)
  then have "first_used [current + 1..page_num (handle st) - 1] st = (Inl Eof, st)" by simp
  then show ?thesis using iv(1) assms(3) by (auto simp: get_next_page_def eff_defs)
qed

text \<open>The witness: the same file over a pool whose slots are all taken, here one without slots.\<close>

definition full_pool :: bufm where
  "full_pool = (case mk_bufm 0 4096 (\<lambda>_. demo_junk) file_os of Inr s \<Rightarrow> s | Inl _ \<Rightarrow> undefined)"

lemma full_file_inv:
  "fh_inv {} [] (demo_file\<lparr>buf := full_pool\<rparr>)" "all_pinned full_pool" "\<not> bm_in_pool full_pool f p"
proof -
  obtain h where "mk_hash_table HASH_TABLE_SIZE = Inr h"
    using mk_hash_table_ok [of HASH_TABLE_SIZE] by (auto simp: HASH_TABLE_SIZE_def)
  then have m: "mk_bufm 0 4096 (\<lambda>_. demo_junk) file_os = Inr full_pool"
    and a: "all_pinned full_pool" by (simp_all add: mk_bufm_def full_pool_def all_pinned_def)
  show "all_pinned full_pool" by (rule a)
  have "fds_inj file_os" by (auto simp: fds_inj_def file_os_def split: if_splits)
  note ok = mk_bufm_ok [OF m this]
  have g: "bm_good {} full_pool" "bm_psize full_pool = 4096" and ni: "\<not> bm_in_pool full_pool f p" for f p
    using ok by (simp_all add: bm_good_def bm_psize_def bm_in_pool_def)
  show "\<not> bm_in_pool full_pool f p" by (rule ni)
  have "bm_ok full_pool" using g by (simp add: bm_good_def)
  then have "view full_pool 3 0 = disk_page full_pool 3 0"
    using ok(3) by (intro view_disk) (auto simp: key_ok_def)
  then have v: "view full_pool 3 0 = Some blank_page"
    using ok(5,6) by (simp add: disk_page_def fd_block_def block_def file_os_def blank_page_def demo_header_def)
  have "{0..<1 :: int} = {0}" by auto
  then show "fh_inv {} [] (demo_file\<lparr>buf := full_pool\<rparr>)" using g ni
    by (simp add: fh_inv_def demo_file_def PAGE_LIST_END_def next_of_def v dec_int_blank)
qed

theorem scan_misses_pages_when_pool_full_witness:
  "get_next_page (-1) (demo_file\<lparr>buf := full_pool\<rparr>) = (Inl Eof, demo_file\<lparr>buf := full_pool\<rparr>)
   \<and> content (demo_file\<lparr>buf := full_pool\<rparr>) 0 \<noteq> None"
  using scan_misses_pages_when_pool_full [OF full_file_inv(1), of "-1"] full_file_inv(2,3)
    fh_invD(11) [OF full_file_inv(1), of 0] by (simp add: demo_file_def)

end
