(* ===== verification/IO_Manager.thy ===== *)
theory IO_Manager
  imports File_Handle
begin

text \<open>
  \<^verbatim>\<open>io/io_manager.{h,cc}\<close>: creating, opening, closing and removing paged files.  The manager owns the
  buffer pool; a file begins with a header block of \<open>BUFFER_SIZE\<close> bytes, of which the first
  eight are the \<open>file_header\<close>.
\<close>

section \<open>The model\<close>

definition POOL_SIZE :: int where "POOL_SIZE = 2"
definition BUFFER_SIZE :: int where "BUFFER_SIZE = 4096"

definition mk_io_manager :: "(nat \<Rightarrow> buffer_entry) \<Rightarrow> posix \<Rightarrow> bufm res" where
  "mk_io_manager junk px = mk_bufm POOL_SIZE BUFFER_SIZE junk px"

definition header_bytes :: "int \<Rightarrow> int \<Rightarrow> byte list" where
  "header_bytes first num = enc_int first @ enc_int num"

definition sys :: "(posix \<Rightarrow> int \<times> posix) \<Rightarrow> int bm" where
  "sys f = (\<lambda>s. case f (os s) of (r, p) \<Rightarrow> (Inr r, s\<lparr>os := p\<rparr>))"

definition create_file :: "string \<Rightarrow> unit bm" where
  "create_file filename =
     bindE (sys (\<lambda>p. px_create p filename)) (\<lambda>fd.
     seqE (guardE (0 \<le> fd) Unix_error) (
     bindE (sys (\<lambda>p. px_write p fd (header_bytes (-1) 0 @ replicate (nat BUFFER_SIZE - 8) 0))) (\<lambda>num_bytes.
     seqE (whenE (num_bytes \<noteq> BUFFER_SIZE) (
       bindE (sys (\<lambda>p. px_close p fd)) (\<lambda>_.
       bindE (sys (\<lambda>p. px_unlink p filename)) (\<lambda>_.
       if num_bytes < 0 then throwE Unix_error else throwE Incomplete_header_write)))) (
     bindE (sys (\<lambda>p. px_close p fd)) (\<lambda>r. guardE (0 \<le> r) Unix_error)))))"

definition open_file :: "string \<Rightarrow> file_handle bm" where
  "open_file filename =
     bindE (sys (\<lambda>p. px_open p filename)) (\<lambda>fd.
     seqE (guardE (0 \<le> fd) Unix_error) (
     bindE (read_fd fd 8) (\<lambda>(num_bytes, bs).
     seqE (guardE (num_bytes = 8) (if num_bytes < 0 then Unix_error else Incomplete_header_read))
          (retE \<lparr>fh_fd = fd, first_free = dec_int bs, page_num = dec_int (drop 4 bs),
                 file_is_open = True, header_changed = False\<rparr>))))"

definition close_file :: "unit fh" where
  "close_file = bindE (getE handle) (\<lambda>h.
     seqE (guardE (file_is_open h) Closed_file) (
     seqE fh_flush_pages (
     bindE (liftB (sys (\<lambda>p. px_close p (fh_fd h)))) (\<lambda>r.
     seqE (guardE (0 \<le> r) Unix_error)
          (modH (\<lambda>h. h\<lparr>file_is_open := False\<rparr>))))))"

definition destroy_file :: "string \<Rightarrow> unit bm" where
  "destroy_file filename = bindE (sys (\<lambda>p. px_unlink p filename)) (\<lambda>r. guardE (0 \<le> r) Unix_error)"

text \<open>A call on a file handle, with the buffer pool the handle shares.\<close>

definition with_handle :: "file_handle \<Rightarrow> 'a fh \<Rightarrow> ('a \<times> file_handle) bm" where
  "with_handle h m = (\<lambda>b. case m \<lparr>handle = h, buf = b\<rparr> of
      (Inr x, st) \<Rightarrow> (Inr (x, handle st), buf st) | (Inl e, st) \<Rightarrow> (Inl e, buf st))"

text \<open>The bytes \<open>data()\<close> points to.\<close>

definition page_bytes :: "page_handle \<Rightarrow> byte list fh" where
  "page_bytes ph = liftB (bindE (entry_at (ph_slot ph)) (\<lambda>e. retE (drop 4 (be_data e))))"

section \<open>The header block\<close>

text \<open>The header block is where page \<open>-1\<close> would be.\<close>

lemma disk_page_header: "buffer_size b = 4096 \<Longrightarrow> disk_page b fd (-1) = fd_block (os b) fd 0 4096"
  by (simp add: disk_page_def)

lemma psize_buffer: "bm_good F b \<Longrightarrow> bm_psize b = 4096 \<Longrightarrow> buffer_size b = 4096"
  by (auto simp: bm_psize_def bm_good_def dest: bm_invD(3))

lemma header_step:
  assumes "bm_good F b" "bm_psize b = 4096" "disk_page b fd (-1) = Some d" "length bs = 8"
    and "lseek fd 0 b = (Inr r, b1)" "0 \<le> r" "write_fd fd bs b1 = (Inr n, b2)"
  shows "n = 8" "disk_step {(fd, -1)} b b2" "disk_page b2 fd (-1) = Some (bs @ drop 8 d)"
proof -
  have bs: "buffer_size b = 4096" using psize_buffer [OF assms(1,2)] .
  have ij: "fds_inj (os b)" using assms(1) bm_invD(4) unfolding bm_good_def by blast
  note l = lseek_step [OF ij assms(5)]
  obtain i where i: "px_fds (os b1) fd = Some (i, 0)" using l(2) [OF assms(6)] by auto
  have bs1: "buffer_size b1 = 4096" "fds_inj (os b1)" using disk_stepD(3,9) [OF l(1)] bs by auto
  obtain q where q: "px_write (os b1) fd bs = (n, q)" "b2 = b1\<lparr>os := q\<rparr>"
    using assms(7) by (auto simp: write_fd_def split: prod.splits)
  have "fd_block (os b1) fd 0 4096 = Some d" using l(3) assms(3) disk_page_header [OF bs1(1)] by simp
  from px_write_head [OF i this _ q(1)] assms(4)
  have h: "n = 8" "fd_block q fd 0 4096 = Some (bs @ drop 8 d)" by auto
  show "n = 8" by (rule h)
  show "disk_page b2 fd (-1) = Some (bs @ drop 8 d)" using h(2) q(2) bs1(1) by (simp add: disk_page_def)
  note w = px_write_blocks [OF i bs1(2) q(1)]
  have "disk_page b2 f p = Some e" if e: "disk_page b1 f p = Some e" "(f, p) \<noteq> (fd, -1)" for f p e
  proof -
    have o: "0 \<le> p * 4096 + 4096" "fd_block (os b1) f (nat (p * 4096 + 4096)) 4096 = Some e"
      using e(1) bs1(1) by (auto simp: disk_page_def Let_def split: if_splits)
    moreover have "f \<noteq> fd \<or> 0 + length bs \<le> nat (p * 4096 + 4096)" using o(1) e(2) assms(4) by auto
    ultimately have "fd_block q f (nat (p * 4096 + 4096)) 4096 = Some e" using w(3) [OF o(2)] by blast
    then show ?thesis using o(1) bs1(1) q(2) by (simp add: disk_page_def)
  qed
  then have "disk_step {(fd, -1)} b1 b2" using w(1) q(2) by (auto simp: disk_step_def)
  then show "disk_step {(fd, -1)} b b2" using disk_step_trans [OF l(1)] by blast
qed

text \<open>Rewriting a block that is not cached disturbs no other page.\<close>

lemma disk_step_uncached:
  assumes "bm_good F b" "disk_step {(fd, p)} b b'" "\<not> bm_in_pool b fd p"
  shows "bm_good F b'" "keeps_views {(fd, p)} b b'" "bm_psize b' = bm_psize b" "bm_in_pool b' = bm_in_pool b"
    "key_ok fd p \<Longrightarrow> view b' fd p = disk_page b' fd p"
proof -
  note d = disk_stepD [OF assms(2)]
  have h: "hashed b' = hashed b" using hashed_cong d(1) .
  have ok: "bm_ok b" "bm_ok b'" using assms(1,2) bm_inv_disk_step by (auto simp: bm_good_def)
  have nh: "\<not> hashed b fd p i" for i using assms(3) by (simp add: bm_in_pool_def)
  have k: "disk_page b' f q = Some x" if "disk_page b f q = Some x" "(f, q) \<noteq> (fd, p)" for f q x
    using d(10) [of f q x] that by simp
  have "coherent F b'" unfolding coherent_def h d(2)
  proof (intro allI impI)
    fix f q i assume a: "hashed b f q i" "\<not> be_dirty (ent b i)" "(f, q) \<in> F \<longrightarrow> be_pin (ent b i) = 0"
    then have "disk_page b f q = Some (be_data (ent b i))" using assms(1) unfolding bm_good_def coherent_def by blast
    then show "disk_page b' f q = Some (be_data (ent b i))" using k a(1) nh by blast
  qed
  then show "bm_good F b'" using ok by (simp add: bm_good_def)
  show "bm_psize b' = bm_psize b" using d(3) by (simp add: bm_psize_def)
  show "bm_in_pool b' = bm_in_pool b" using h by (rule in_pool_cong)
  show "view b' fd p = disk_page b' fd p" if "key_ok fd p" using view_disk [OF ok(2) that] h nh by simp
  show "keeps_views {(fd, p)} b b'" unfolding keeps_views_def
  proof (intro allI impI)
    fix f q x assume x: "key_ok f q" "(f, q) \<notin> {(fd, p)}" "view b f q = Some x"
    show "view b' f q = Some x"
    proof (cases rule: hashed_cases [OF ok(1) x(1)])
      case 1
      then show ?thesis using x k [of f q x] view_disk [OF ok(2) x(1)] h by simp
    next
      case (2 i)
      moreover have "hashed b' f q i" using 2(2) h by simp
      ultimately show ?thesis using x(3) view_hashed d(2) by fastforce
    qed
  qed
qed

text \<open>What \<open>flush_pages\<close> and \<open>force_page\<close> do first: the header on disk is the header of the handle.\<close>

definition header_saved :: "file_handle \<Rightarrow> bufm \<Rightarrow> bool" where
  "header_saved h b \<longleftrightarrow> (\<exists>d. view b (fh_fd h) (-1) = Some d \<and> take 8 d = header_bytes (first_free h) (page_num h))"

definition header_ok :: "fh_state \<Rightarrow> bool" where
  "header_ok st \<longleftrightarrow> 0 < fh_fd (handle st) \<and> \<not> bm_in_pool (buf st) (fh_fd (handle st)) (-1)
     \<and> view (buf st) (fh_fd (handle st)) (-1) \<noteq> None
     \<and> (\<not> header_changed (handle st) \<longrightarrow> header_saved (handle st) (buf st))"

lemma write_header_spec:
  assumes inv: "fh_inv F free st" and ok: "header_ok st"
  shows "wpE write_header (\<lambda>_ st'. fh_inv F free st' \<and> header_saved (handle st') (buf st')
      \<and> bm_in_pool (buf st') = bm_in_pool (buf st)
      \<and> handle st' = (handle st)\<lparr>header_changed := False\<rparr> \<and> free_list (buf st') = free_list (buf st) \<and> pool (buf st') = pool (buf st)
      \<and> (\<forall>q. 0 \<le> q \<longrightarrow> q < page_num (handle st) \<longrightarrow> content st' q = content st q)
      \<and> same_files (os (buf st)) (buf st'))
    (\<lambda>e _. e \<in> {Unix_error, Incomplete_header_write}) st" (is "wpE _ ?Q ?R _")
proof -
  obtain h b where st: "st = \<lparr>handle = h, buf = b\<rparr>" by (cases st) simp
  note inv' = inv [unfolded st]
  note iv = fh_invD [OF inv', simplified]
  have kh: "key_ok (fh_fd h) (-1)" using ok iv(5-7) st by (simp add: key_ok_def header_ok_def)
  have ni: "\<not> bm_in_pool b (fh_fd h) (-1)" using ok st by (simp add: header_ok_def)
  show ?thesis
  proof (cases "header_changed h")
    case False
    moreover have "h\<lparr>header_changed := False\<rparr> = h" using False by (cases h) simp
    ultimately show ?thesis using ok inv st
      by (simp add: write_header_def fh_wp header_ok_def same_files_def)
  next
    case True
    have bk: "bm_ok b" using iv(2) by (simp add: bm_good_def)
    obtain d where d: "disk_page b (fh_fd h) (-1) = Some d"
      using ok view_disk [OF bk kh] ni st by (auto simp: header_ok_def bm_in_pool_def)
    let ?bs = "enc_int (first_free h) @ enc_int (page_num h)"
    obtain r b1 where r: "lseek (fh_fd h) 0 b = (Inr r, b1)"
      by (cases "px_lseek (os b) (fh_fd h) 0") (simp add: lseek_def)
    obtain n b2 where n: "write_fd (fh_fd h) ?bs b1 = (Inr n, b2)"
      by (cases "px_write (os b1) (fh_fd h) ?bs") (simp add: write_fd_def)
    have sf: "same_files (os b) b2" using keeps_files r n unfolding keepsE_def same_files_def by (metis snd_conv)
    have post: "?Q () \<lparr>handle = h\<lparr>header_changed := False\<rparr>, buf = b2\<rparr> \<and> n = 8" if "0 \<le> r"
    proof -
      note hs = header_step [OF iv(2,3) d _ r that n, simplified]
      note u = disk_step_uncached [OF iv(2) hs(2) ni]
      have v: "view b2 (fh_fd h) q = view b (fh_fd h) q" if "0 \<le> q" "q < page_num h" for q
        using keeps_viewsD [OF u(2), of "fh_fd h" q] fh_key_ok [OF inv' that(1)] iv(11) [OF that] that by auto
      have "fh_inv F free \<lparr>handle = h, buf = b2\<rparr>" using fh_inv_same [OF inv' u(1) _ v] u(3,4) iv(3,13) by simp
      moreover have "next_of \<lparr>handle = h\<lparr>header_changed := False\<rparr>, buf = b2\<rparr> = next_of \<lparr>handle = h, buf = b2\<rparr>"
        by (simp add: next_of_def fun_eq_iff)
      ultimately have "fh_inv F free \<lparr>handle = h\<lparr>header_changed := False\<rparr>, buf = b2\<rparr>"
        unfolding fh_inv_def Let_def by simp
      moreover have "header_saved (h\<lparr>header_changed := False\<rparr>) b2"
        using u(5) [OF kh] hs(3) by (simp add: header_saved_def header_bytes_def)
      ultimately show ?thesis using v ni u(4) st sf hs(1) disk_stepD(2,5) [OF hs(2)] by simp
    qed
    have lk: "wpE (lseek (fh_fd h) 0) Q R b = Q r b1" for Q R by (simp add: wpE_def r)
    have wr: "wpE (write_fd (fh_fd h) ?bs) Q R b1 = Q n b2" for Q R by (simp add: wpE_def n)
    show ?thesis using True post st
      by (simp add: write_header_def fh_wp lk wr)
  qed
qed

lemma flush_pages_run:
  assumes "bm_good F b" "no_stale fd b" "flush_pages fd b = (Inr (), b')"
  shows "bm_ok b'" "keeps_views {} b b'" "\<not> bm_in_pool b' fd p" "same_files (os b) b'"
    "key_ok fd p \<Longrightarrow> view b fd p = Some d \<Longrightarrow> disk_page b' fd p = Some d"
proof -
  have g: "bm_ok b" "coherent F b" using assms(1) by (auto simp: bm_good_def)
  note o = flush_pages_outcome [OF g assms(2), unfolded assms(3) prod.case sum.case]
  show "bm_ok b'" "keeps_views {} b b'" using o by blast+
  show "\<not> bm_in_pool b' fd p" using o by (simp add: bm_in_pool_def)
  show "disk_page b' fd p = Some d" if "key_ok fd p" "view b fd p = Some d" using o that by blast
  have "same_files (os b) b" by (simp add: same_files_def)
  then show "same_files (os b) b'"
    using flush_pages_same_files assms(3) unfolding keepsE_def by (metis snd_conv)
qed

lemma px_close_same: "px_close p fd = (r, p') \<Longrightarrow> px_data p' = px_data p \<and> px_names p' = px_names p"
  by (auto simp: px_close_def split: if_splits)

lemma px_open_ok:
  assumes "px_open p name = (fd, p')" "0 \<le> fd" "px_names p name = Some i"
  shows "px_fds p' fd = Some (i, 0)" "px_data p' = px_data p"
  using assms by (auto simp: px_open_def split: option.splits)

text \<open>A file that has been closed: its header and all its pages are in the file.\<close>

definition on_disk :: "file_handle \<Rightarrow> (int \<Rightarrow> byte list option) \<Rightarrow> byte list \<Rightarrow> bool" where
  "on_disk h cont f \<longleftrightarrow> (\<exists>d. block f 0 4096 = Some d \<and> take 8 d = header_bytes (first_free h) (page_num h))
     \<and> (\<forall>q. 0 \<le> q \<longrightarrow> q < page_num h \<longrightarrow> block f (nat (q * 4096 + 4096)) 4096 = cont q)"

lemma close_file_steps:
  assumes "close_file st = (Inr (), st')"
  obtains st1 b2 p where "write_header st = (Inr (), st1)" "flush_pages (fh_fd (handle st)) (buf st1) = (Inr (), b2)"
    "px_close (os b2) (fh_fd (handle st)) = (0, p)" "buf st' = b2\<lparr>os := p\<rparr>" "\<not> file_is_open (handle st')"
proof -
  let ?fd = "fh_fd (handle st)"
  have op: "file_is_open (handle st)" using assms by (auto simp: close_file_def bindE_get seqE_guard split: if_splits)
  obtain st2 where fl: "fh_flush_pages st = (Inr (), st2)" and cl: "bindE (liftB (sys (\<lambda>p. px_close p ?fd))) (\<lambda>r.
      seqE (guardE (0 \<le> r) Unix_error) (modH (\<lambda>h. h\<lparr>file_is_open := False\<rparr>))) st2 = (Inr (), st')"
    using assms op by (auto simp: close_file_def bindE_get seqE_guard seqE_Inr)
  obtain st1 where st1: "write_header st = (Inr (), st1)" "liftB (flush_pages ?fd) st1 = (Inr (), st2)"
    using fl op by (auto simp: fh_flush_pages_def bindE_get seqE_guard seqE_Inr)
  obtain b2 where b2: "flush_pages ?fd (buf st1) = (Inr (), b2)" "st2 = st1\<lparr>buf := b2\<rparr>"
    using st1(2) by (auto simp: liftB_def split: prod.splits)
  have "px_close (os b2) ?fd = (0, os (buf st'))" "\<not> file_is_open (handle st')" "buf st' = b2\<lparr>os := os (buf st')\<rparr>"
    using cl b2(2) by (auto simp: bindE_Inr seqE_guard liftB_def sys_def modH_def modE_def px_close_def split: if_splits)
  then show thesis using that st1(1) b2(1) by blast
qed

lemma close_file_on_disk:
  assumes inv: "fh_inv F free st" and ok: "header_ok st" and ns: "no_stale (fh_fd (handle st)) (buf st)"
    and fd: "px_fds (os (buf st)) (fh_fd (handle st)) = Some (i, off)"
    and run: "close_file st = (Inr (), st')"
  shows "on_disk (handle st) (content st) (px_data (os (buf st')) i)"
    "px_names (os (buf st')) = px_names (os (buf st))" "\<not> file_is_open (handle st')"
proof -
  let ?fd = "fh_fd (handle st)" and ?h = "handle st"
  obtain st1 b2 p where st1: "write_header st = (Inr (), st1)" and b2: "flush_pages ?fd (buf st1) = (Inr (), b2)"
    and st': "px_close (os b2) ?fd = (0, p)" "buf st' = b2\<lparr>os := p\<rparr>" "\<not> file_is_open (handle st')"
    using close_file_steps [OF run] .
  note w = wpE_retD [OF write_header_spec [OF inv ok] st1]
  have g1: "bm_good F (buf st1)" "bm_psize (buf st1) = 4096" using w fh_invD(2,3) by blast+
  have "no_stale ?fd (buf st1)" using ns w unfolding no_stale_def by simp
  note f = flush_pages_run [OF g1(1) this b2]
  have kh: "key_ok ?fd (-1)" using ok fh_invD(5-7) [OF inv] by (simp add: key_ok_def header_ok_def)
  have bsz: "buffer_size b2 = 4096"
  proof -
    obtain d where d: "view (buf st1) ?fd (-1) = Some d" using w by (auto simp: header_saved_def)
    have "length d = 4096" using bmc.vw_length [OF g1(1) kh d] g1(2) by simp
    moreover have "view b2 ?fd (-1) = Some d" using keeps_viewsD [OF f(2) kh _ d] by simp
    ultimately show ?thesis using view_length [OF f(1) kh] bm_invD(3) [OF f(1)] by fastforce
  qed
  have dat: "px_data (os (buf st')) = px_data (os b2)" "px_names (os (buf st')) = px_names (os b2)"
    using px_close_same [OF st'(1)] st'(2) by simp_all
  have ino: "fd_inode (os b2) ?fd = Some i"
    using f(4) w fd unfolding same_files_def by (simp add: fd_inode_def)
  then obtain o2 where o2: "px_fds (os b2) ?fd = Some (i, o2)" by (auto simp: fd_inode_def)
  have blk: "fd_block (os b2) ?fd x n = block (px_data (os (buf st')) i) x n" for x n
    using o2 dat by (simp add: fd_block_def)
  have hd: "\<exists>d. block (px_data (os (buf st')) i) 0 4096 = Some d \<and> take 8 d = header_bytes (first_free ?h) (page_num ?h)"
    using w f(5) [OF kh] disk_page_header [OF bsz, of ?fd] blk by (auto simp: header_saved_def)
  have pg: "block (px_data (os (buf st')) i) (nat (q * 4096 + 4096)) 4096 = content st q" if q: "0 \<le> q" "q < page_num ?h" for q
  proof -
    obtain d where d: "content st q = Some d" using fh_invD(11) [OF inv q] by blast
    moreover have "content st1 q = content st q" "fh_fd (handle st1) = ?fd" using w q by auto
    ultimately have "view (buf st1) ?fd q = Some d" by simp
    moreover have "key_ok ?fd q" using fh_key_ok [OF inv q(1)] q(2) by simp
    ultimately have "disk_page b2 ?fd q = Some d" using f(5) by blast
    then show ?thesis using d blk q bsz by (simp add: disk_page_def)
  qed
  show "on_disk ?h (content st) (px_data (os (buf st')) i)" using hd pg by (simp add: on_disk_def)
  show "px_names (os (buf st')) = px_names (os (buf st))" using dat(2) f(4) w by (simp add: same_files_def)
  show "\<not> file_is_open (handle st')" by (rule st'(3))
qed

lemma open_file_reads:
  assumes "open_file name b = (Inr h, b')" "px_names (os b) name = Some i" "block (px_data (os b) i) 0 4096 = Some d"
  shows "first_free h = dec_int d" "page_num h = dec_int (drop 4 d)" "file_is_open h" "\<not> header_changed h"
    "px_data (os b') = px_data (os b)" "fd_inode (os b') (fh_fd h) = Some i"
proof -
  obtain fd p1 where o: "px_open (os b) name = (fd, p1)" by fastforce
  obtain n bs p2 where r: "px_read p1 fd 8 = (n, bs, p2)" by (cases "px_read p1 fd 8") auto
  have run: "0 \<le> fd" "n = 8" "h = \<lparr>fh_fd = fd, first_free = dec_int bs, page_num = dec_int (drop 4 bs),
      file_is_open = True, header_changed = False\<rparr>" "b' = b\<lparr>os := p2\<rparr>"
    using assms(1) o r by (auto simp: open_file_def bindE_def seqE_guard sys_def read_fd_def retE_def split: if_splits)
  note po = px_open_ok [OF o run(1) assms(2)]
  note rf = px_read_full [OF po(1) r]
  have "bs = take 8 d"
    using assms(3) run(2) r po by (auto simp: px_read_def Let_def block_def split: if_splits)
  moreover have "8 \<le> length d" using assms(3) by (auto simp: block_def split: if_splits)
  ultimately have "dec_int bs = dec_int d" "dec_int (drop 4 bs) = dec_int (drop 4 d)"
    by (auto simp: dec_int_def dec32_def)
  then show "first_free h = dec_int d" "page_num h = dec_int (drop 4 d)" "file_is_open h" "\<not> header_changed h"
    "px_data (os b') = px_data (os b)" "fd_inode (os b') (fh_fd h) = Some i"
    using run rf(5) po by (simp_all add: fd_inode_def)
qed

lemma dec_header:
  assumes "take 8 d = header_bytes a n" "int_range a" "int_range n" "8 \<le> length d"
  shows "dec_int d = a" "dec_int (drop 4 d) = n"
proof -
  have d: "d = enc_int a @ enc_int n @ drop 8 d"
    using assms(1) append_take_drop_id [of 8 d] by (simp add: header_bytes_def)
  show "dec_int d = a" by (subst d) (rule dec_int_enc_int [OF assms(2)])
  have "drop 4 d = enc_int n @ drop 8 d" by (subst d) simp
  then show "dec_int (drop 4 d) = n" using dec_int_enc_int [OF assms(3)] by simp
qed

lemma fh_header_range:
  assumes "fh_inv F free st"
  shows "int_range (first_free (handle st))" "int_range (page_num (handle st))"
proof -
  note iv = fh_invD [OF assms]
  show "int_range (page_num (handle st))" using iv(5-7) by (simp add: int_range_def)
  show "int_range (first_free (handle st))"
  proof (cases free)
    case Nil
    then show ?thesis using iv(8) by (simp add: PAGE_LIST_END_def int_range_def)
  next
    case (Cons q qs)
    then have "first_free (handle st) = q" "0 \<le> q" "q < page_num (handle st)" using iv(8,10) by auto
    then show ?thesis using iv(5,7) by (simp add: int_range_def)
  qed
qed

section \<open>Properties\<close>

text \<open>Closing a file and opening it again gives the same file: the header read back has the same free
  list and number of pages, and the file holds, page by page, the contents the pages had when it
  was closed, whether they were cached, dirty or already on disk.\<close>

theorem close_open_roundtrip:
  assumes "fh_inv F free st" "header_ok st" "no_stale (fh_fd (handle st)) (buf st)"
    and "px_fds (os (buf st)) (fh_fd (handle st)) = Some (i, off)" "px_names (os (buf st)) name = Some i"
    and "close_file st = (Inr (), st')" "open_file name (buf st') = (Inr h, b)"
  shows "first_free h = first_free (handle st) \<and> page_num h = page_num (handle st) \<and> file_is_open h
    \<and> fd_inode (os b) (fh_fd h) = Some i
    \<and> (\<forall>q. 0 \<le> q \<longrightarrow> q < page_num h \<longrightarrow> fd_block (os b) (fh_fd h) (nat (q * 4096 + 4096)) 4096 = content st q)"
proof -
  note c = close_file_on_disk [OF assms(1-4,6)]
  obtain d where d: "block (px_data (os (buf st')) i) 0 4096 = Some d"
    "take 8 d = header_bytes (first_free (handle st)) (page_num (handle st))" using c(1) by (auto simp: on_disk_def)
  have "px_names (os (buf st')) name = Some i" using c(2) assms(5) by simp
  note o = open_file_reads [OF assms(7) this d(1)]
  have "8 \<le> length d" using d(1) by (auto simp: block_def split: if_splits)
  note h = dec_header [OF d(2) fh_header_range [OF assms(1)] this]
  obtain o2 where "px_fds (os b) (fh_fd h) = Some (i, o2)" using o(6) by (auto simp: fd_inode_def)
  then have "fd_block (os b) (fh_fd h) x n = block (px_data (os (buf st')) i) x n" for x n
    using o(5) by (simp add: fd_block_def)
  then show ?thesis using o h c(1) by (simp add: on_disk_def)
qed

text \<open>Creating a file and opening it gives an empty file: no pages and an empty free list.  The
  header block was written whole, or else the file was removed again.\<close>

theorem create_open_empty:
  assumes "create_file name b = (Inr (), b1)" "open_file name b1 = (Inr h, b2)"
  shows "page_num h = 0 \<and> first_free h = PAGE_LIST_END \<and> file_is_open h \<and> \<not> header_changed h"
proof -
  let ?bs = "header_bytes (-1) 0 @ replicate (nat BUFFER_SIZE - 8) (0 :: byte)"
  have lb: "length ?bs = 4096" by (simp add: header_bytes_def BUFFER_SIZE_def)
  obtain fd p1 where c: "px_create (os b) name = (fd, p1)" by fastforce
  obtain n p2 where w: "px_write p1 fd ?bs = (n, p2)" by fastforce
  obtain r p3 where cl: "px_close p2 fd = (r, p3)" by fastforce
  have run: "0 \<le> fd" "n = 4096" "b1 = b\<lparr>os := p3\<rparr>"
    using assms(1) c w cl
    by (auto simp: create_file_def bindE_def seqE_guard sys_def seqE_def whenE_def guardE_def retE_def throwE_def
        BUFFER_SIZE_def split: if_splits prod.splits)
  have p1: "px_names p1 name = Some (px_nexti (os b))" "px_data p1 (px_nexti (os b)) = []" "px_fds p1 fd = Some (px_nexti (os b), 0)"
    using c run(1) by (auto simp: px_create_def split: option.splits if_splits)
  have "px_names p2 = px_names p1" "block (px_data p2 (px_nexti (os b))) 0 4096 = Some ?bs"
    using w run(2) p1 lb by (auto simp: px_write_def Let_def overwrite_def block_def split: if_splits)
  then have "px_names (os b1) name = Some (px_nexti (os b))" "block (px_data (os b1) (px_nexti (os b))) 0 4096 = Some ?bs"
    using px_close_same [OF cl] run(3) p1(1) by simp_all
  note o = open_file_reads [OF assms(2) this]
  have "take 8 ?bs = header_bytes (-1) 0" "8 \<le> length ?bs" using lb by (simp_all add: header_bytes_def)
  note dec_header [OF this(1) _ _ this(2)]
  then show ?thesis using o by (simp add: PAGE_LIST_END_def int_range_def)
qed

lemma file_pool_eq: "file_pool = \<lparr>pool_size = 2, buffer_size = 4096,
    table = \<lparr>bucket_num = 20, buckets = replicate 20 None, heap = Map.empty, brk = 0\<rparr>,
    pool = [demo_junk\<lparr>be_data := replicate 4096 0\<rparr>, demo_junk\<lparr>be_data := replicate 4096 0\<rparr>],
    free_list = [0, 1], used_list = [], used_map = Map.empty, next_node = 0, os = file_os\<rparr>"
proof -
  have "[0..<2] = [0, Suc 0]" by (simp add: upt_rec)
  then show ?thesis
    by (simp add: file_pool_def mk_bufm_def mk_hash_table_def HASH_TABLE_SIZE_def)
qed

lemma demo_flush: "flush_pages 3 file_pool = (Inr (), file_pool)"
proof -
  have "map int [0..<2] = [0, 1]" by (simp add: upt_rec)
  then show ?thesis
    by (simp add: flush_pages_def file_pool_eq bindE_get flush_slot_def entry_at_def slot_ok_def demo_junk_def
        bindE_def seqE_def liftE_def whenE_def retE_def getE_def)
qed

lemma demo_close:
  "close_file demo_file = (Inr (), demo_file\<lparr>handle := (handle demo_file)\<lparr>file_is_open := False\<rparr>,
     buf := file_pool\<lparr>os := file_os\<lparr>px_fds := Map.empty\<rparr>\<rparr>\<rparr>)"
  using demo_flush file_pool_ok(4)
  by (simp add: close_file_def fh_flush_pages_def write_header_def demo_file_def bindE_get seqE_guard whenE_def
      seqE_def bindE_def retE_def getE_def guardE_def liftB_def sys_def modH_def modE_def px_close_def file_os_def)

lemma demo_reopen: "fst (open_file ''f'' (file_pool\<lparr>os := file_os\<lparr>px_fds := Map.empty\<rparr>\<rparr>)) =
    Inr \<lparr>fh_fd = 0, first_free = PAGE_LIST_END, page_num = 1, file_is_open = True, header_changed = False\<rparr>"
proof -
  have n: "List.find (\<lambda>k. True) [0..<16] = Some (0 :: nat)" by (simp add: upt_rec)
  have "dec_int (enc_int (-1) @ enc_int 1) = -1" by (rule dec_int_enc_int) (simp add: int_range_def)
  moreover have "dec_int (enc_int 1) = 1" using dec_int_enc_int [of 1 "[]"] by (simp add: int_range_def)
  ultimately show ?thesis using n
    by (simp add: open_file_def sys_def px_open_def px_newfd_def file_os_def read_fd_def px_read_def Let_def demo_header_def
        PAGE_LIST_END_def bindE_def seqE_guard retE_def)
qed

lemma demo_header_ok: "header_ok demo_file"
proof -
  have "take 8 demo_header = header_bytes PAGE_LIST_END 1" by (simp add: demo_header_def header_bytes_def)
  then show ?thesis using file_pool_view file_pool_ok(3)
    by (simp add: header_ok_def header_saved_def demo_file_def PAGE_LIST_END_def)
qed

theorem close_open_roundtrip_witness:
  "\<exists>st' h b. close_file demo_file = (Inr (), st') \<and> open_file ''f'' (buf st') = (Inr h, b)
     \<and> page_num h = 1 \<and> fd_block (os b) (fh_fd h) 4096 4096 = Some blank_page"
proof -
  obtain h b where r: "open_file ''f'' (file_pool\<lparr>os := file_os\<lparr>px_fds := Map.empty\<rparr>\<rparr>) = (Inr h, b)"
    using demo_reopen by (metis prod.collapse)
  have ns: "no_stale (fh_fd (handle demo_file)) (buf demo_file)" using file_pool_ok(6) by (simp add: demo_file_def)
  have fd: "px_fds (os (buf demo_file)) (fh_fd (handle demo_file)) = Some (0, 0)"
    "px_names (os (buf demo_file)) ''f'' = Some 0" using file_pool_ok(4) by (simp_all add: demo_file_def file_os_def)
  have r': "open_file ''f'' (buf (demo_file\<lparr>handle := (handle demo_file)\<lparr>file_is_open := False\<rparr>,
     buf := file_pool\<lparr>os := file_os\<lparr>px_fds := Map.empty\<rparr>\<rparr>\<rparr>)) = (Inr h, b)" using r by simp
  from close_open_roundtrip [OF demo_file_inv demo_header_ok ns fd demo_close r']
  have "page_num h = 1" "fd_block (os b) (fh_fd h) (nat (0 * 4096 + 4096)) 4096 = content demo_file 0"
    by (auto simp: demo_file_def)
  then show ?thesis using demo_close r' file_pool_view by (auto simp: demo_file_def)
qed

lemma demo_create:
  "\<exists>b1 h b2. create_file ''g'' file_pool = (Inr (), b1) \<and> open_file ''g'' b1 = (Inr h, b2)"
proof -
  have n: "List.find (\<lambda>k. int k \<noteq> 3) [0..<16] = Some 0" "List.find (\<lambda>k. int k = 3 \<longrightarrow> False) [0..<16] = Some 0"
    by (simp_all add: upt_rec)
  let ?p = "file_os\<lparr>px_names := (px_names file_os)(''g'' \<mapsto> 1),
     px_data := (px_data file_os)(1 := header_bytes (-1) 0 @ replicate 4088 0), px_room := 95904, px_nexti := 2\<rparr>"
  have "px_fds file_os (int k) = None \<longleftrightarrow> int k \<noteq> 3" for k by (simp add: file_os_def)
  then have c: "px_newfd file_os = Some 0" using n by (simp add: px_newfd_def file_os_def)
  have b1: "create_file ''g'' file_pool = (Inr (), file_pool\<lparr>os := ?p\<rparr>)"
    using c file_pool_ok(4)
    by (simp add: create_file_def sys_def px_create_def px_write_def px_close_def Let_def overwrite_def header_bytes_def
        BUFFER_SIZE_def bindE_def seqE_def guardE_def whenE_def retE_def throwE_def file_os_def fun_eq_iff)
  have "\<exists>h b2. open_file ''g'' (file_pool\<lparr>os := ?p\<rparr>) = (Inr h, b2)"
    using c by (simp add: open_file_def sys_def px_open_def px_newfd_def read_fd_def px_read_def Let_def header_bytes_def
        bindE_def seqE_guard retE_def file_os_def)
  with b1 show ?thesis by blast
qed

theorem create_open_empty_witness:
  "\<exists>b1 h b2. create_file ''g'' file_pool = (Inr (), b1) \<and> open_file ''g'' b1 = (Inr h, b2) \<and> page_num h = 0"
  using demo_create create_open_empty by blast

end
