(* ===== verification/Reopen.thy ===== *)
theory Reopen
  imports IO_Manager
begin

text \<open>
  A file that is created or closed can be opened again: what \<open>io_manager\<close> reads from the file establishes the
  invariant of \<open>File_Handle\<close> for the new handle, with the free list and the contents the file had.
\<close>

section \<open>Changes outside the pool\<close>

lemma bm_good_os:
  assumes "bm_good F b" "fds_inj p" "\<And>f q x n. bm_in_pool b f q \<Longrightarrow> fd_block p f x n = fd_block (os b) f x n"
  shows "bm_good F (b\<lparr>os := p\<rparr>)" "bm_in_pool (b\<lparr>os := p\<rparr>) = bm_in_pool b"
proof -
  have h: "hashed (b\<lparr>os := p\<rparr>) = hashed b" by (rule hashed_cong) simp
  have "disk_page (b\<lparr>os := p\<rparr>) f q = disk_page b f q" if "hashed b f q i" for f q i
  proof -
    have "fd_block p f x n = fd_block (os b) f x n" for x n using assms(3) that unfolding bm_in_pool_def by blast
    then show ?thesis by (simp add: disk_page_def Let_def)
  qed
  then have "coherent F (b\<lparr>os := p\<rparr>)" using assms(1) unfolding bm_good_def coherent_def h by simp
  then show "bm_good F (b\<lparr>os := p\<rparr>)" using bm_inv_os [OF _ assms(2)] assms(1) by (simp add: bm_good_def)
  show "bm_in_pool (b\<lparr>os := p\<rparr>) = bm_in_pool b" using h by (rule in_pool_cong)
qed

section \<open>Files on disk\<close>

text \<open>The part of the invariant of a file that does not depend on the pool.\<close>

definition stored :: "file_handle \<Rightarrow> (int \<Rightarrow> byte list option) \<Rightarrow> int list \<Rightarrow> bool" where
  "stored h cont free \<longleftrightarrow> 0 \<le> page_num h \<and> int_range (first_free h) \<and> int_range (page_num h)
     \<and> chain (\<lambda>p. map_option dec_int (cont p)) (first_free h) free \<and> distinct free \<and> set free \<subseteq> {0..<page_num h}
     \<and> (\<forall>p \<in> {0..<page_num h}. cont p \<noteq> None)
     \<and> (\<forall>p \<in> {0..<page_num h} - set free. map_option dec_int (cont p) = Some PAGE_USED)"

lemma fh_inv_stored: "fh_inv F free st \<Longrightarrow> stored (handle st) (content st) free"
  using fh_header_range [of F free st] unfolding fh_inv_def stored_def Let_def next_of_def [abs_def] by simp

text \<open>A name whose file can be opened: the next descriptor is new to the pool and no other descriptor has the file.\<close>

definition openable :: "(int \<times> int) set \<Rightarrow> string \<Rightarrow> nat \<Rightarrow> int \<Rightarrow> bufm \<Rightarrow> bool" where
  "openable F name i fd b \<longleftrightarrow> bm_good F b \<and> bm_psize b = 4096 \<and> px_newfd (os b) = Some fd
     \<and> (\<forall>p. \<not> bm_in_pool b fd p) \<and> (\<forall>p. (fd, p) \<notin> F) \<and> px_names (os b) name = Some i \<and> (\<forall>f. fd_inode (os b) f \<noteq> Some i)"

lemma px_newfdD: "px_newfd p = Some fd \<Longrightarrow> 0 \<le> fd \<and> px_fds p fd = None"
  by (auto simp: px_newfd_def find_Some_iff)

lemma open_file_os:
  assumes "open_file name b = (Inr h, b')" "px_newfd (os b) = Some fd" "px_names (os b) name = Some i"
  shows "fh_fd h = fd" "b' = b\<lparr>os := (os b)\<lparr>px_fds := (px_fds (os b))(fd \<mapsto> (i, 8))\<rparr>\<rparr>"
proof -
  have o: "px_open (os b) name = (fd, (os b)\<lparr>px_fds := (px_fds (os b))(fd \<mapsto> (i, 0))\<rparr>)"
    using assms(2,3) by (simp add: px_open_def)
  obtain n bs p2 where r: "px_read ((os b)\<lparr>px_fds := (px_fds (os b))(fd \<mapsto> (i, 0))\<rparr>) fd 8 = (n, bs, p2)"
    by (cases "px_read ((os b)\<lparr>px_fds := (px_fds (os b))(fd \<mapsto> (i, 0))\<rparr>) fd 8") auto
  have run: "n = 8" "fh_fd h = fd" "b' = b\<lparr>os := p2\<rparr>"
    using assms(1) o r by (auto simp: open_file_def bindE_def seqE_guard sys_def read_fd_def retE_def split: if_splits)
  show "fh_fd h = fd" by (rule run(2))
  have "p2 = (os b)\<lparr>px_fds := (px_fds (os b))(fd \<mapsto> (i, 8))\<rparr>"
    using r run(1) by (auto simp: px_read_def Let_def)
  then show "b' = b\<lparr>os := (os b)\<lparr>px_fds := (px_fds (os b))(fd \<mapsto> (i, 8))\<rparr>\<rparr>" using run(3) by simp
qed

lemma open_file_inv:
  assumes op: "openable F name i fd b" and disk: "on_disk h0 cont (px_data (os b) i)" "stored h0 cont free"
    and fdr: "fd + page_num h0 < 2 ^ 31" and run: "open_file name b = (Inr h, b')"
  shows "fh_inv F free \<lparr>handle = h, buf = b'\<rparr>" "0 < fd \<Longrightarrow> header_ok \<lparr>handle = h, buf = b'\<rparr>" "fh_fd h = fd"
    "page_num h = page_num h0" "\<And>q. 0 \<le> q \<Longrightarrow> q < page_num h0 \<Longrightarrow> view b' fd q = cont q"
    "b' = b\<lparr>os := (os b)\<lparr>px_fds := (px_fds (os b))(fd \<mapsto> (i, 8))\<rparr>\<rparr>"
proof -
  let ?p = "(os b)\<lparr>px_fds := (px_fds (os b))(fd \<mapsto> (i, 8))\<rparr>"
  have o: "bm_good F b" "bm_psize b = 4096" "px_newfd (os b) = Some fd" "0 \<le> fd" "\<And>p. \<not> bm_in_pool b fd p" "\<And>p. (fd, p) \<notin> F"
    "px_names (os b) name = Some i" "\<And>f. fd_inode (os b) f \<noteq> Some i"
    using op px_newfdD unfolding openable_def by auto
  note b' = open_file_os [OF run o(3,7)]
  obtain d where d: "block (px_data (os b) i) 0 4096 = Some d" "take 8 d = header_bytes (first_free h0) (page_num h0)"
    using disk(1) by (auto simp: on_disk_def)
  note s = disk(2) [unfolded stored_def]
  have ld: "8 \<le> length d" using d(1) by (auto simp: block_def split: if_splits)
  note rd = open_file_reads [OF run o(7) d(1)]
  have dh: "dec_int d = first_free h0" "dec_int (drop 4 d) = page_num h0" using dec_header [OF d(2) _ _ ld] s by auto
  have ij: "fds_inj ?p" using o(1,8) bm_invD(4) unfolding bm_good_def fds_inj_def fd_inode_def
    by (auto split: if_splits)
  have blk: "fd_block ?p f x n = fd_block (os b) f x n" if "f \<noteq> fd" for f x n
    using that by (simp add: fd_block_def split: option.splits)
  have g: "bm_good F b'" "bm_in_pool b' = bm_in_pool b"
    using bm_good_os [OF o(1) ij] o(5) blk b'(2) by metis+
  have bs: "buffer_size b' = 4096" "bm_psize b' = 4096" using psize_buffer [OF o(1,2)] b'(2) o(2) by (simp_all add: bm_psize_def)
  have vw: "view b' fd q = block (px_data (os b) i) (nat (q * 4096 + 4096)) 4096" if "-1 \<le> q" "0 \<le> fd + q" "q < page_num h0" for q
  proof -
    have no: "\<not> bm_in_pool b' fd q" using g(2) o(5) by simp
    have "key_ok fd q" using that o(4) fdr by (simp add: key_ok_def)
    then have "view b' fd q = disk_page b' fd q"
      using view_disk [of "{}" b' fd q] g(1) no unfolding bm_good_def bm_in_pool_def by blast
    then show ?thesis using that(1) bs(1) b'(2) by (simp add: disk_page_def fd_block_def)
  qed
  have c: "view b' fd q = cont q" if "0 \<le> q" "q < page_num h0" for q
    using vw [of q] that disk(1) o(4) by (simp add: on_disk_def)
  have hv: "view b' fd (-1) = Some d" if "0 < fd" using vw [of "-1"] d(1) s that by simp
  have nx: "next_of \<lparr>handle = h, buf = b'\<rparr> q = map_option dec_int (cont q)" if "0 \<le> q" "q < page_num h0" for q
    using c [OF that] b'(1) by (simp add: next_of_def)
  have ch: "chain (next_of \<lparr>handle = h, buf = b'\<rparr>) (first_free h) free"
    using chain_cong [of free "next_of \<lparr>handle = h, buf = b'\<rparr>" "\<lambda>p. map_option dec_int (cont p)" "first_free h0"] s nx rd(1) dh(1)
    by (auto simp: subset_iff)
  show "fh_inv F free \<lparr>handle = h, buf = b'\<rparr>"
    unfolding fh_inv_def Let_def using ch rd(2,3) dh(2) g o(4-6) bs(2) fdr b'(1) s c nx by simp
  show "header_ok \<lparr>handle = h, buf = b'\<rparr>" if "0 < fd"
    using that rd(1,2,4) dh hv d(2) g(2) o(4,5) b'(1) by (simp add: header_ok_def header_saved_def)
  show "fh_fd h = fd" "page_num h = page_num h0" "\<And>q. 0 \<le> q \<Longrightarrow> q < page_num h0 \<Longrightarrow> view b' fd q = cont q"
    "b' = b\<lparr>os := ?p\<rparr>" using b' rd(2) dh(2) c by auto
qed

text \<open>Closing forgets the pages of the file and nothing else; the descriptor is free again.\<close>

lemma close_file_pool:
  assumes inv: "fh_inv F free st" and ok: "header_ok st" and ns: "no_stale (fh_fd (handle st)) (buf st)"
    and run: "close_file st = (Inr (), st')"
  shows "bm_good F (buf st')" "bm_psize (buf st') = 4096" "\<not> bm_in_pool (buf st') (fh_fd (handle st)) p"
    "bm_in_pool (buf st') f q \<Longrightarrow> bm_in_pool (buf st) f q"
    "fd_inode (os (buf st')) = (fd_inode (os (buf st)))(fh_fd (handle st) := None)" "px_maxfd (os (buf st')) = px_maxfd (os (buf st))"
proof -
  let ?fd = "fh_fd (handle st)"
  obtain st1 b2 p where st1: "write_header st = (Inr (), st1)" and b2: "flush_pages ?fd (buf st1) = (Inr (), b2)"
    and st': "px_close (os b2) ?fd = (0, p)" "buf st' = b2\<lparr>os := p\<rparr>"
    using close_file_steps [OF run] by metis
  note w = wpE_retD [OF write_header_spec [OF inv ok] st1]
  have g1: "bm_good F (buf st1)" "bm_psize (buf st1) = 4096" "no_stale ?fd (buf st1)"
    using w ns fh_invD(2,3) unfolding no_stale_def by auto
  note f = flush_pages_run [OF g1(1,3) b2]
  have g2: "bm_good F b2" "hashed b2 f q j \<Longrightarrow> hashed (buf st1) f q j" for f q j
    using flush_pages_outcome [OF _ _ g1(3), of F, unfolded b2 prod.case sum.case] g1(1) unfolding bm_good_def by (blast, metis)
  have p: "p = (os b2)\<lparr>px_fds := (px_fds (os b2))(?fd := None)\<rparr>" using st'(1) by (auto simp: px_close_def split: if_splits)
  have ij: "fds_inj p" using bm_invD(4) [of "{}" b2] g2(1) unfolding p bm_good_def fds_inj_def by auto
  have blk: "fd_block p g x n = fd_block (os b2) g x n" if "bm_in_pool b2 g q" for g q x n
    using that f(3) p by (cases "g = ?fd") (auto simp: fd_block_def split: option.splits)
  note o = bm_good_os [OF g2(1) ij blk]
  show "bm_good F (buf st')" "\<And>p. \<not> bm_in_pool (buf st') ?fd p" using o f(3) st'(2) by simp_all
  show "bm_in_pool (buf st) f q" if "bm_in_pool (buf st') f q"
  proof -
    have "bm_in_pool b2 f q" using that o(2) st'(2) by simp
    then have "bm_in_pool (buf st1) f q" using g2(2) unfolding bm_in_pool_def by blast
    then show ?thesis using w by simp
  qed
  have kh: "key_ok ?fd (-1)" using ok fh_invD(5-7) [OF inv] by (simp add: key_ok_def header_ok_def)
  obtain d where d: "view (buf st1) ?fd (-1) = Some d" using w by (auto simp: header_saved_def)
  have "bm_psize b2 = length d" using keeps_viewsD [OF f(2) kh _ d] bmc.vw_length [OF g2(1) kh] by simp
  then show "bm_psize (buf st') = 4096" using bmc.vw_length [OF g1(1) kh d] g1(2) st'(2) by (simp add: bm_psize_def)
  have "fd_inode (os b2) = fd_inode (os (buf st))" "px_maxfd (os b2) = px_maxfd (os (buf st))"
    using f(4) w by (auto simp: same_files_def)
  then show "fd_inode (os (buf st')) = (fd_inode (os (buf st)))(?fd := None)" "px_maxfd (os (buf st')) = px_maxfd (os (buf st))"
    using st'(2) p by (auto simp: fd_inode_def fun_eq_iff)
qed

lemma px_newfd_cong:
  assumes "fd_inode p = fd_inode q" "px_maxfd p = px_maxfd q"
  shows "px_newfd p = px_newfd q"
proof -
  have "px_fds p f = None \<longleftrightarrow> px_fds q f = None" for f using assms(1) by (metis fd_inode_def map_option_is_None)
  then show ?thesis using assms(2) by (simp add: px_newfd_def)
qed

section \<open>Creating a file\<close>

text \<open>A pool that can take a new file: the next descriptor is new to it, and inode numbers are not reused.\<close>

definition can_create :: "int \<Rightarrow> bufm \<Rightarrow> bool" where
  "can_create fd b \<longleftrightarrow> bm_good {} b \<and> bm_psize b = 4096 \<and> px_newfd (os b) = Some fd \<and> 0 < fd \<and> fd + 1 < 2 ^ 31
     \<and> (\<forall>p. \<not> bm_in_pool b fd p) \<and> no_stale fd b \<and> (\<forall>f i. fd_inode (os b) f = Some i \<longrightarrow> i < px_nexti (os b))"

definition empty_header :: file_handle where
  "empty_header = \<lparr>fh_fd = 0, first_free = PAGE_LIST_END, page_num = 0, file_is_open = True, header_changed = False\<rparr>"

lemma create_file_openable:
  assumes c: "can_create fd b" and run: "create_file name b = (Inr (), b1)"
  shows "openable {} name (px_nexti (os b)) fd b1" "on_disk empty_header (\<lambda>_. None) (px_data (os b1) (px_nexti (os b)))"
    "free_list b1 = free_list b" "pool b1 = pool b" "fd_inode (os b1) = fd_inode (os b)" "px_maxfd (os b1) = px_maxfd (os b)"
proof -
  let ?i = "px_nexti (os b)"
  obtain bs where bs: "bs = header_bytes (-1) 0 @ replicate (nat BUFFER_SIZE - 8) (0 :: byte)" by simp
  note cc = c [unfolded can_create_def]
  have lb: "length bs = 4096" by (simp add: bs header_bytes_def BUFFER_SIZE_def)
  note nf = px_newfdD [of "os b" fd]
  have fdn: "px_newfd (os b) = Some fd" "px_fds (os b) fd = None" using cc nf by auto
  obtain g p1 where cr: "px_create (os b) name = (g, p1)" by fastforce
  obtain n p2 where w: "px_write p1 g bs = (n, p2)" by fastforce
  obtain r p3 where cl: "px_close p2 g = (r, p3)" by fastforce
  have rn: "0 \<le> g" "n = 4096" "b1 = b\<lparr>os := p3\<rparr>"
    using run cr w [unfolded bs] cl
    by (auto simp: create_file_def bindE_def seqE_guard sys_def seqE_def whenE_def guardE_def retE_def throwE_def
        BUFFER_SIZE_def split: if_splits prod.splits)
  have p1: "g = fd" "p1 = (os b)\<lparr>px_names := (px_names (os b))(name \<mapsto> ?i), px_data := (px_data (os b))(?i := []),
      px_fds := (px_fds (os b))(fd \<mapsto> (?i, 0)), px_nexti := Suc ?i\<rparr>"
    using cr rn(1) fdn by (auto simp: px_create_def split: option.splits if_splits)
  obtain rm where p2: "p2 = p1\<lparr>px_data := (px_data p1)(?i := bs), px_fds := (px_fds p1)(fd \<mapsto> (?i, 4096)), px_room := rm\<rparr>"
    using w rn(2) p1 lb by (auto simp: px_write_def Let_def overwrite_def split: if_splits)
  have p3: "px_names p3 = (px_names (os b))(name \<mapsto> ?i)" "px_data p3 = (px_data (os b))(?i := bs)" "px_fds p3 = px_fds (os b)"
    "px_maxfd p3 = px_maxfd (os b)"
    using cl p1 p2 fdn(2) by (auto simp: px_close_def fun_eq_iff split: if_splits)
  have ino: "fd_inode p3 = fd_inode (os b)" using p3(3) by (simp add: fd_inode_def fun_eq_iff)
  have fr: "fd_inode (os b) f \<noteq> Some ?i" for f using cc by (metis less_irrefl)
  have blk: "fd_block p3 f x m = fd_block (os b) f x m" for f x m
    using fr [of f] p3(2,3) by (auto simp: fd_block_def fd_inode_def split: option.splits)
  have ij: "fds_inj p3" using cc bm_invD(4) [of "{}" b] p3(3) by (simp add: bm_good_def fds_inj_def)
  have "bm_good {} b1" "bm_in_pool b1 = bm_in_pool b" using bm_good_os [of "{}" b p3] cc ij blk rn(3) by auto
  moreover have "px_newfd p3 = Some fd" using px_newfd_cong [OF ino p3(4)] fdn(1) by simp
  ultimately show "openable {} name ?i fd b1"
    using cc rn(3) p3 ino fr by (simp add: openable_def bm_psize_def)
  have "block (px_data (os b1) ?i) 0 4096 = Some bs" using p3(2) lb rn(3) by (simp add: block_def)
  then show "on_disk empty_header (\<lambda>_. None) (px_data (os b1) ?i)"
    by (simp add: on_disk_def empty_header_def PAGE_LIST_END_def bs header_bytes_def)
  show "free_list b1 = free_list b" "pool b1 = pool b" "fd_inode (os b1) = fd_inode (os b)" "px_maxfd (os b1) = px_maxfd (os b)"
    using rn(3) p3(4) ino by simp_all
qed

lemma create_then_open:
  assumes c: "can_create fd b" and r1: "create_file name b = (Inr (), b1)" and r2: "open_file name b1 = (Inr h, b2)"
  shows "fh_inv {} [] \<lparr>handle = h, buf = b2\<rparr>" "header_ok \<lparr>handle = h, buf = b2\<rparr>" "fh_fd h = fd" "page_num h = 0"
    "no_stale fd b2" "fd_inode (os b2) = (fd_inode (os b))(fd \<mapsto> px_nexti (os b))" "px_names (os b2) name = Some (px_nexti (os b))"
    "px_maxfd (os b2) = px_maxfd (os b)"
proof -
  note cr = create_file_openable [OF c r1]
  have st: "stored empty_header (\<lambda>_. None) []" by (simp add: stored_def empty_header_def PAGE_LIST_END_def int_range_def)
  have "fd + page_num empty_header < 2 ^ 31" using c by (simp add: can_create_def empty_header_def)
  note o = open_file_inv [OF cr(1,2) st this r2] and pos = c [unfolded can_create_def]
  show "fh_inv {} [] \<lparr>handle = h, buf = b2\<rparr>" "header_ok \<lparr>handle = h, buf = b2\<rparr>" "fh_fd h = fd" "page_num h = 0"
    using o pos by (simp_all add: empty_header_def)
  show "no_stale fd b2" using c cr(3,4) o(6) by (simp add: can_create_def no_stale_def)
  show "fd_inode (os b2) = (fd_inode (os b))(fd \<mapsto> px_nexti (os b))" using o(6) cr(5) by (auto simp: fd_inode_def fun_eq_iff)
  show "px_names (os b2) name = Some (px_nexti (os b))" "px_maxfd (os b2) = px_maxfd (os b)"
    using o(6) cr(1,6) by (simp_all add: openable_def)
qed

section \<open>Writing the data of a page\<close>

lemma dec_int_take: "take 4 d' = take 4 d \<Longrightarrow> dec_int d' = dec_int d"
proof -
  assume t: "take 4 d' = take 4 d"
  have "d' ! j = d ! j" if "j < 4" for j using that arg_cong [OF t, of "\<lambda>x. x ! j"] by simp
  then show ?thesis by (simp add: dec_int_def dec32_def)
qed

definition data_written :: "(int \<times> int) set \<Rightarrow> int list \<Rightarrow> int \<Rightarrow> int \<Rightarrow> byte list \<Rightarrow> fh_state \<Rightarrow> fh_state \<Rightarrow> bool" where
  "data_written F free p i d st st' \<longleftrightarrow> fh_inv F free st' \<and> handle st' = handle st \<and> content st' p = Some d
     \<and> bm_held (buf st') (fh_fd (handle st)) p i \<and> aside (fh_fd (handle st)) (buf st) (buf st')
     \<and> (\<forall>q. 0 \<le> q \<longrightarrow> q < page_num (handle st) \<longrightarrow> q \<noteq> p \<longrightarrow> content st' q = content st q)"

text \<open>A client that writes behind the header of a page it holds and marks the page dirty changes that page only.\<close>

lemma wpE_write_data:
  assumes inv: "fh_inv F free \<lparr>handle = h, buf = b\<rparr>" and p: "0 \<le> p" "p < page_num h" "p \<notin> set free"
    and hl: "bm_held b (fh_fd h) p i" and d: "view b (fh_fd h) p = Some d" and off: "4 \<le> off" "off + length bs \<le> 4096"
  shows "wpE (seqE (liftB (store_bytes i off bs)) (fh_mark_dirty p))
    (\<lambda>_. data_written F free p i (patch off bs d) \<lparr>handle = h, buf = b\<rparr>) R \<lparr>handle = h, buf = b\<rparr>"
proof -
  let ?f = "fh_fd h" and ?st = "\<lparr>handle = h, buf = b\<rparr>" and ?d = "patch off bs d"
  note iv = fh_invD [OF inv, simplified]
  have k: "key_ok ?f q" if "0 \<le> q" "q < page_num h" for q using fh_key_ok [OF inv] that by simp
  have ld: "length d = 4096" using bmc.vw_length [OF iv(2) k [OF p(1,2)] d] iv(3) by simp
  have F: "insert (?f, p) F - {(?f, p)} = F" using iv(4) by simp
  have t4: "take 4 ?d = take 4 d" using off ld by (simp add: patch_def take_append)
  have us: "dec_int d = PAGE_USED" using next_of_free_iff [OF inv, of p d] p d by simp
  have fin: "data_written F free p i ?d ?st \<lparr>handle = h, buf = b2\<rparr>"
    if w1: "wrote (insert (?f, p) F) ?f p i ?d b b1" and w2: "wrote (insert (?f, p) F - {(?f, p)}) ?f p i ?d b1 b2" for b1 b2
  proof -
    have w: "wrote F ?f p i ?d b b2" using w1 w2 quiet_trans unfolding F wrote_def by auto
    have v: "view b2 ?f q = view b ?f q" if "0 \<le> q" "q < page_num h" "q \<noteq> p" for q
      using w k [OF that(1,2)] that(3) unfolding wrote_def by simp
    have "fh_inv F free \<lparr>handle = h, buf = b2\<rparr>"
    proof (rule fh_inv_step [OF inv, where p = p and d = ?d])
      show "\<not> bm_in_pool b2 ?f q" if "page_num h \<le> q" for q using iv(13) [OF that] w unfolding wrote_def by simp
      assume "\<And>q. q \<in> set free \<Longrightarrow> q \<noteq> p \<Longrightarrow> next_of \<lparr>handle = h, buf = b2\<rparr> q = next_of ?st q"
      then show "chain (next_of \<lparr>handle = h, buf = b2\<rparr>) (first_free h) free"
        using chain_cong [of free "next_of \<lparr>handle = h, buf = b2\<rparr>" "next_of ?st"] iv(8) p(3) by metis
    qed (use w iv p v us dec_int_take [OF t4] in \<open>auto simp: wrote_def\<close>)
    then show ?thesis using w v wrote_aside [OF w p(1)] by (simp add: data_written_def wrote_def)
  qed
  have md: "wpE (mark_dirty ?f p) (\<lambda>_ b2. data_written F free p i ?d ?st \<lparr>handle = h, buf = b2\<rparr>) R' b1"
    if w1: "wrote (insert (?f, p) F) ?f p i ?d b b1" for b1 R'
    by (rule wpE_mark_dirty [of "insert (?f, p) F"]) (use w1 fin [OF w1] in \<open>auto simp: wrote_def\<close>)
  have "wpE (store_bytes i off bs) (\<lambda>_ b1. wpE (mark_dirty ?f p) (\<lambda>_ b2. data_written F free p i ?d ?st \<lparr>handle = h, buf = b2\<rparr>)
      (\<lambda>e b. R e \<lparr>handle = h, buf = b\<rparr>) b1) (\<lambda>e b. R e \<lparr>handle = h, buf = b\<rparr>) b"
    by (rule wpE_store_bytes [OF iv(2) hl d]) (use off iv(3) md in auto)
  then show ?thesis using iv(1) p by (simp add: fh_wp fh_mark_dirty_def is_valid_page_def)
qed

section \<open>Opening a file again\<close>

text \<open>The cached pages belong to open descriptors.\<close>

definition pool_open :: "bufm \<Rightarrow> bool" where
  "pool_open b \<longleftrightarrow> (\<forall>f p. bm_in_pool b f p \<longrightarrow> px_fds (os b) f \<noteq> None)"



end
