(* ===== verification/Schema.thy ===== *)
theory Schema
  imports Prelude
begin

text \<open>
  \<^verbatim>\<open>table/rid.{h,cc}\<close> and \<^verbatim>\<open>table/schema.{h,cc}\<close>: record identifiers and table schemas.  A column name is the
  string its \<open>char*\<close> points to.
\<close>

section \<open>Record identifiers\<close>

definition NULL_PAGE :: int where "NULL_PAGE = -1"
definition NULL_SLOT :: int where "NULL_SLOT = -1"

record rid =
  rid_page :: int
  rid_slot :: int

definition default_rid :: rid where
  "default_rid = \<lparr>rid_page = NULL_PAGE, rid_slot = NULL_SLOT\<rparr>"

definition mk_rid :: "int \<Rightarrow> int \<Rightarrow> rid" where
  "mk_rid page slot = \<lparr>rid_page = page, rid_slot = slot\<rparr>"

definition rid_eq :: "rid \<Rightarrow> rid \<Rightarrow> bool" where
  "rid_eq a b \<longleftrightarrow> rid_page a = rid_page b \<and> rid_slot a = rid_slot b"

definition rid_neq :: "rid \<Rightarrow> rid \<Rightarrow> bool" where
  "rid_neq a b \<longleftrightarrow> \<not> rid_eq a b"

definition rid_set :: "int \<Rightarrow> int \<Rightarrow> rid \<Rightarrow> rid" where
  "rid_set page slot r = r\<lparr>rid_page := page, rid_slot := slot\<rparr>"

text \<open>A \<open>rid\<close> in memory: two integers.\<close>

definition enc_rid :: "rid \<Rightarrow> byte list" where
  "enc_rid r = enc_int (rid_page r) @ enc_int (rid_slot r)"

definition dec_rid :: "byte list \<Rightarrow> rid" where
  "dec_rid bs = \<lparr>rid_page = dec_int bs, rid_slot = dec_int (drop 4 bs)\<rparr>"

lemma rid_eq_iff [simp]: "rid_eq a b \<longleftrightarrow> a = b"
  by (cases a; cases b) (auto simp: rid_eq_def)

lemma length_enc_rid [simp]: "length (enc_rid r) = 8"
  by (simp add: enc_rid_def)

lemma dec_rid_enc_rid: "int_range (rid_page r) \<Longrightarrow> int_range (rid_slot r) \<Longrightarrow> dec_rid (enc_rid r @ rest) = r"
  by (cases r) (simp add: dec_rid_def enc_rid_def)

section \<open>Schemas\<close>

datatype data_type = UNKNOWN | INT_T | LONG | FLOAT | DOUBLE | CHAR_T | VARCHAR

record column_type =
  ct_type :: data_type
  ct_length :: "64 word"

record column_definition =
  cd_name :: string
  cd_type :: column_type
  cd_nullable :: bool

record schema =
  col_defs :: "column_definition list"
  col_name_to_id :: "string \<rightharpoonup> int"

definition mk_schema :: schema where
  "mk_schema = \<lparr>col_defs = [], col_name_to_id = Map.empty\<rparr>"

definition add_column :: "string \<Rightarrow> column_type \<Rightarrow> bool \<Rightarrow> schema \<Rightarrow> schema" where
  "add_column name t nullable s = s\<lparr>
     col_defs := col_defs s @ [\<lparr>cd_name = name, cd_type = t, cd_nullable = nullable\<rparr>],
     col_name_to_id := (col_name_to_id s)(name \<mapsto> int (length (col_defs s)))\<rparr>"

text \<open>Every name is mapped to a column of that name, the last one added under it.\<close>

definition schema_inv :: "schema \<Rightarrow> bool" where
  "schema_inv s \<longleftrightarrow> (\<forall>n i. col_name_to_id s n = Some i \<longrightarrow> 0 \<le> i \<and> nat i < length (col_defs s) \<and> cd_name (col_defs s ! nat i) = n)
     \<and> (\<forall>d \<in> set (col_defs s). col_name_to_id s (cd_name d) \<noteq> None)"

lemma schema_inv_init: "schema_inv mk_schema"
  by (simp add: schema_inv_def mk_schema_def)

lemma schema_inv_add: "schema_inv s \<Longrightarrow> schema_inv (add_column n t b s)"
  by (fastforce simp: schema_inv_def add_column_def nth_append less_Suc_eq)

section \<open>The properties\<close>

text \<open>A schema is built by one \<open>add_column\<close> per column, in order.\<close>

definition build_schema :: "(string \<times> column_type \<times> bool) list \<Rightarrow> schema" where
  "build_schema cols = foldl (\<lambda>s (n, t, b). add_column n t b s) mk_schema cols"

lemma build_schema_snoc [simp]: "build_schema (cols @ [(n, t, b)]) = add_column n t b (build_schema cols)"
  by (simp add: build_schema_def)

lemma build_schema_Nil [simp]: "build_schema [] = mk_schema"
  by (simp add: build_schema_def)

lemma build_schema_defs: "col_defs (build_schema cols) = map (\<lambda>(n, t, b). \<lparr>cd_name = n, cd_type = t, cd_nullable = b\<rparr>) cols"
  by (induction cols rule: rev_induct) (auto simp: mk_schema_def add_column_def)

lemma build_schema_inv: "schema_inv (build_schema cols)"
  by (induction cols rule: rev_induct) (auto simp: schema_inv_init schema_inv_add)

lemma build_schema_last:
  "col_name_to_id (build_schema cols) n = Some i \<longleftrightarrow>
     (\<exists>k < length cols. i = int k \<and> fst (cols ! k) = n \<and> n \<notin> fst ` set (drop (Suc k) cols))"
proof (induction cols rule: rev_induct)
  case (snoc c cols)
  obtain m t b where c: "c = (m, t, b)" by (cases c)
  have d: "length (col_defs (build_schema cols)) = length cols" by (simp add: build_schema_defs)
  show ?case
  proof (cases "m = n")
    case True
    then show ?thesis using d by (auto simp: c add_column_def nth_append less_Suc_eq)
  next
    case False
    then show ?thesis using snoc.IH by (auto simp: c add_column_def nth_append less_Suc_eq)
  qed
qed (simp add: mk_schema_def)


end
