(* ===== verification/Page_Memory.thy ===== *)
theory Page_Memory
  imports Prelude
begin

text \<open>
  The memory of a page as the index and table formats see it through raw pointers: bytes from the address \<open>pg_addr\<close> on.
  An access outside the page is undefined behaviour.  The formats extend the record with their own fields.
\<close>

section \<open>The model\<close>

record page_mem =
  pg_addr :: int
  pg_mem :: "byte list"

definition load :: "int \<Rightarrow> int \<Rightarrow> 'm page_mem_scheme \<Rightarrow> byte list res" where
  "load a n f = (if pg_addr f \<le> a \<and> 0 \<le> n \<and> a + n \<le> pg_addr f + int (length (pg_mem f))
     then Inr (take (nat n) (drop (nat (a - pg_addr f)) (pg_mem f))) else Inl Undefined_behaviour)"

definition store :: "int \<Rightarrow> byte list \<Rightarrow> ('m page_mem_scheme, unit) eff" where
  "store a bs = bindE (getE (\<lambda>f. f)) (\<lambda>f.
     if pg_addr f \<le> a \<and> a + int (length bs) \<le> pg_addr f + int (length (pg_mem f))
     then let o' = nat (a - pg_addr f) in
       modE (\<lambda>f. f\<lparr>pg_mem := take o' (pg_mem f) @ bs @ drop (o' + length bs) (pg_mem f)\<rparr>)
     else throwE Undefined_behaviour)"

text \<open>The length is an \<open>int\<close> that converts to \<open>size_t\<close>: a negative one is out of range.\<close>

definition memmove :: "int \<Rightarrow> int \<Rightarrow> int \<Rightarrow> ('m page_mem_scheme, unit) eff" where
  "memmove dst src len = bindE (liftE (load src len)) (\<lambda>bs. store dst bs)"

section \<open>What a store changes\<close>

lemma store_run: "store a bs f = (Inr u, f') \<Longrightarrow> pg_addr f \<le> a \<and> a + int (length bs) \<le> pg_addr f + int (length (pg_mem f)) \<and>
    f' = f\<lparr>pg_mem := take (nat (a - pg_addr f)) (pg_mem f) @ bs @ drop (nat (a - pg_addr f) + length bs) (pg_mem f)\<rparr>"
  by (auto simp: store_def run_simps Let_def split: if_splits)

lemma store_fields: "store a bs f = (Inr u, f') \<Longrightarrow> pg_addr f' = pg_addr f \<and> length (pg_mem f') = length (pg_mem f)"
  by (drule store_run) auto

lemma load_store_same:
  assumes "store a bs f = (Inr u, f')"
  shows "load a (int (length bs)) f' = Inr bs"
proof -
  note r = store_run [OF assms]
  then have "nat (a - pg_addr f) + length bs \<le> length (pg_mem f)" by linarith
  then show ?thesis using r by (auto simp: load_def)
qed

lemma take_drop_splice_left: "p + n \<le> q \<Longrightarrow> q \<le> length m \<Longrightarrow> take n (drop p (take q m @ xs)) = take n (drop p m)"
  by (rule nth_equalityI) (auto simp: nth_append)

lemma take_drop_splice_right:
  "q + length bs \<le> p \<Longrightarrow> q \<le> length m \<Longrightarrow> drop p (take q m @ bs @ drop (q + length bs) m) = drop p m"
  by (simp add: add.commute)

lemma load_store_other:
  assumes st: "store a bs f = (Inr u, f')" and d: "b + n \<le> a \<or> a + int (length bs) \<le> b"
  shows "load b n f' = load b n f"
proof -
  note r = store_run [OF st]
  let ?q = "nat (a - pg_addr f)" and ?p = "nat (b - pg_addr f)"
  have q: "?q \<le> length (pg_mem f)" "?q + length bs \<le> length (pg_mem f)" using r by linarith+
  have len: "length (pg_mem f') = length (pg_mem f)" "pg_addr f' = pg_addr f" using store_fields [OF st] by auto
  show ?thesis
  proof (cases "pg_addr f \<le> b \<and> 0 \<le> n \<and> b + n \<le> pg_addr f + int (length (pg_mem f))")
    case True
    have "take (nat n) (drop ?p (pg_mem f')) = take (nat n) (drop ?p (pg_mem f))"
      using d
    proof
      assume "b + n \<le> a"
      then have "?p + nat n \<le> ?q" using True r by linarith
      then show ?thesis using r take_drop_splice_left [of ?p "nat n" ?q "pg_mem f"] q by simp
    next
      assume "a + int (length bs) \<le> b"
      then have "?q + length bs \<le> ?p" using True r by linarith
      then show ?thesis using r take_drop_splice_right [of ?q bs ?p "pg_mem f"] q by simp
    qed
    then show ?thesis using True len by (simp add: load_def)
  next
    case False
    then show ?thesis using len by (auto simp: load_def)
  qed
qed

lemma memmove_run: "memmove dst src n f = (Inr u, f') \<Longrightarrow> \<exists>bs. load src n f = Inr bs \<and> length bs = nat n \<and> 0 \<le> n \<and> store dst bs f = (Inr u, f')"
  by (auto simp: memmove_def run_simps load_def min_def split: if_splits sum.splits)

lemma load_prefix: "load a n f = Inr bs \<Longrightarrow> 0 \<le> m \<Longrightarrow> m \<le> n \<Longrightarrow> load a m f = Inr (take (nat m) bs)"
  by (auto simp: load_def min_def split: if_splits)

end
