(* ===== verification/Index_Format.thy ===== *)
theory Index_Format
  imports Schema Page_Memory
begin

text \<open>
  \<^verbatim>\<open>index/b+tree/comparator.{h,cc}\<close> and \<^verbatim>\<open>index/b+tree/index_format.{h,cc}\<close>: the layout of an index page, an
  array of record identifiers followed by an array of keys, and the comparison of keys.

  A key is a \<open>void*\<close>; \<open>heap\<close> gives the bytes from an address on.  \<open>base\<close>, \<open>rids\<close> and \<open>keys\<close> are addresses;
  the page occupies the addresses from \<open>pg_addr\<close>, and an access outside it is undefined behaviour.  \<open>keys[i]\<close> is a
  pointer, eight bytes; a \<open>rid\<close> is eight bytes.
\<close>

section \<open>The comparator\<close>

type_synonym key = "64 word"
type_synonym heap = "64 word \<Rightarrow> byte list"

definition dec64 :: "byte list \<Rightarrow> 64 word" where
  "dec64 bs = ucast (dec32 bs) OR push_bit 32 (ucast (dec32 (drop 4 bs)))"

text \<open>The order of IEEE numbers from their bits (\<open>e\<close> exponent and \<open>f\<close> fraction bits): \<open>None\<close> for a NaN, otherwise
  sign and magnitude.\<close>

definition float_key :: "nat \<Rightarrow> nat \<Rightarrow> int \<Rightarrow> int option" where
  "float_key e f bits =
     (let mag = bits mod 2 ^ (e + f) in
      if mag > (2 ^ e - 1) * 2 ^ f then None
      else Some (if bits div 2 ^ (e + f) = 1 then - mag else mag))"

definition cmp3 :: "int \<Rightarrow> int \<Rightarrow> int" where
  "cmp3 a b = (if a < b then -1 else if a = b then 0 else 1)"

definition cmp_float :: "int option \<Rightarrow> int option \<Rightarrow> int" where
  "cmp_float a b = (case (a, b) of (Some x, Some y) \<Rightarrow> cmp3 x y | _ \<Rightarrow> 0)"

fun strncmp :: "nat \<Rightarrow> byte list \<Rightarrow> byte list \<Rightarrow> int" where
  "strncmp 0 a b = 0"
| "strncmp (Suc n) (x # a) (y # b) =
     (if x \<noteq> y then uint x - uint y else if x = 0 then 0 else strncmp n a b)"
| "strncmp (Suc n) _ _ = 0"

definition compare :: "heap \<Rightarrow> data_type \<Rightarrow> key \<times> nat \<Rightarrow> key \<times> nat \<Rightarrow> int" where
  "compare h t t1 t2 = (let a = h (fst t1); b = h (fst t2) in case t of
      INT_T \<Rightarrow> cmp3 (dec_int a) (dec_int b)
    | LONG \<Rightarrow> cmp3 (sint (dec64 a)) (sint (dec64 b))
    | FLOAT \<Rightarrow> cmp_float (float_key 8 23 (uint (dec32 a))) (float_key 8 23 (uint (dec32 b)))
    | DOUBLE \<Rightarrow> cmp_float (float_key 11 52 (uint (dec64 a))) (float_key 11 52 (uint (dec64 b)))
    | CHAR_T \<Rightarrow> cmp3 (sint (ucast (fst t1) :: byte)) (sint (ucast (fst t2) :: byte))
    | VARCHAR \<Rightarrow> strncmp (min (snd t1) (snd t2)) a b
    | UNKNOWN \<Rightarrow> 0)"

section \<open>Index pages\<close>

definition DEFAULT_KEY_SIZE :: int where "DEFAULT_KEY_SIZE = 4"
definition sizeof_rid :: int where "sizeof_rid = 8"
definition sizeof_ptr :: int where "sizeof_ptr = 8"

record index_page_hdr =
  count :: int
  ix_fanout :: int
  free_start :: int
  free_space :: int

record index_format = page_mem +
  base :: int
  rids :: int
  keys :: int
  hdr :: index_page_hdr
  key_len :: nat
  key_type :: data_type

type_synonym 'a ix = "(index_format, 'a) eff"

definition key_at :: "int \<Rightarrow> index_format \<Rightarrow> key res" where
  "key_at i f = bindR (load (keys f + sizeof_ptr * i) sizeof_ptr f) (\<lambda>bs. Inr (dec64 bs))"

definition rid_at :: "int \<Rightarrow> index_format \<Rightarrow> rid res" where
  "rid_at i f = bindR (load (rids f + sizeof_rid * i) sizeof_rid f) (\<lambda>bs. Inr (dec_rid bs))"

text \<open>The binary search: keys left of the dummy key at \<open>count - 1\<close>.\<close>

function find_loop :: "(int \<Rightarrow> key res) \<Rightarrow> (key \<Rightarrow> int) \<Rightarrow> int \<Rightarrow> int \<Rightarrow> int res" where
  "find_loop at cmp left right =
     (if left \<le> right then
        let mid = (left + right) div 2 in
        bindR (at mid) (\<lambda>k.
          if cmp k < 0 then find_loop at cmp (mid + 1) right
          else if cmp k > 0 then find_loop at cmp left (mid - 1)
          else Inr mid)
      else Inr (-1))"
  by pat_completeness auto
termination by (relation "measure (\<lambda>(_, _, left, right). nat (right - left + 1))") auto

declare find_loop.simps [simp del]

definition find_in_leaf :: "heap \<Rightarrow> key \<Rightarrow> index_format \<Rightarrow> int res" where
  "find_in_leaf h k f = find_loop (\<lambda>i. key_at i f) (\<lambda>x. compare h (key_type f) (x, key_len f) (k, key_len f)) 0 (count (hdr f) - 2)"

text \<open>\<open>for (size_t i = 0; i < hdr.count - 1; i++)\<close>: with an empty page the bound is \<open>SIZE_MAX\<close>.  The second test
  compares the array \<open>keys\<close> itself with \<open>keys[i]\<close>.\<close>

fun internal_scan :: "nat \<Rightarrow> int \<Rightarrow> key \<Rightarrow> index_format \<Rightarrow> int res" where
  "internal_scan 0 i k f = Inr (-1)"
| "internal_scan (Suc n) i k f = bindR (key_at i f) (\<lambda>x.
     if k > x then internal_scan n (i + 1) k f
     else if keys f \<le> uint x then Inr i
     else internal_scan n (i + 1) k f)"

definition find_in_internal :: "key \<Rightarrow> index_format \<Rightarrow> int res" where
  "find_in_internal k f =
     (if count (hdr f) \<le> 0 then bindR (internal_scan (Suc (length (pg_mem f))) 0 k f) (\<lambda>_. Inl Undefined_behaviour)
      else bindR (internal_scan (nat (count (hdr f) - 1)) 0 k f) (\<lambda>ret.
        if ret = -1 then Inr (count (hdr f) - 1)
        else bindR (key_at ret f) (\<lambda>x. Inr (if k = x then ret + 1 else ret))))"

text \<open>\<open>search\<close> compares the pointers, not what they point to.\<close>

fun search_loop :: "nat \<Rightarrow> int \<Rightarrow> key \<Rightarrow> index_format \<Rightarrow> rid option res" where
  "search_loop 0 i k f = Inr None"
| "search_loop (Suc n) i k f = bindR (key_at i f) (\<lambda>x.
     if x = k then bindR (rid_at i f) (\<lambda>r. Inr (Some r)) else search_loop n (i + 1) k f)"

definition search :: "key \<Rightarrow> index_format \<Rightarrow> rid option res" where
  "search k f = search_loop (nat (count (hdr f))) 0 k f"

definition upd_hdr :: "(index_page_hdr \<Rightarrow> index_page_hdr) \<Rightarrow> unit ix" where
  "upd_hdr g = modE (\<lambda>f. f\<lparr>hdr := g (hdr f)\<rparr>)"

definition ix_insert :: "heap \<Rightarrow> key \<Rightarrow> rid \<Rightarrow> bool ix" where
  "ix_insert h k r = bindE (liftE (find_in_leaf h k)) (\<lambda>i.
     if i \<noteq> -1 then retE False
     else
       bindE (getE (\<lambda>f. (base f, count (hdr f)))) (\<lambda>(b, n).
       seqE (memmove (b + (i + 1) * sizeof_rid) (b + i * sizeof_rid) (to_int32 (DEFAULT_KEY_SIZE * n + sizeof_rid * (n - i)))) (
       seqE (store (b + i * sizeof_rid) (enc_rid r)) (
       seqE (modE (\<lambda>f. f\<lparr>keys := keys f + sizeof_rid\<rparr>)) (
       bindE (getE keys) (\<lambda>ks.
       let len2 = DEFAULT_KEY_SIZE * (n - i) in
       seqE (memmove (ks + len2) (ks + len2 + DEFAULT_KEY_SIZE) len2) (
       seqE (store (ks + len2) (take 4 (h k))) (
       seqE (upd_hdr (\<lambda>d. d\<lparr>count := count d + 1, free_start := free_start d + (sizeof_rid + DEFAULT_KEY_SIZE),
                 free_space := free_space d - (sizeof_rid + DEFAULT_KEY_SIZE)\<rparr>))
            (retE True)))))))))"

text \<open>The two \<open>remove\<close> functions share this body; the second \<open>memmove\<close> starts at the keys, not at the rids.\<close>

definition remove_at :: "int \<Rightarrow> bool ix" where
  "remove_at i = bindE (getE (\<lambda>f. (base f, count (hdr f)))) (\<lambda>(b, n).
     let key_end = b + sizeof_rid * n + DEFAULT_KEY_SIZE * i;
         key_begin = b + sizeof_rid * n + DEFAULT_KEY_SIZE * (i + 1);
         rid_end = b + sizeof_rid * i in
     seqE (memmove key_end key_begin (DEFAULT_KEY_SIZE * (n - i - 1))) (
     seqE (memmove rid_end key_begin (to_int32 (DEFAULT_KEY_SIZE * (n - 1) + sizeof_rid * (n - i - 1)))) (
     seqE (upd_hdr (\<lambda>d. d\<lparr>count := count d - 1, free_start := free_start d - (sizeof_rid + DEFAULT_KEY_SIZE),
               free_space := free_space d + (sizeof_rid + DEFAULT_KEY_SIZE)\<rparr>))
          (retE True))))"

definition remove_index :: "int \<Rightarrow> bool ix" where
  "remove_index i = bindE (getE (\<lambda>f. count (hdr f))) (\<lambda>n. if i \<ge> n then retE False else remove_at i)"

definition remove_key :: "heap \<Rightarrow> key \<Rightarrow> rid \<Rightarrow> bool ix" where
  "remove_key h k r = bindE (liftE (find_in_leaf h k)) (\<lambda>i. if i = -1 then retE False else remove_at i)"

definition enough :: "index_format \<Rightarrow> bool" where
  "enough f \<longleftrightarrow> count (hdr f) > 0"

section \<open>Searching ordered keys\<close>

text \<open>The contract of a comparison: its sign is the order of a value of the keys.\<close>

locale ordered_keys =
  fixes cmp :: "key \<Rightarrow> key \<Rightarrow> int" and val :: "key \<Rightarrow> int"
  assumes neg: "cmp a b < 0 \<longleftrightarrow> val a < val b"
    and pos: "cmp a b > 0 \<longleftrightarrow> val b < val a"
begin

lemma zero: "cmp a b = 0 \<longleftrightarrow> val a = val b"
  using neg [of a b] pos [of a b] by linarith

lemma find_loop_correct:
  assumes "\<And>i. left \<le> i \<Longrightarrow> i \<le> right \<Longrightarrow> at i = Inr (ks i)"
    and "\<And>i j. left \<le> i \<Longrightarrow> i \<le> j \<Longrightarrow> j \<le> right \<Longrightarrow> val (ks i) \<le> val (ks j)"
    and "0 \<le> left"
  shows "\<exists>r. find_loop at (\<lambda>x. cmp x k) left right = Inr r \<and>
    (if r = -1 then \<forall>i. left \<le> i \<and> i \<le> right \<longrightarrow> val (ks i) \<noteq> val k
     else left \<le> r \<and> r \<le> right \<and> val (ks r) = val k)"
  using assms
proof (induction at "\<lambda>x. cmp x k" left right rule: find_loop.induct)
  case (1 at left right)
  show ?case
  proof (cases "left \<le> right")
    case False
    then show ?thesis by (simp add: find_loop.simps)
  next
    case True
    define mid where "mid = (left + right) div 2"
    have mid: "left \<le> mid" "mid \<le> right" using True by (auto simp: mid_def)
    have at: "at mid = Inr (ks mid)" using "1.prems"(1) mid by simp
    consider "cmp (ks mid) k < 0" | "cmp (ks mid) k > 0" | "cmp (ks mid) k = 0" by linarith
    then show ?thesis
    proof cases
      case 1
      have "\<exists>r. find_loop at (\<lambda>x. cmp x k) (mid + 1) right = Inr r \<and>
          (if r = -1 then \<forall>i. mid + 1 \<le> i \<and> i \<le> right \<longrightarrow> val (ks i) \<noteq> val k
           else mid + 1 \<le> r \<and> r \<le> right \<and> val (ks r) = val k)"
        by (rule "1.hyps"(1) [OF True mid_def 1]) (use "1.prems" mid in auto)
      then obtain r where r: "find_loop at (\<lambda>x. cmp x k) (mid + 1) right = Inr r"
        "if r = -1 then \<forall>i. mid + 1 \<le> i \<and> i \<le> right \<longrightarrow> val (ks i) \<noteq> val k
           else mid + 1 \<le> r \<and> r \<le> right \<and> val (ks r) = val k" by blast
      have "val (ks i) < val k" if "left \<le> i" "i \<le> mid" for i
        using "1.prems"(2) [of i mid] that mid 1 neg by fastforce
      then have "val (ks i) \<noteq> val k" if "r = -1" "left \<le> i" "i \<le> right" for i
        using r(2) that by (cases "i \<le> mid") fastforce+
      then show ?thesis using r mid at 1 True by (subst find_loop.simps) (auto simp: Let_def mid_def [symmetric])
    next
      case 2
      have "\<exists>r. find_loop at (\<lambda>x. cmp x k) left (mid - 1) = Inr r \<and>
          (if r = -1 then \<forall>i. left \<le> i \<and> i \<le> mid - 1 \<longrightarrow> val (ks i) \<noteq> val k
           else left \<le> r \<and> r \<le> mid - 1 \<and> val (ks r) = val k)"
        by (rule "1.hyps"(2) [OF True mid_def _ 2]) (use "1.prems" mid 2 in auto)
      then obtain r where r: "find_loop at (\<lambda>x. cmp x k) left (mid - 1) = Inr r"
        "if r = -1 then \<forall>i. left \<le> i \<and> i \<le> mid - 1 \<longrightarrow> val (ks i) \<noteq> val k
           else left \<le> r \<and> r \<le> mid - 1 \<and> val (ks r) = val k" by blast
      have "val k < val (ks i)" if "mid \<le> i" "i \<le> right" for i
        using "1.prems"(2) [of mid i] that mid 2 pos by fastforce
      then have "val (ks i) \<noteq> val k" if "r = -1" "left \<le> i" "i \<le> right" for i
        using r(2) that by (cases "mid \<le> i") fastforce+
      then show ?thesis using r mid at 2 True by (subst find_loop.simps) (auto simp: Let_def mid_def [symmetric])
    next
      case 3
      have "find_loop at (\<lambda>x. cmp x k) left right = Inr mid"
        using at True 3 by (subst find_loop.simps) (simp add: Let_def mid_def [symmetric])
      then show ?thesis using mid "1.prems"(3) zero [of "ks mid" k] 3 by auto
    qed
  qed
qed

end

lemma cmp3_sign: "cmp3 a b < 0 \<longleftrightarrow> a < b" "cmp3 a b > 0 \<longleftrightarrow> b < a"
  by (auto simp: cmp3_def)

interpretation int_keys: ordered_keys "\<lambda>a b. compare h INT_T (a, n) (b, n)" "\<lambda>a. dec_int (h a)" for h n
  by unfold_locales (simp_all add: compare_def cmp3_sign)

interpretation long_keys: ordered_keys "\<lambda>a b. compare h LONG (a, n) (b, n)" "\<lambda>a. sint (dec64 (h a))" for h n
  by unfold_locales (simp_all add: compare_def cmp3_sign)

interpretation char_keys: ordered_keys "\<lambda>a b. compare h CHAR_T (a, n) (b, n)" "\<lambda>a. sint (ucast a :: byte)" for h n
  by unfold_locales (simp_all add: compare_def cmp3_sign)

text \<open>The value of a key of an integral type.\<close>

definition key_val :: "heap \<Rightarrow> data_type \<Rightarrow> key \<Rightarrow> int" where
  "key_val h t a = (case t of INT_T \<Rightarrow> dec_int (h a) | LONG \<Rightarrow> sint (dec64 (h a)) | CHAR_T \<Rightarrow> sint (ucast a :: byte) | _ \<Rightarrow> 0)"

section \<open>The properties\<close>

lemma load_fields:
  "load a n (f\<lparr>keys := x\<rparr>) = load a n f" "load a n (f\<lparr>hdr := y\<rparr>) = load a n f"
  by (simp_all add: load_def)

lemma store_ix_fields: "store a bs (f :: index_format) = (Inr u, f') \<Longrightarrow> base f' = base f \<and> rids f' = rids f \<and> keys f' = keys f \<and>
    hdr f' = hdr f"
  by (drule store_run) auto

lemma find_in_leaf_int:
  assumes "key_type f = INT_T"
    and "\<And>i. 0 \<le> i \<Longrightarrow> i \<le> count (hdr f) - 2 \<Longrightarrow> key_at i f = Inr (ks i)"
    and "\<And>i j. 0 \<le> i \<Longrightarrow> i \<le> j \<Longrightarrow> j \<le> count (hdr f) - 2 \<Longrightarrow> dec_int (h (ks i)) \<le> dec_int (h (ks j))"
  shows "\<exists>r. find_in_leaf h k f = Inr r \<and>
    (if r = -1 then \<forall>i. 0 \<le> i \<and> i \<le> count (hdr f) - 2 \<longrightarrow> dec_int (h (ks i)) \<noteq> dec_int (h k)
     else 0 \<le> r \<and> r \<le> count (hdr f) - 2 \<and> dec_int (h (ks r)) = dec_int (h k))"
  unfolding find_in_leaf_def assms(1)
  using int_keys.find_loop_correct [of 0 "count (hdr f) - 2" "\<lambda>i. key_at i f" ks h "key_len f" k] assms(2,3) by simp

text \<open>C23: the binary search of a leaf is correct and ends.  For keys of every integral column type, when the keys below the
  dummy key are readable and in ascending order of their values, \<open>find_in_leaf\<close> returns a position whose key has the value
  searched for, and -1 exactly when there is none.\<close>

theorem find_in_leaf_correct:
  assumes "key_type f \<in> {INT_T, LONG, CHAR_T}"
    and "\<And>i. 0 \<le> i \<Longrightarrow> i \<le> count (hdr f) - 2 \<Longrightarrow> key_at i f = Inr (ks i)"
    and "\<And>i j. 0 \<le> i \<Longrightarrow> i \<le> j \<Longrightarrow> j \<le> count (hdr f) - 2 \<Longrightarrow> key_val h (key_type f) (ks i) \<le> key_val h (key_type f) (ks j)"
  shows "\<exists>r. find_in_leaf h k f = Inr r \<and>
    (if r = -1 then \<forall>i. 0 \<le> i \<and> i \<le> count (hdr f) - 2 \<longrightarrow> key_val h (key_type f) (ks i) \<noteq> key_val h (key_type f) k
     else 0 \<le> r \<and> r \<le> count (hdr f) - 2 \<and> key_val h (key_type f) (ks r) = key_val h (key_type f) k)"
proof -
  let ?n = "count (hdr f) - 2"
  consider "key_type f = INT_T" | "key_type f = LONG" | "key_type f = CHAR_T" using assms(1) by auto
  then show ?thesis
  proof cases
    case 1
    then show ?thesis using int_keys.find_loop_correct [of 0 ?n "\<lambda>i. key_at i f" ks h "key_len f" k] assms(2,3)
      by (simp add: find_in_leaf_def key_val_def cong: if_cong split del: if_split)
  next
    case 2
    then show ?thesis using long_keys.find_loop_correct [of 0 ?n "\<lambda>i. key_at i f" ks h "key_len f" k] assms(2,3)
      by (simp add: find_in_leaf_def key_val_def cong: if_cong split del: if_split)
  next
    case 3
    then show ?thesis using char_keys.find_loop_correct [of 0 ?n "\<lambda>i. key_at i f" ks h "key_len f" k] assms(2,3)
      by (simp add: find_in_leaf_def key_val_def cong: if_cong split del: if_split)
  qed
qed

definition fmt_demo :: index_format where
  "fmt_demo = \<lparr>pg_addr = 1000, pg_mem = replicate 16 7 @ [10,0,0,0,0,0,0,0, 20,0,0,0,0,0,0,0, 30,0,0,0,0,0,0,0] @ replicate 60 0,
     base = 1016, rids = 1016, keys = 1016, hdr = \<lparr>count = 3, ix_fanout = 9, free_start = 0, free_space = 0\<rparr>, key_len = 4,
     key_type = INT_T\<rparr>"

definition heap_demo :: heap where
  "heap_demo a = enc_int (uint a)"

definition keys_demo :: "int \<Rightarrow> key" where
  "keys_demo i = (if i = 0 then 10 else 20)"

lemma fmt_demo_keys: "0 \<le> i \<Longrightarrow> i \<le> count (hdr fmt_demo) - 2 \<Longrightarrow> key_at i fmt_demo = Inr (keys_demo i)"
proof -
  assume "0 \<le> i" "i \<le> count (hdr fmt_demo) - 2"
  then have "i = 0 \<or> i = 1" by (auto simp: fmt_demo_def)
  moreover have "key_at 0 fmt_demo = Inr 10" by code_simp
  moreover have "key_at 1 fmt_demo = Inr 20" by code_simp
  ultimately show ?thesis by (auto simp: keys_demo_def)
qed

theorem find_in_leaf_correct_witness:
  "\<exists>r. find_in_leaf heap_demo 20 fmt_demo = Inr r \<and> (r = -1 \<or> dec_int (heap_demo (keys_demo r)) = 20)"
proof -
  have v: "dec_int (heap_demo 10) = 10" "dec_int (heap_demo 20) = 20" by code_simp+
  have "dec_int (heap_demo (keys_demo i)) \<le> dec_int (heap_demo (keys_demo j))" if "0 \<le> i" "i \<le> j" for i j
    using that by (auto simp: keys_demo_def v)
  moreover have "key_type fmt_demo = INT_T" by (simp add: fmt_demo_def)
  ultimately show ?thesis
    using find_in_leaf_correct [of fmt_demo keys_demo heap_demo 20] fmt_demo_keys v(2) by (auto simp: key_val_def split: if_splits)
qed

text \<open>Inserting a new key damages the page.  The position is the \<open>-1\<close> that says the key is absent, so the record
  identifier is written into the eight bytes before the array, the bytes that were there become the first identifier,
  and the \<open>keys\<close> pointer has moved by one identifier.\<close>

theorem insert_writes_before_page:
  assumes "ix_insert h k r f = (Inr True, f')" "base f \<le> keys f" "0 \<le> count (hdr f)" "count (hdr f) < 2 ^ 20"
  shows "load (base f - 8) 8 f' = Inr (enc_rid r) \<and> load (base f) 8 f' = load (base f - 8) 8 f \<and>
    keys f' = keys f + 8 \<and> count (hdr f') = count (hdr f) + 1"
proof -
  let ?n = "count (hdr f)" and ?b = "base f"
  let ?len = "12 * ?n + 8" and ?len2 = "4 * (?n + 1)"
  have len: "to_int32 (DEFAULT_KEY_SIZE * ?n + sizeof_rid * (?n - (-1))) = ?len"
    using assms(3,4) by (simp add: to_int32_id DEFAULT_KEY_SIZE_def sizeof_rid_def algebra_simps)
  obtain f1 f2 f4 f5 where
    1: "memmove ?b (?b - 8) ?len f = (Inr (), f1)" and 2: "store (?b - 8) (enc_rid r) f1 = (Inr (), f2)"
    and 4: "memmove (keys f2 + 8 + ?len2) (keys f2 + 8 + ?len2 + 4) ?len2 (f2\<lparr>keys := keys f2 + 8\<rparr>) = (Inr (), f4)"
    and 5: "store (keys f2 + 8 + ?len2) (take 4 (h k)) f4 = (Inr (), f5)"
    and f': "keys f' = keys f5" "count (hdr f') = count (hdr f5) + 1" "\<And>a n. load a n f' = load a n f5"
    using assms(1) len
    by (auto simp: ix_insert_def bindE_Inr seqE_Inr liftE_def getE_def modE_def retE_def upd_hdr_def Let_def sizeof_rid_def
        DEFAULT_KEY_SIZE_def load_fields algebra_simps split: if_splits)
  obtain bs where bs: "load (?b - 8) ?len f = Inr bs" "length bs = nat ?len" "store ?b bs f = (Inr (), f1)"
    using memmove_run [OF 1] by blast
  obtain cs where cs: "store (keys f2 + 8 + ?len2) cs (f2\<lparr>keys := keys f2 + 8\<rparr>) = (Inr (), f4)"
    using memmove_run [OF 4] by blast
  have ks: "keys f2 = keys f" "keys f5 = keys f + 8" "count (hdr f5) = ?n"
    using store_ix_fields [OF bs(3)] store_ix_fields [OF 2] store_ix_fields [OF cs] store_ix_fields [OF 5] by auto
  have far: "load a 8 f5 = load a 8 f2" if "a \<le> ?b" for a
    using load_store_other [OF 5, of a 8] load_store_other [OF cs, of a 8] that assms(2,3) ks(1) by (simp add: load_fields)
  have "load (?b - 8) 8 f2 = Inr (enc_rid r)" using load_store_same [OF 2] by simp
  moreover have "load ?b 8 f2 = load ?b 8 f1" using load_store_other [OF 2, of ?b 8] by simp
  moreover have "load ?b 8 f1 = Inr (take 8 bs)"
    using load_prefix [OF load_store_same [OF bs(3)], of 8] bs(2) assms(3) by simp
  moreover have "load (?b - 8) 8 f = Inr (take 8 bs)" using load_prefix [OF bs(1), of 8] assms(3) by simp
  ultimately show ?thesis using far [of "?b - 8"] far [of ?b] f' ks by simp
qed

theorem insert_writes_before_page_witness:
  "fst (ix_insert heap_demo 25 \<lparr>rid_page = 5, rid_slot = 6\<rparr> fmt_demo) = Inr True \<and>
   load 1008 8 (snd (ix_insert heap_demo 25 \<lparr>rid_page = 5, rid_slot = 6\<rparr> fmt_demo)) = Inr (enc_rid \<lparr>rid_page = 5, rid_slot = 6\<rparr>)"
proof -
  have r: "fst (ix_insert heap_demo 25 \<lparr>rid_page = 5, rid_slot = 6\<rparr> fmt_demo) = Inr True" by code_simp
  then have "ix_insert heap_demo 25 \<lparr>rid_page = 5, rid_slot = 6\<rparr> fmt_demo =
      (Inr True, snd (ix_insert heap_demo 25 \<lparr>rid_page = 5, rid_slot = 6\<rparr> fmt_demo))" by (metis prod.collapse)
  from insert_writes_before_page [OF this] r show ?thesis by (simp add: fmt_demo_def)
qed

end
