(* ===== verification/B_Plus_Tree.thy ===== *)
theory B_Plus_Tree
  imports IO_Manager Index_Format
begin

text \<open>
  \<^verbatim>\<open>index/b+tree/node.{h,cc}\<close>, \<^verbatim>\<open>leaf_node.{h,cc}\<close>, \<^verbatim>\<open>internal_node.{h,cc}\<close>, \<^verbatim>\<open>b_plus_tree.{h,cc}\<close> and
  \<^verbatim>\<open>index_handle.{h,cc}\<close>: the B+ tree.

  Node objects live in a heap (\<open>nodes\<close>) beside the paged file of the index; \<open>nd_kind\<close> is the dynamic type of an
  object.  The virtual functions of the base class have no body, so calling one on a \<open>Plain_node\<close> is undefined.
  Members a constructor does not set come from the argument \<open>raw\<close>.  \<open>index_handle::get_this_page\<close> is declared but
  defined nowhere: it is the parameter \<open>gtp\<close>.  \<open>page_handle_\<close> of a node is never assigned, so its \<open>data()\<close> is null
  and \<open>base\<close> becomes 16.
\<close>

section \<open>The state\<close>

datatype node_kind = Plain_node | Leaf_node | Internal_node

record bnode =
  nd_kind :: node_kind
  page_id :: rid
  parent :: "nat option"
  next_leaf :: "nat option"
  fmt :: index_format

record index_header =
  num_pages :: int
  root_page :: int
  pair_size :: int
  ih_fanout :: int
  ih_height :: int
  attr_type :: int
  attr_length :: int

record btree =
  bt_file :: fh_state
  index_header :: index_header
  ih_header_changed :: bool
  height :: int
  bt_fanout :: int
  root :: "nat option"
  nodes :: "nat \<Rightarrow> bnode option"
  fresh_node :: nat

type_synonym 'a bt = "(btree, 'a) eff"
type_synonym gtp = "int \<Rightarrow> page_handle fh"

definition on_file :: "'a fh \<Rightarrow> 'a bt" where
  "on_file m t = (case m (bt_file t) of (r, f) \<Rightarrow> (r, t\<lparr>bt_file := f\<rparr>))"

definition node_at :: "nat \<Rightarrow> bnode bt" where
  "node_at a = liftE (\<lambda>t. case nodes t a of None \<Rightarrow> Inl Undefined_behaviour | Some n \<Rightarrow> Inr n)"

definition upd_node :: "nat \<Rightarrow> (bnode \<Rightarrow> bnode) \<Rightarrow> unit bt" where
  "upd_node a g = bindE (node_at a) (\<lambda>n. modE (\<lambda>t. t\<lparr>nodes := (nodes t)(a \<mapsto> g n)\<rparr>))"

definition deref_ptr :: "nat option \<Rightarrow> nat bt" where
  "deref_ptr p = (case p of None \<Rightarrow> throwE Undefined_behaviour | Some a \<Rightarrow> retE a)"

definition new_obj :: "bnode \<Rightarrow> nat bt" where
  "new_obj n = bindE (getE fresh_node) (\<lambda>a.
     seqE (modE (\<lambda>t. t\<lparr>fresh_node := Suc a, nodes := (nodes t)(a \<mapsto> n)\<rparr>)) (retE a))"

definition delete_obj :: "nat \<Rightarrow> unit bt" where
  "delete_obj a = seqE (bindE (node_at a) (\<lambda>_. retE ())) (modE (\<lambda>t. t\<lparr>nodes := (nodes t)(a := None)\<rparr>))"

text \<open>An operation of the index page of a node.\<close>

definition on_fmt :: "nat \<Rightarrow> 'a ix \<Rightarrow> 'a bt" where
  "on_fmt a m = bindE (node_at a) (\<lambda>n. (\<lambda>t. case m (fmt n) of (r, f) \<Rightarrow> (r, t\<lparr>nodes := (nodes t)(a \<mapsto> n\<lparr>fmt := f\<rparr>)\<rparr>)))"

section \<open>Index handle\<close>

definition ih_allocate_page :: "int bt" where
  "ih_allocate_page = bindE (on_file fh_allocate_page) (\<lambda>ph. retE (ph_page ph))"

text \<open>A failed \<open>assert\<close> aborts the program.\<close>

definition ih_dispose_page :: "int \<Rightarrow> unit bt" where
  "ih_dispose_page page =
     seqE (on_file (dispose_page page)) (
     seqE (modE (\<lambda>t. t\<lparr>index_header := (index_header t)\<lparr>num_pages := num_pages (index_header t) - 1\<rparr>\<rparr>)) (
     bindE (getE (\<lambda>t. num_pages (index_header t))) (\<lambda>n.
     seqE (guardE (n > 0) Undefined_behaviour) (modE (\<lambda>t. t\<lparr>ih_header_changed := True\<rparr>)))))"

definition ih_pin_page :: "int \<Rightarrow> unit bt" where
  "ih_pin_page page = bindE (on_file (get_this_page page)) (\<lambda>_. retE ())"

text \<open>\<open>unpin_page\<close> unpins page 0 whatever its argument.\<close>

definition ih_unpin_page :: "int \<Rightarrow> unit bt" where
  "ih_unpin_page page = on_file (fh_unpin_page 0)"

definition ih_force_pages :: "unit bt" where
  "ih_force_pages = on_file (fh_force_page ALL_PAGES)"

definition ih_mark_dirty :: "int \<Rightarrow> unit bt" where
  "ih_mark_dirty page = on_file (fh_mark_dirty page)"

section \<open>Nodes\<close>

definition mk_plain_node :: "bnode \<Rightarrow> rid \<Rightarrow> bnode" where
  "mk_plain_node raw r = raw\<lparr>nd_kind := Plain_node, page_id := r, parent := None, fmt := (fmt raw)\<lparr>base := 0 + 16\<rparr>\<rparr>"

definition mk_leaf_node :: "bnode \<Rightarrow> nat option \<Rightarrow> rid \<Rightarrow> bnode" where
  "mk_leaf_node raw p r = raw\<lparr>nd_kind := Leaf_node, page_id := r, parent := p\<rparr>"

definition mk_internal_node :: "bnode \<Rightarrow> nat option \<Rightarrow> rid \<Rightarrow> bnode" where
  "mk_internal_node raw p r = raw\<lparr>nd_kind := Internal_node, page_id := r, parent := p\<rparr>"

definition is_root :: "nat \<Rightarrow> bool bt" where
  "is_root a = bindE (node_at a) (\<lambda>n. retE (parent n = None))"

definition set_parent :: "nat option \<Rightarrow> nat \<Rightarrow> unit bt" where
  "set_parent p a = upd_node a (\<lambda>n. n\<lparr>parent := p\<rparr>)"

definition pin_node :: "gtp \<Rightarrow> nat \<Rightarrow> unit bt" where
  "pin_node gtp a = bindE (node_at a) (\<lambda>n.
     seqE (bindE (on_file (gtp (rid_page (page_id n)))) (\<lambda>_. retE ()))
          (upd_node a (\<lambda>n. n\<lparr>fmt := (fmt n)\<lparr>base := 0 + 16\<rparr>\<rparr>)))"

definition unpin_node :: "nat \<Rightarrow> unit bt" where
  "unpin_node a = bindE (node_at a) (\<lambda>n. ih_unpin_page (rid_page (page_id n)))"

definition mark_dirty_and_unpin_node :: "nat \<Rightarrow> unit bt" where
  "mark_dirty_and_unpin_node a = bindE (node_at a) (\<lambda>n.
     seqE (ih_mark_dirty (rid_page (page_id n))) (ih_unpin_page (rid_page (page_id n))))"

text \<open>The virtual functions.\<close>

definition node_size :: "nat \<Rightarrow> int bt" where
  "node_size a = bindE (node_at a) (\<lambda>n.
     if nd_kind n = Plain_node then throwE Undefined_behaviour else retE (count (hdr (fmt n))))"

definition leaf_min_size :: "int \<Rightarrow> int" where
  "leaf_min_size fo = (if c_rem fo 2 = 0 then (fo + 1) div 2 else fo div 2)"

definition internal_min_size :: "int \<Rightarrow> int" where
  "internal_min_size fo = (fo + 1) div 2"

definition min_size :: "nat \<Rightarrow> int bt" where
  "min_size a = bindE (node_at a) (\<lambda>n. bindE (getE bt_fanout) (\<lambda>fo. case nd_kind n of
      Plain_node \<Rightarrow> throwE Undefined_behaviour
    | Leaf_node \<Rightarrow> retE (leaf_min_size fo)
    | Internal_node \<Rightarrow> retE (internal_min_size fo)))"

definition max_size :: "nat \<Rightarrow> int bt" where
  "max_size a = bindE (node_at a) (\<lambda>n. bindE (getE bt_fanout) (\<lambda>fo. case nd_kind n of
      Plain_node \<Rightarrow> throwE Undefined_behaviour
    | Leaf_node \<Rightarrow> retE (fo - 1)
    | Internal_node \<Rightarrow> retE fo))"

definition is_leaf :: "nat \<Rightarrow> bool bt" where
  "is_leaf a = bindE (node_at a) (\<lambda>n.
     if nd_kind n = Plain_node then throwE Undefined_behaviour else retE (nd_kind n = Leaf_node))"

definition first_key :: "nat \<Rightarrow> key bt" where
  "first_key a = on_fmt a (liftE (key_at 0))"

text \<open>Entry \<open>i\<close> of a node.\<close>

definition pair_at :: "nat \<Rightarrow> int \<Rightarrow> (key \<times> rid) bt" where
  "pair_at a i = bindE (on_fmt a (liftE (key_at i))) (\<lambda>k. bindE (on_fmt a (liftE (rid_at i))) (\<lambda>r. retE (k, r)))"

definition fmt_insert :: "heap \<Rightarrow> nat \<Rightarrow> key \<times> rid \<Rightarrow> unit bt" where
  "fmt_insert h a e = bindE (on_fmt a (ix_insert h (fst e) (snd e))) (\<lambda>_. retE ())"

definition fmt_remove :: "heap \<Rightarrow> nat \<Rightarrow> key \<times> rid \<Rightarrow> bool bt" where
  "fmt_remove h a e = on_fmt a (remove_key h (fst e) (snd e))"

text \<open>\<open>for (i = lo; i < count; i++) receiver->insert(keys[i], rids[i])\<close>.\<close>

fun copy_entries :: "heap \<Rightarrow> nat \<Rightarrow> nat \<Rightarrow> int list \<Rightarrow> unit bt" where
  "copy_entries h a recv [] = retE ()"
| "copy_entries h a recv (i # is) =
     bindE (pair_at a i) (\<lambda>e. seqE (fmt_insert h recv e) (copy_entries h a recv is))"

definition entry_count :: "nat \<Rightarrow> int bt" where
  "entry_count a = bindE (node_at a) (\<lambda>n. retE (count (hdr (fmt n))))"

text \<open>The indices of \<open>for (size_t i = lo; i < count; i++)\<close>; a negative count converts to a huge bound.\<close>

definition loop_range :: "int \<Rightarrow> nat \<Rightarrow> int list bt" where
  "loop_range lo a = bindE (entry_count a) (\<lambda>c. if c < 0 then throwE Undefined_behaviour else retE [lo..c - 1])"

text \<open>\<open>for (size_t i = count - 1; i >= min_size(); i++) remove(...)\<close>: the index grows.  Both sides of the comparison are
  unsigned.\<close>

fun pop_loop :: "nat \<Rightarrow> heap \<Rightarrow> nat \<Rightarrow> int \<Rightarrow> unit bt" where
  "pop_loop 0 h a i = throwE Diverges"
| "pop_loop (Suc n) h a i = bindE (min_size a) (\<lambda>m.
     if i mod 2 ^ 64 \<ge> m mod 2 ^ 64 then bindE (pair_at a i) (\<lambda>e. seqE (bindE (fmt_remove h a e) (\<lambda>_. retE ())) (pop_loop n h a (i + 1)))
     else retE ())"

definition move_half_to :: "gtp \<Rightarrow> heap \<Rightarrow> nat \<Rightarrow> nat \<Rightarrow> unit bt" where
  "move_half_to gtp h a recv =
     seqE (pin_node gtp a) (seqE (pin_node gtp recv) (
     bindE (min_size a) (\<lambda>m. bindE (loop_range m a) (\<lambda>is.
     seqE (copy_entries h a recv is) (
     bindE (entry_count a) (\<lambda>c. bindE (node_at a) (\<lambda>n.
     seqE (pop_loop (length (pg_mem (fmt n)) + nat c + 2) h a (c - 1)) (
     seqE (mark_dirty_and_unpin_node recv) (mark_dirty_and_unpin_node a)))))))))"

section \<open>Leaf nodes\<close>

definition leaf_set_next :: "nat option \<Rightarrow> nat \<Rightarrow> unit bt" where
  "leaf_set_next p a = bindE (deref_ptr p) (\<lambda>nx. bindE (node_at nx) (\<lambda>nn. bindE (entry_count a) (\<lambda>c. bindE (node_at a) (\<lambda>n.
     seqE (on_fmt a (store (rids (fmt n) + sizeof_rid * (c - 1)) (enc_rid (page_id nn))))
          (upd_node a (\<lambda>n. n\<lparr>next_leaf := p\<rparr>))))))"

definition leaf_insert :: "heap \<Rightarrow> nat \<Rightarrow> key \<Rightarrow> rid \<Rightarrow> unit bt" where
  "leaf_insert h a k r = fmt_insert h a (k, r)"

definition leaf_lookup :: "nat \<Rightarrow> key \<Rightarrow> rid bt" where
  "leaf_lookup a k = bindE (on_fmt a (liftE (search k))) (\<lambda>r. retE (case r of None \<Rightarrow> default_rid | Some x \<Rightarrow> x))"

definition leaf_remove :: "heap \<Rightarrow> nat \<Rightarrow> key \<Rightarrow> rid \<Rightarrow> bool bt" where
  "leaf_remove h a k r = fmt_remove h a (k, r)"

definition leaf_move_all_to :: "gtp \<Rightarrow> heap \<Rightarrow> nat \<Rightarrow> nat \<Rightarrow> unit bt" where
  "leaf_move_all_to gtp h a recv =
     seqE (pin_node gtp a) (seqE (pin_node gtp recv) (
     bindE (loop_range 0 a) (\<lambda>is.
     seqE (copy_entries h a recv is) (
     bindE (node_at a) (\<lambda>n.
     seqE (leaf_set_next (next_leaf n) recv) (
     seqE (mark_dirty_and_unpin_node recv) (
     seqE (mark_dirty_and_unpin_node a)
          (ih_dispose_page (rid_page (page_id n))))))))))"

definition leaf_move_first_to_end_of :: "gtp \<Rightarrow> heap \<Rightarrow> nat \<Rightarrow> nat \<Rightarrow> unit bt" where
  "leaf_move_first_to_end_of gtp h a recv =
     seqE (pin_node gtp a) (seqE (pin_node gtp recv) (
     bindE (pair_at a 0) (\<lambda>e.
     seqE (bindE (fmt_remove h a e) (\<lambda>_. retE ())) (
     seqE (fmt_insert h recv e) (
     seqE (mark_dirty_and_unpin_node recv) (mark_dirty_and_unpin_node a))))))"

definition leaf_move_last_to_front_of :: "gtp \<Rightarrow> heap \<Rightarrow> nat \<Rightarrow> nat \<Rightarrow> unit bt" where
  "leaf_move_last_to_front_of gtp h a recv =
     seqE (pin_node gtp a) (seqE (pin_node gtp recv) (
     bindE (entry_count a) (\<lambda>c.
     bindE (pair_at a (c - 1)) (\<lambda>e.
     seqE (bindE (fmt_remove h a e) (\<lambda>_. retE ())) (
     seqE (fmt_insert h recv e) (
     seqE (mark_dirty_and_unpin_node recv) (mark_dirty_and_unpin_node a)))))))"

section \<open>Internal nodes\<close>

fun index_scan :: "int list \<Rightarrow> int \<Rightarrow> index_format \<Rightarrow> int res" where
  "index_scan [] p f = Inr (-1)"
| "index_scan (i # is) p f = bindR (rid_at i f) (\<lambda>r. if rid_page r = p then Inr i else index_scan is p f)"

definition node_index :: "nat \<Rightarrow> nat \<Rightarrow> int bt" where
  "node_index a n = bindE (node_at n) (\<lambda>x. bindE (loop_range 0 a) (\<lambda>is.
     on_fmt a (liftE (index_scan is (rid_page (page_id x))))))"

definition internal_remove :: "heap \<Rightarrow> nat \<Rightarrow> int \<Rightarrow> unit bt" where
  "internal_remove h a i = bindE (pair_at a i) (\<lambda>e. bindE (fmt_remove h a e) (\<lambda>_. retE ()))"

definition node_key_at :: "nat \<Rightarrow> int \<Rightarrow> key bt" where
  "node_key_at a i = on_fmt a (liftE (key_at i))"

definition enc_ptr :: "key \<Rightarrow> byte list" where
  "enc_ptr k = enc32 (ucast k) @ enc32 (ucast (drop_bit 32 k))"

definition set_key_at :: "nat \<Rightarrow> int \<Rightarrow> key \<Rightarrow> unit bt" where
  "set_key_at a i k = bindE (node_at a) (\<lambda>n. on_fmt a (store (keys (fmt n) + sizeof_ptr * i) (enc_ptr k)))"

definition parent_of :: "nat \<Rightarrow> nat bt" where
  "parent_of a = bindE (node_at a) (\<lambda>n. deref_ptr (parent n))"

definition internal_move_all_to :: "gtp \<Rightarrow> heap \<Rightarrow> nat \<Rightarrow> nat \<Rightarrow> int \<Rightarrow> unit bt" where
  "internal_move_all_to gtp h a recv i =
     seqE (pin_node gtp a) (seqE (pin_node gtp recv) (
     bindE (parent_of a) (\<lambda>p. bindE (node_key_at p i) (\<lambda>k.
     seqE (set_key_at a 0 k) (
     bindE (loop_range 0 a) (\<lambda>is.
     seqE (copy_entries h a recv is) (
     seqE (mark_dirty_and_unpin_node recv) (mark_dirty_and_unpin_node a))))))))"

definition internal_move_first_to_end_of :: "gtp \<Rightarrow> heap \<Rightarrow> nat \<Rightarrow> nat \<Rightarrow> unit bt" where
  "internal_move_first_to_end_of gtp h a recv =
     seqE (pin_node gtp a) (seqE (pin_node gtp recv) (
     bindE (pair_at a 0) (\<lambda>e.
     seqE (fmt_insert h recv e) (
     seqE (bindE (fmt_remove h a e) (\<lambda>_. retE ())) (
     bindE (parent_of a) (\<lambda>p. bindE (node_key_at a 0) (\<lambda>k.
     seqE (set_key_at p 1 k) (
     seqE (mark_dirty_and_unpin_node recv) (mark_dirty_and_unpin_node a)))))))))"

definition internal_move_last_to_front_of :: "gtp \<Rightarrow> heap \<Rightarrow> nat \<Rightarrow> nat \<Rightarrow> int \<Rightarrow> unit bt" where
  "internal_move_last_to_front_of gtp h a recv i =
     seqE (pin_node gtp a) (seqE (pin_node gtp recv) (
     bindE (entry_count a) (\<lambda>c.
     bindE (pair_at a (c - 1)) (\<lambda>e.
     seqE (bindE (fmt_remove h a e) (\<lambda>_. retE ())) (
     bindE (parent_of a) (\<lambda>p. bindE (node_key_at p i) (\<lambda>k.
     seqE (set_key_at recv 0 k) (
     seqE (fmt_insert h recv e) (
     seqE (set_key_at p i 0) (
     seqE (mark_dirty_and_unpin_node recv) (mark_dirty_and_unpin_node a)))))))))))"

text \<open>\<open>new node(rids[i], tree_)\<close>: \<open>neighbor\<close>, \<open>lookup\<close> and \<open>remove_and_return_only_child\<close>.\<close>

definition child_at :: "bnode \<Rightarrow> nat \<Rightarrow> int \<Rightarrow> nat bt" where
  "child_at raw a i = bindE (on_fmt a (liftE (rid_at i))) (\<lambda>r. new_obj (mk_plain_node raw r))"

definition first_child :: "bnode \<Rightarrow> nat \<Rightarrow> nat bt" where
  "first_child raw a = child_at raw a 0"

definition internal_lookup :: "bnode \<Rightarrow> nat \<Rightarrow> key \<Rightarrow> nat bt" where
  "internal_lookup raw a k = bindE (on_fmt a (liftE (find_in_internal k))) (\<lambda>i. child_at raw a i)"

definition replace_and_return_first_key :: "nat \<Rightarrow> key bt" where
  "replace_and_return_first_key a = bindE (node_key_at a 0) (\<lambda>k. seqE (set_key_at a 0 0) (retE k))"

definition populate_new_root :: "heap \<Rightarrow> nat \<Rightarrow> nat \<Rightarrow> key \<Rightarrow> nat \<Rightarrow> unit bt" where
  "populate_new_root h a old k new = bindE (node_at old) (\<lambda>o'. bindE (node_at new) (\<lambda>n'.
     seqE (fmt_insert h a (0, page_id o')) (
     seqE (fmt_insert h a (k, page_id n')) (modE (\<lambda>t. t\<lparr>height := height t + 1\<rparr>)))))"

text \<open>\<open>insert_node_after\<close> looks for the old node and then inserts nothing.\<close>

fun rid_scan :: "int list \<Rightarrow> rid \<Rightarrow> index_format \<Rightarrow> unit res" where
  "rid_scan [] r f = Inr ()"
| "rid_scan (i # is) r f = bindR (rid_at i f) (\<lambda>x. if rid_eq x r then Inr () else rid_scan is r f)"

definition insert_node_after :: "nat \<Rightarrow> nat \<Rightarrow> int bt" where
  "insert_node_after a old = bindE (node_at old) (\<lambda>o'. bindE (loop_range 0 a) (\<lambda>is.
     seqE (on_fmt a (liftE (rid_scan is (page_id o')))) (entry_count a)))"

section \<open>The tree\<close>

definition mk_b_plus_tree :: "bnode \<Rightarrow> btree \<Rightarrow> btree" where
  "mk_b_plus_tree raw t = (let h = index_header t; t' = t\<lparr>root := None, bt_fanout := 0xFFFF\<rparr> in
     if ih_height h > 0 then
       t'\<lparr>root := Some (fresh_node t), fresh_node := Suc (fresh_node t), nodes := (nodes t)(fresh_node t \<mapsto>
         (if ih_height h = 1 then mk_leaf_node raw None (mk_rid (root_page h) (-1))
          else mk_internal_node raw None (mk_rid (root_page h) (-1))))\<rparr>
     else t')"

definition is_empty :: "btree \<Rightarrow> bool" where
  "is_empty t \<longleftrightarrow> root t = None"

text \<open>\<open>size_t i < height_\<close>: a negative height is a huge bound; a loop that ends falls off the end of the function.\<close>

fun leaf_loop :: "nat \<Rightarrow> int \<Rightarrow> gtp \<Rightarrow> (nat \<Rightarrow> nat bt) \<Rightarrow> nat \<Rightarrow> nat bt" where
  "leaf_loop 0 i gtp down a = throwE Undefined_behaviour"
| "leaf_loop (Suc n) i gtp down a = bindE (node_at a) (\<lambda>x.
     seqE (bindE (on_file (gtp (rid_page (page_id x)))) (\<lambda>_. retE ())) (
     bindE (down a) (\<lambda>c.
     if n = 0 then retE c
     else seqE (whenE (i \<noteq> 0) (ih_unpin_page (rid_page (page_id x)))) (leaf_loop n (i + 1) gtp down c))))"

definition descend :: "gtp \<Rightarrow> (nat \<Rightarrow> nat bt) \<Rightarrow> nat option bt" where
  "descend gtp down = bindE (getE (\<lambda>t. (root t, height t))) (\<lambda>(r, h). case r of
      None \<Rightarrow> retE None
    | Some a \<Rightarrow> if h = 1 then retE (Some a)
        else if h < 0 then throwE Undefined_behaviour
        else bindE (leaf_loop (nat h) 0 gtp down a) (\<lambda>c. retE (Some c)))"

definition find_leaf_node :: "gtp \<Rightarrow> bnode \<Rightarrow> key \<Rightarrow> nat option bt" where
  "find_leaf_node gtp raw k = descend gtp (\<lambda>a. internal_lookup raw a k)"

definition find_smallest_leaf_node :: "gtp \<Rightarrow> bnode \<Rightarrow> nat option bt" where
  "find_smallest_leaf_node gtp raw = descend gtp (\<lambda>a. child_at raw a 0)"

definition find_largest_leaf_node :: "gtp \<Rightarrow> bnode \<Rightarrow> nat option bt" where
  "find_largest_leaf_node gtp raw = descend gtp (\<lambda>a. bindE (node_size a) (\<lambda>c. child_at raw a (c - 1)))"

definition bt_find :: "gtp \<Rightarrow> heap \<Rightarrow> bnode \<Rightarrow> key \<Rightarrow> rid bt" where
  "bt_find gtp h raw k = bindE (find_leaf_node gtp raw k) (\<lambda>p. bindE (deref_ptr p) (\<lambda>a.
     bindE (on_fmt a (liftE (find_in_leaf h k))) (\<lambda>i.
     if i = -1 then retE (mk_rid (-1) (-1)) else on_fmt a (liftE (rid_at i)))))"

definition split_node :: "node_kind \<Rightarrow> gtp \<Rightarrow> heap \<Rightarrow> bnode \<Rightarrow> nat \<Rightarrow> nat bt" where
  "split_node ty gtp h raw a =
     bindE ih_allocate_page (\<lambda>page.
     seqE (bindE (on_file (gtp page)) (\<lambda>_. retE ())) (
     bindE (node_at a) (\<lambda>n.
     bindE (new_obj (raw\<lparr>nd_kind := ty, page_id := mk_rid page (-1), parent := parent n\<rparr>)) (\<lambda>b.
     seqE (move_half_to gtp h a b) (retE b)))))"

text \<open>The recursion of \<open>insert_in_parent\<close> climbs the tree: the fuel is the number of objects.\<close>

fun insert_in_parent :: "nat \<Rightarrow> gtp \<Rightarrow> heap \<Rightarrow> bnode \<Rightarrow> nat \<Rightarrow> key \<Rightarrow> nat \<Rightarrow> unit bt" where
  "insert_in_parent 0 gtp h raw n k n1 = throwE Diverges"
| "insert_in_parent (Suc fuel) gtp h raw n k n1 =
     bindE (getE root) (\<lambda>r.
     seqE (whenE (r = Some n) (
       bindE ih_allocate_page (\<lambda>page.
       bindE (new_obj (mk_internal_node raw None (mk_rid page (-1)))) (\<lambda>a.
       seqE (modE (\<lambda>t. t\<lparr>root := Some a\<rparr>)) (
       seqE (set_parent (Some a) n) (
       seqE (set_parent (Some a) n1)
            (populate_new_root h a n k n1))))))) (
     bindE (parent_of n) (\<lambda>p.
     bindE (node_size p) (\<lambda>s. bindE (max_size p) (\<lambda>m.
     if s < m then bindE (insert_node_after p n) (\<lambda>_. retE ())
     else
       bindE (split_node Internal_node gtp h raw p) (\<lambda>b.
       bindE (replace_and_return_first_key b) (\<lambda>k'.
       insert_in_parent fuel gtp h raw p k' b)))))))"

definition bt_insert :: "gtp \<Rightarrow> heap \<Rightarrow> bnode \<Rightarrow> key \<Rightarrow> rid \<Rightarrow> unit bt" where
  "bt_insert gtp h raw k p = bindE (getE is_empty) (\<lambda>e.
     if e then
       bindE ih_allocate_page (\<lambda>page.
       bindE (new_obj (mk_leaf_node raw None (mk_rid page (-1)))) (\<lambda>a.
       seqE (modE (\<lambda>t. t\<lparr>root := Some a\<rparr>)) (leaf_insert h a k p)))
     else
       bindE (find_leaf_node gtp raw k) (\<lambda>lp. case lp of
         None \<Rightarrow> throwE Std_exception
       | Some l \<Rightarrow>
          bindE (node_size l) (\<lambda>s. bindE (max_size l) (\<lambda>m.
          if s < m then leaf_insert h l k p
          else
            bindE (split_node Leaf_node gtp h raw l) (\<lambda>nl.
            bindE (node_at l) (\<lambda>ln.
            seqE (leaf_set_next (next_leaf ln) nl) (
            seqE (leaf_set_next (Some nl) l) (
            bindE (first_key nl) (\<lambda>k'.
            bindE (getE fresh_node) (\<lambda>f.
            insert_in_parent (Suc f) gtp h raw l k' nl))))))))))"

definition adjust_root :: "bnode \<Rightarrow> unit bt" where
  "adjust_root raw = bindE (getE root) (\<lambda>r. bindE (deref_ptr r) (\<lambda>a.
     bindE (is_leaf a) (\<lambda>lf. bindE (node_size a) (\<lambda>s.
     if \<not> lf \<and> s = 1 then
       bindE (child_at raw a 0) (\<lambda>c.
       seqE (modE (\<lambda>t. t\<lparr>root := Some c\<rparr>)) (seqE (set_parent None c) (delete_obj a)))
     else whenE (s = 0) (seqE (delete_obj a) (modE (\<lambda>t. t\<lparr>root := None\<rparr>)))))))"

definition redistribute :: "node_kind \<Rightarrow> gtp \<Rightarrow> heap \<Rightarrow> nat \<Rightarrow> nat \<Rightarrow> int \<Rightarrow> unit bt" where
  "redistribute ty gtp h nb a i =
     (if i \<noteq> 0 then
       (if ty = Internal_node then internal_move_last_to_front_of gtp h nb a i else leaf_move_last_to_front_of gtp h nb a)
     else
       (if ty = Internal_node then internal_move_first_to_end_of gtp h nb a else leaf_move_first_to_end_of gtp h nb a))"

text \<open>\<open>coalesce_or_redistribute\<close> and \<open>coalesce\<close> call each other up the tree: \<open>again\<close> is the call for the parent.  The
  index of the node in its parent is the constant zero, so the neighbour is entry one and \<open>coalesce\<close> always swaps.
  \<open>ty\<close> is the template argument, which selects the functions that are not virtual.\<close>

definition coalesce :: "(nat \<Rightarrow> unit bt) \<Rightarrow> node_kind \<Rightarrow> gtp \<Rightarrow> heap \<Rightarrow> nat \<Rightarrow> nat \<Rightarrow> nat \<Rightarrow> int \<Rightarrow> unit bt" where
  "coalesce again ty gtp h nb0 a0 p i0 =
     (let (nb, a, i) = (if i0 = 0 then (a0, nb0, 1) else (nb0, a0, i0)) in
      bindE (node_at a) (\<lambda>n.
      seqE (if ty = Internal_node then internal_move_all_to gtp h a nb i else leaf_move_all_to gtp h a nb) (
      seqE (internal_remove h p i) (
      bindE (node_size p) (\<lambda>s. bindE (min_size p) (\<lambda>m.
      seqE (whenE (s < m) (again p)) (
      seqE (ih_dispose_page (rid_page (page_id n))) (delete_obj a))))))))"

fun coalesce_or_redistribute :: "nat \<Rightarrow> node_kind \<Rightarrow> gtp \<Rightarrow> heap \<Rightarrow> bnode \<Rightarrow> nat \<Rightarrow> unit bt" where
  "coalesce_or_redistribute 0 ty gtp h raw a = throwE Diverges"
| "coalesce_or_redistribute (Suc fuel) ty gtp h raw a =
     bindE (is_root a) (\<lambda>r.
     if r then adjust_root raw
     else
       bindE (parent_of a) (\<lambda>p.
       bindE (child_at raw p 1) (\<lambda>nb.
       bindE (node_size a) (\<lambda>s. bindE (node_size nb) (\<lambda>s'. bindE (max_size nb) (\<lambda>m.
       if s + s' \<le> m then coalesce (\<lambda>q. coalesce_or_redistribute fuel Internal_node gtp h raw q) ty gtp h nb a p 0
       else redistribute ty gtp h nb a 0))))))"

definition remove_entry :: "gtp \<Rightarrow> heap \<Rightarrow> bnode \<Rightarrow> nat \<Rightarrow> key \<Rightarrow> rid \<Rightarrow> bool bt" where
  "remove_entry gtp h raw l k p = bindE (leaf_lookup l k) (\<lambda>r.
     if rid_neq r p then retE False
     else bindE (leaf_remove h l k p) (\<lambda>b. bindE (min_size l) (\<lambda>m. bindE (getE fresh_node) (\<lambda>f.
       seqE (whenE ((if b then 1 else 0) < m) (coalesce_or_redistribute (2 * f + 2) Leaf_node gtp h raw l)) (retE True)))))"

definition bt_remove :: "gtp \<Rightarrow> heap \<Rightarrow> bnode \<Rightarrow> key \<Rightarrow> rid \<Rightarrow> bool bt" where
  "bt_remove gtp h raw k p = bindE (getE is_empty) (\<lambda>e.
     if e then retE False
     else bindE (find_leaf_node gtp raw k) (\<lambda>lp. bindE (deref_ptr lp) (\<lambda>l. remove_entry gtp h raw l k p)))"

text \<open>\<open>update\<close> has no \<open>return\<close> after its insert.\<close>

definition bt_update :: "gtp \<Rightarrow> heap \<Rightarrow> bnode \<Rightarrow> key \<Rightarrow> rid \<Rightarrow> rid \<Rightarrow> bool bt" where
  "bt_update gtp h raw k oldp newp = bindE (bt_find gtp h raw k) (\<lambda>r.
     if rid_eq r (mk_rid (-1) (-1)) then retE False
     else bindE (bt_remove gtp h raw k oldp) (\<lambda>b.
       if \<not> b then retE False else seqE (bt_insert gtp h raw k newp) (throwE Undefined_behaviour)))"

definition destroy :: "unit bt" where
  "destroy = bindE (getE root) (\<lambda>r. bindE (deref_ptr r) (\<lambda>a. bindE (is_leaf a) (\<lambda>_.
     seqE (delete_obj a) (modE (\<lambda>t. t\<lparr>root := None\<rparr>)))))"

definition fetch_node :: "gtp \<Rightarrow> bnode \<Rightarrow> int \<Rightarrow> nat bt" where
  "fetch_node gtp raw page = seqE (bindE (on_file (gtp page)) (\<lambda>_. retE ())) (new_obj (mk_plain_node raw (mk_rid page (-1))))"

section \<open>Splitting never returns\<close>

text \<open>What the steps before the removal loop keep: the node to split, its kind, its number of entries and the size of its page.\<close>

definition still :: "nat \<Rightarrow> node_kind \<Rightarrow> (int \<Rightarrow> nat \<Rightarrow> bool) \<Rightarrow> int \<Rightarrow> btree \<Rightarrow> bool" where
  "still a kd C fo t \<longleftrightarrow> (\<exists>n. nodes t a = Some n \<and> nd_kind n = kd \<and> C (count (hdr (fmt n))) (length (pg_mem (fmt n)))) \<and> bt_fanout t = fo"

named_theorems still_rules \<open>steps that keep \<open>still\<close>\<close>

lemma still_on_file [still_rules]: "keepsE (still a kd C fo) (on_file m)"
  by (auto simp: keepsE_def still_def on_file_def split: prod.splits)

lemma still_node_at [still_rules]: "keepsE I (node_at b)"
  by (simp add: node_at_def keeps_rules)

lemma still_on_fmt_other: "b \<noteq> a \<Longrightarrow> keepsE (still a kd C fo) (on_fmt b m)"
  by (auto simp: keepsE_def still_def on_fmt_def node_at_def bindE_def liftE_def split: prod.splits option.splits sum.splits)

lemma still_on_fmt_read [still_rules]: "keepsE (still a kd C fo) (on_fmt b (liftE g))"
proof (cases "b = a")
  case True
  then show ?thesis
    by (auto simp: keepsE_def still_def on_fmt_def node_at_def bindE_def liftE_def split: prod.splits option.splits sum.splits)
qed (simp add: still_on_fmt_other)

lemma still_on_fmt_any: "keepsE (still a kd (\<lambda>_ _. True) fo) (on_fmt b m)"
  by (auto simp: keepsE_def still_def on_fmt_def node_at_def bindE_def liftE_def split: prod.splits option.splits sum.splits)

lemma still_base [still_rules]: "keepsE (still a kd C fo) (upd_node b (\<lambda>n. n\<lparr>fmt := (fmt n)\<lparr>base := x\<rparr>\<rparr>))"
  by (auto simp: keepsE_def still_def upd_node_def node_at_def bindE_def liftE_def modE_def split: option.splits)

lemma still_pin [still_rules]: "keepsE (still a kd C fo) (pin_node gtp b)"
  unfolding pin_node_def by (intro keeps_rules still_rules)

lemma still_pair_at [still_rules]: "keepsE (still a kd C fo) (pair_at b i)"
  unfolding pair_at_def by (intro keeps_rules still_rules)

lemma still_copy: "recv \<noteq> a \<Longrightarrow> keepsE (still a kd C fo) (copy_entries h b recv is)"
proof (induction "is")
  case (Cons i "is")
  then show ?case unfolding copy_entries.simps fmt_insert_def
    by (intro keeps_rules still_rules still_on_fmt_other) auto
qed (simp add: keeps_rules)

lemma keepsE_wp: "keepsE I m \<Longrightarrow> I s \<Longrightarrow> wpE m (\<lambda>_. I) (\<lambda>_ _. True) s"
  by (auto simp: keepsE_def wpE_def split: prod.splits sum.splits)

text \<open>Running on after a step that keeps \<open>I\<close>.\<close>

definition no_return_from :: "(btree \<Rightarrow> bool) \<Rightarrow> 'a bt \<Rightarrow> bool" where
  "no_return_from I m \<longleftrightarrow> (\<forall>t. I t \<longrightarrow> (\<forall>x t'. m t \<noteq> (Inr x, t')))"

lemma no_return_bind: "keepsE I m \<Longrightarrow> (\<And>x. no_return_from I (f x)) \<Longrightarrow> no_return_from I (bindE m f)"
  by (force simp: no_return_from_def keepsE_def bindE_def split: prod.splits sum.splits)

lemma no_return_seq: "keepsE I m \<Longrightarrow> no_return_from I k \<Longrightarrow> no_return_from I (seqE m k)"
  unfolding seqE_def by (rule no_return_bind)

lemma no_return_first: "no_return_from I m \<Longrightarrow> no_return_from I (bindE m f)" "no_return_from I m \<Longrightarrow> no_return_from I (seqE m k)"
  by (force simp: no_return_from_def seqE_def bindE_def split: prod.splits sum.splits)+

lemma no_return_mono: "no_return_from J m \<Longrightarrow> (\<And>t. I t \<Longrightarrow> J t) \<Longrightarrow> no_return_from I m"
  by (simp add: no_return_from_def)

definition min_of :: "node_kind \<Rightarrow> int \<Rightarrow> int" where
  "min_of kd fo = (if kd = Leaf_node then leaf_min_size fo else internal_min_size fo)"

lemma min_size_run: "still a kd C fo t \<Longrightarrow> kd \<noteq> Plain_node \<Longrightarrow> min_size a t = (Inr (min_of kd fo), t)"
  by (cases kd) (auto simp: min_size_def still_def node_at_def run_simps min_of_def)

lemma pop_loop_no_return:
  assumes "kd \<noteq> Plain_node" "0 \<le> min_of kd fo" "min_of kd fo \<le> i" "i + int n < 2 ^ 64"
  shows "no_return_from (still a kd (\<lambda>_ _. True) fo) (pop_loop n h a i)"
  using assms
proof (induction n arbitrary: i)
  case 0
  then show ?case by (simp add: no_return_from_def throwE_def)
next
  case (Suc n)
  have IH: "no_return_from (still a kd (\<lambda>_ _. True) fo) (pop_loop n h a (i + 1))" using Suc by simp
  have keep: "keepsE (still a kd (\<lambda>_ _. True) fo) (bindE (fmt_remove h a e) (\<lambda>_. retE ()))" for e
    unfolding fmt_remove_def by (intro keeps_rules still_on_fmt_any)
  have body: "no_return_from (still a kd (\<lambda>_ _. True) fo)
      (bindE (pair_at a i) (\<lambda>e. seqE (bindE (fmt_remove h a e) (\<lambda>_. retE ())) (pop_loop n h a (i + 1))))"
    by (intro no_return_bind no_return_seq still_rules keep IH)
  have cond: "min_of kd fo mod 2 ^ 64 \<le> i mod 2 ^ 64" using Suc.prems by simp
  show ?case unfolding no_return_from_def
  proof (intro allI impI)
    fix t x t' assume st: "still a kd (\<lambda>_ _. True) fo t"
    have "pop_loop (Suc n) h a i t =
        bindE (pair_at a i) (\<lambda>e. seqE (bindE (fmt_remove h a e) (\<lambda>_. retE ())) (pop_loop n h a (i + 1))) t"
      using cond by (simp add: bindE_run [where m = "min_size a", OF min_size_run [OF st Suc.prems(1)]])
    then show "pop_loop (Suc n) h a i t \<noteq> (Inr x, t')" using body st by (simp add: no_return_from_def)
  qed
qed

lemma still_loop_range [still_rules]: "keepsE I (loop_range lo b)"
  unfolding loop_range_def entry_count_def by (intro keeps_rules still_node_at)

lemma still_min_size [still_rules]: "keepsE I (min_size b)"
proof -
  have "keepsE I (case k of Plain_node \<Rightarrow> throwE e | Leaf_node \<Rightarrow> retE x | Internal_node \<Rightarrow> retE y)" for k e and x y :: int
    by (cases k) (simp_all add: keeps_rules)
  then show ?thesis unfolding min_size_def by (intro keeps_rules still_node_at)
qed

declare pop_loop.simps [simp del]

lemma node_at_run: "nodes t a = Some n \<Longrightarrow> node_at a t = (Inr n, t)"
  by (simp add: node_at_def liftE_def)

lemma entry_count_run: "nodes t a = Some n \<Longrightarrow> entry_count a t = (Inr (count (hdr (fmt n))), t)"
  by (simp add: entry_count_def bindE_run [of "node_at a", OF node_at_run] retE_def)

lemma move_half_no_return:
  assumes "kd \<noteq> Plain_node" "0 \<le> min_of kd fo" "min_of kd fo < c" "c + int l < 2 ^ 62" "recv \<noteq> a"
  shows "no_return_from (still a kd (\<lambda>x y. x = c \<and> y = l) fo) (move_half_to gtp h a recv)"
proof -
  let ?I = "still a kd (\<lambda>x y. x = c \<and> y = l) fo"
  have weak: "still a kd (\<lambda>_ _. True) fo t" if "?I t" for t using that by (auto simp: still_def)
  have pop: "no_return_from ?I (pop_loop (l + nat c + 2) h a (c - 1))"
    using assms by (intro no_return_mono [OF pop_loop_no_return [of kd fo] weak]) auto
  have tail: "no_return_from ?I (bindE (entry_count a) (\<lambda>c. bindE (node_at a) (\<lambda>n.
     seqE (pop_loop (length (pg_mem (fmt n)) + nat c + 2) h a (c - 1)) (
     seqE (mark_dirty_and_unpin_node recv) (mark_dirty_and_unpin_node a)))))" (is "no_return_from _ ?m")
    unfolding no_return_from_def
  proof (intro allI impI)
    fix t x t' assume st: "?I t"
    then obtain n where n: "nodes t a = Some n" "count (hdr (fmt n)) = c" "length (pg_mem (fmt n)) = l" by (auto simp: still_def)
    then have "?m t = seqE (pop_loop (l + nat c + 2) h a (c - 1)) (seqE (mark_dirty_and_unpin_node recv) (mark_dirty_and_unpin_node a)) t"
      using entry_count_run [OF n(1)] node_at_run [OF n(1)] by (simp add: bindE_run [of "entry_count a"] bindE_run [of "node_at a"])
    then show "?m t \<noteq> (Inr x, t')" 
      using no_return_first(2) [OF pop, where k = "seqE (mark_dirty_and_unpin_node recv) (mark_dirty_and_unpin_node a)"] st
      by (simp add: no_return_from_def)
  qed
  show ?thesis unfolding move_half_to_def
    by (intro no_return_bind no_return_seq still_rules still_copy assms(5) tail)
qed

lemma still_new_obj:
  assumes "still a kd C fo t" "a < fresh_node t"
  shows "\<exists>t'. new_obj n t = (Inr (fresh_node t), t') \<and> still a kd C fo t' \<and> fresh_node t \<noteq> a"
  using assms by (auto simp: new_obj_def run_simps still_def)

lemma on_file_fresh: "keepsE (\<lambda>t. fresh_node t = k) (on_file m)"
  by (auto simp: keepsE_def on_file_def split: prod.splits)

lemma keepsE_conj: "keepsE I m \<Longrightarrow> keepsE J m \<Longrightarrow> keepsE (\<lambda>t. I t \<and> J t) m"
  by (simp add: keepsE_def)

lemma split_no_return:
  assumes "kd \<noteq> Plain_node" "0 \<le> min_of kd fo" "min_of kd fo < c" "c + int l < 2 ^ 62"
  shows "no_return_from (\<lambda>t. still a kd (\<lambda>x y. x = c \<and> y = l) fo t \<and> a < fresh_node t) (split_node ty gtp h raw a)"
proof -
  let ?S = "still a kd (\<lambda>x y. x = c \<and> y = l) fo"
  let ?I = "\<lambda>t. ?S t \<and> a < fresh_node t"
  have fl: "keepsE ?I (on_file m)" for m :: "'b fh"
    by (rule keepsE_conj [OF still_on_file]) (auto simp: keepsE_def on_file_def split: prod.splits)
  have obj: "no_return_from ?I (bindE (new_obj n) (\<lambda>b. seqE (move_half_to gtp h a b) (retE b)))" for n
    unfolding no_return_from_def
  proof (intro allI impI)
    fix t x t' assume "?I t"
    then obtain t1 where t1: "new_obj n t = (Inr (fresh_node t), t1)" "?S t1" "fresh_node t \<noteq> a"
      using still_new_obj by blast
    have "bindE (new_obj n) (\<lambda>b. seqE (move_half_to gtp h a b) (retE b)) t = seqE (move_half_to gtp h a (fresh_node t)) (retE (fresh_node t)) t1"
      by (rule bindE_run) (rule t1(1))
    moreover have "no_return_from ?S (seqE (move_half_to gtp h a (fresh_node t)) (retE (fresh_node t)))"
      using move_half_no_return [OF assms t1(3)] by (rule no_return_first)
    ultimately show "bindE (new_obj n) (\<lambda>b. seqE (move_half_to gtp h a b) (retE b)) t \<noteq> (Inr x, t')"
      using t1(2) by (simp add: no_return_from_def)
  qed
  show ?thesis unfolding split_node_def ih_allocate_page_def
    by (intro no_return_bind no_return_seq keeps_rules fl still_node_at obj)
qed

section \<open>The properties\<close>

lemma on_fmt_read: "nodes t a = Some n \<Longrightarrow> on_fmt a (liftE g) t = (g (fmt n), t)"
  by (simp add: on_fmt_def bindE_run [of "node_at a", OF node_at_run] liftE_def fun_upd_idem)

lemma find_leaf_single: "root t = Some a \<Longrightarrow> height t = 1 \<Longrightarrow> find_leaf_node gtp raw k t = (Inr (Some a), t)"
  by (simp add: find_leaf_node_def descend_def run_simps)


definition leaf_demo :: bnode where
  "leaf_demo = \<lparr>nd_kind = Leaf_node, page_id = mk_rid 0 (-1), parent = None, next_leaf = None, fmt = fmt_demo\<rparr>"

definition tree_demo :: btree where
  "tree_demo = \<lparr>bt_file = demo_file, index_header = \<lparr>num_pages = 1, root_page = 0, pair_size = 12, ih_fanout = 4, ih_height = 1,
     attr_type = 1, attr_length = 4\<rparr>, ih_header_changed = False, height = 1, bt_fanout = 4, root = Some 0,
     nodes = [0 \<mapsto> leaf_demo], fresh_node = 1\<rparr>"

definition rids_demo :: "int \<Rightarrow> rid" where
  "rids_demo i = (if i = 0 then mk_rid 10 0 else mk_rid 20 0)"

lemma fmt_demo_rids: "0 \<le> i \<Longrightarrow> i \<le> count (hdr fmt_demo) - 2 \<Longrightarrow> rid_at i fmt_demo = Inr (rids_demo i)"
proof -
  assume "0 \<le> i" "i \<le> count (hdr fmt_demo) - 2"
  then have "i = 0 \<or> i = 1" by (auto simp: fmt_demo_def)
  moreover have "rid_at 0 fmt_demo = Inr (mk_rid 10 0)" by code_simp
  moreover have "rid_at 1 fmt_demo = Inr (mk_rid 20 0)" by code_simp
  ultimately show ?thesis by (auto simp: rids_demo_def)
qed


text \<open>A full leaf is never split.  In a tree of one leaf that has \<open>fanout - 1\<close> entries or more, \<open>insert\<close> does not
  return: the loop of \<open>move_half_to\<close> that should remove the moved entries counts upwards from the last one.\<close>

theorem full_leaf_never_split:
  assumes "root t = Some a" "height t = 1" "nodes t a = Some n" "nd_kind n = Leaf_node" "a < fresh_node t"
    and "4 \<le> bt_fanout t" "bt_fanout t - 1 \<le> count (hdr (fmt n))" "count (hdr (fmt n)) + int (length (pg_mem (fmt n))) < 2 ^ 62"
  shows "bt_insert gtp h raw k p t \<noteq> (Inr x, t')"
proof -
  let ?c = "count (hdr (fmt n))" and ?l = "length (pg_mem (fmt n))" and ?fo = "bt_fanout t"
  have min: "0 \<le> min_of Leaf_node ?fo" "min_of Leaf_node ?fo < ?c" using assms(6,7) by (auto simp: min_of_def leaf_min_size_def)
  have st: "still a Leaf_node (\<lambda>x y. x = ?c \<and> y = ?l) ?fo t" using assms(3,4) by (simp add: still_def)
  have size: "node_size a t = (Inr ?c, t)" "max_size a t = (Inr (?fo - 1), t)"
    using assms(3,4) by (simp_all add: node_size_def max_size_def bindE_run [of "node_at a", OF node_at_run] run_simps)
  have ne: "\<not> is_empty t" using assms(1) by (simp add: is_empty_def)
  have "no_return_from (\<lambda>t. still a Leaf_node (\<lambda>x y. x = ?c \<and> y = ?l) ?fo t \<and> a < fresh_node t) (bindE (split_node Leaf_node gtp h raw a) f)"
    for f :: "nat \<Rightarrow> unit bt"
    by (rule no_return_first, rule split_no_return) (use min assms(8) in auto)
  then have "bindE (split_node Leaf_node gtp h raw a) f t \<noteq> (Inr x, t')" for f :: "nat \<Rightarrow> unit bt"
    using st assms(5) by (simp add: no_return_from_def)
  then show ?thesis using assms(1,2,7) ne
    by (simp add: bt_insert_def run_simps bindE_run [of "find_leaf_node gtp raw k", OF find_leaf_single]
        bindE_run [of "node_size a", OF size(1)] bindE_run [of "max_size a", OF size(2)])
qed

theorem full_leaf_never_split_witness:
  "\<forall>t'. bt_insert get_this_page heap_demo leaf_demo 25 (mk_rid 5 6) tree_demo \<noteq> (Inr (), t')"
proof
  fix t'
  show "bt_insert get_this_page heap_demo leaf_demo 25 (mk_rid 5 6) tree_demo \<noteq> (Inr (), t')"
    by (rule full_leaf_never_split [of _ 0 leaf_demo]) (simp_all add: tree_demo_def leaf_demo_def fmt_demo_def)
qed

end
