(* ===== verification/Index_Manager.thy ===== *)
theory Index_Manager
  imports B_Plus_Tree
begin

text \<open>
  \<^verbatim>\<open>index/b+tree/index_manager.{h,cc}\<close> and the tree operations of \<^verbatim>\<open>index_handle.{h,cc}\<close>: indexes stored in
  paged files.  The index number \<open>n\<close> of the table file \<open>f\<close> lives in the file \<open>f.n\<close>; page 0 holds the
  \<open>index_header\<close>.  An index handle is the state of its tree (\<open>btree\<close>), which carries the file handle.  Uninitialised
  members come from the arguments \<open>raw\<close> and \<open>t0\<close>.
\<close>

section \<open>File names\<close>

text \<open>\<open>oss << filename << "." << index_no\<close>.\<close>

definition digit :: "nat \<Rightarrow> char" where
  "digit d = char_of (48 + d)"

fun decimal :: "nat \<Rightarrow> string" where
  "decimal n = (if n < 10 then [digit n] else decimal (n div 10) @ [digit (n mod 10)])"

declare decimal.simps [simp del]

definition show_int :: "int \<Rightarrow> string" where
  "show_int i = (if i < 0 then CHR ''-'' # decimal (nat (- i)) else decimal (nat i))"

definition index_file :: "string \<Rightarrow> int \<Rightarrow> string" where
  "index_file filename n = filename @ ''.'' @ show_int n"

section \<open>The number of entries of a page\<close>

text \<open>\<open>sizeof(rid) + attr_len\<close> is a \<open>size_t\<close>, so a negative length wraps around; \<open>DEFAULT_PAGE_SIZE - sizeof(page_header)\<close>
  is 4092.\<close>

definition entry_size :: "int \<Rightarrow> 64 word" where
  "entry_size attr_len = 8 + word_of_int attr_len"

partial_function (option) shrink :: "64 word \<Rightarrow> int \<Rightarrow> int option" where
  "shrink d f = (if word_of_int f * d > 4092 then shrink d (f - 1) else Some f)"

definition fanout_of :: "int \<Rightarrow> int res" where
  "fanout_of attr_len = (let d = entry_size attr_len in
     if d = 0 then Inl Undefined_behaviour
     else case shrink d (to_int32 (uint ((4092 :: 64 word) div d))) of None \<Rightarrow> Inl Diverges | Some f \<Rightarrow> Inr f)"

section \<open>Creating, opening and closing\<close>

definition enc_index_header :: "index_header \<Rightarrow> byte list" where
  "enc_index_header h = concat (map enc_int
     [num_pages h, root_page h, pair_size h, ih_fanout h, ih_height h, attr_type h, attr_length h])"

definition dec_index_header :: "byte list \<Rightarrow> index_header" where
  "dec_index_header bs = \<lparr>num_pages = dec_int bs, root_page = dec_int (drop 4 bs), pair_size = dec_int (drop 8 bs),
     ih_fanout = dec_int (drop 12 bs), ih_height = dec_int (drop 16 bs), attr_type = dec_int (drop 20 bs),
     attr_length = dec_int (drop 24 bs)\<rparr>"

text \<open>The header of a new index; \<open>num_pages\<close> is not set.\<close>

definition new_header :: "index_header \<Rightarrow> int \<Rightarrow> int \<Rightarrow> int \<Rightarrow> index_header" where
  "new_header raw ty len fo = raw\<lparr>root_page := -1, pair_size := to_int32 (uint (entry_size len)), ih_height := 0,
     attr_type := ty, attr_length := len, ih_fanout := fo\<rparr>"

definition create_index_page :: "index_header \<Rightarrow> int \<Rightarrow> int \<Rightarrow> unit fh" where
  "create_index_page raw ty len =
     bindE fh_allocate_page (\<lambda>ph.
     bindE (liftE (\<lambda>_. fanout_of len)) (\<lambda>fo.
     seqE (liftB (store_bytes (ph_slot ph) 4 (enc_index_header (new_header raw ty len fo)))) (
     seqE (guardE (ph_page ph = 0) Undefined_behaviour) (
     seqE (fh_mark_dirty 0) (
     seqE (fh_unpin_page 0) close_file)))))"

definition create_index :: "index_header \<Rightarrow> string \<Rightarrow> int \<Rightarrow> int \<Rightarrow> int \<Rightarrow> unit bm" where
  "create_index raw filename n ty len =
     seqE (create_file (index_file filename n)) (
     bindE (open_file (index_file filename n)) (\<lambda>h.
     bindE (with_handle h (create_index_page raw ty len)) (\<lambda>_. retE ())))"

definition destroy_index :: "string \<Rightarrow> int \<Rightarrow> unit bm" where
  "destroy_index filename n = destroy_file (index_file filename n)"

definition mk_index_handle :: "bnode \<Rightarrow> btree \<Rightarrow> fh_state \<Rightarrow> index_header \<Rightarrow> btree" where
  "mk_index_handle raw t0 f ihd =
     mk_b_plus_tree raw (t0\<lparr>bt_file := f, index_header := ihd, ih_header_changed := False\<rparr>)"

definition open_index :: "bnode \<Rightarrow> btree \<Rightarrow> string \<Rightarrow> int \<Rightarrow> btree bm" where
  "open_index raw t0 filename n =
     bindE (open_file (index_file filename n)) (\<lambda>h.
     bindE (with_handle h (
       bindE (get_this_page 0) (\<lambda>ph.
       bindE (page_bytes ph) (\<lambda>bs.
       seqE (fh_unpin_page 0) (retE (dec_index_header bs)))))) (\<lambda>(ihd, h').
     bindE (getE (\<lambda>b. b)) (\<lambda>b. retE (mk_index_handle raw t0 \<lparr>handle = h', buf = b\<rparr> ihd))))"

text \<open>The branch for a changed header is empty.\<close>

definition close_index :: "unit bt" where
  "close_index = on_file close_file"

section \<open>Operations of an index handle\<close>

definition ih_search :: "gtp \<Rightarrow> heap \<Rightarrow> bnode \<Rightarrow> key \<Rightarrow> rid bt" where
  "ih_search gtp h raw data = bt_find gtp h raw data"

definition insert_entry :: "gtp \<Rightarrow> heap \<Rightarrow> bnode \<Rightarrow> key \<Rightarrow> rid \<Rightarrow> unit bt" where
  "insert_entry gtp h raw data r = bt_insert gtp h raw data r"

definition delete_entry :: "gtp \<Rightarrow> heap \<Rightarrow> bnode \<Rightarrow> key \<Rightarrow> rid \<Rightarrow> bool bt" where
  "delete_entry gtp h raw data r = bt_remove gtp h raw data r"

section \<open>Facts\<close>

text \<open>Decimal numerals are injective and contain no dot.\<close>

definition char_val :: "char \<Rightarrow> nat" where
  "char_val c = of_char c - 48"

lemma char_val_digit: "d < 10 \<Longrightarrow> char_val (digit d) = d"
  by (simp add: char_val_def digit_def take_bit_nat_eq_self)

lemma decimal_value: "foldl (\<lambda>a c. 10 * a + char_val c) 0 (decimal n) = n"
proof (induction n rule: decimal.induct)
  case (1 n)
  then show ?case by (subst decimal.simps) (simp add: char_val_digit)
qed

lemma digit_ge: "d < 10 \<Longrightarrow> 48 \<le> (of_char (digit d) :: nat)"
  by (simp add: digit_def take_bit_nat_eq_self)

lemma decimal_chars: "c \<in> set (decimal n) \<Longrightarrow> 48 \<le> (of_char c :: nat)"
proof (induction n rule: decimal.induct)
  case (1 n)
  then show ?case by (subst (asm) (2) decimal.simps) (auto simp: digit_ge split: if_splits)
qed

lemma decimal_inj: "decimal m = decimal n \<Longrightarrow> m = n"
  by (metis decimal_value)

lemma decimal_no: "CHR ''.'' \<notin> set (decimal n)" "CHR ''-'' \<notin> set (decimal n)"
  using decimal_chars [of "CHR ''.''" n] decimal_chars [of "CHR ''-''" n] by auto

lemma show_int_inj: "show_int i = show_int j \<longleftrightarrow> i = j"
proof
  assume eq: "show_int i = show_int j"
  have m: "CHR ''-'' # xs \<noteq> decimal n" for xs n using decimal_no(2) [of n] by (metis list.set_intros(1))
  show "i = j"
    using eq decimal_inj [of "nat (- i)" "nat (- j)"] decimal_inj [of "nat i" "nat j"] m m [symmetric]
    by (auto simp: show_int_def split: if_splits)
qed simp

lemma show_int_no_dot: "CHR ''.'' \<notin> set (show_int i)"
  by (simp add: show_int_def decimal_no)

lemma last_dot:
  assumes "xs @ x # ys = xs' @ x # ys'" "x \<notin> set ys" "x \<notin> set ys'"
  shows "xs = xs' \<and> ys = ys'"
proof -
  have "rev ys @ x # rev xs = rev ys' @ x # rev xs'" using assms(1) by (metis rev_append rev.simps(2) append.assoc append_Cons append_Nil)
  moreover have "takeWhile (\<lambda>c. c \<noteq> x) (zs @ x # ws) = zs" if "x \<notin> set zs" for zs ws
    using that by (induction zs) auto
  ultimately have "rev ys = rev ys'" using assms(2,3) by (metis set_rev)
  then show ?thesis using assms(1) by simp
qed

lemma index_file_inj: "index_file f m = index_file g n \<longleftrightarrow> f = g \<and> m = n"
  using last_dot [of f "CHR ''.''" "show_int m" g "show_int n"] show_int_no_dot [of m] show_int_no_dot [of n]
  by (auto simp: index_file_def show_int_inj)

text \<open>The division already gives the largest number of entries, so the loop that follows it does nothing.\<close>

lemma fanout_of_nonneg:
  assumes "0 \<le> len" "len < 2 ^ 31"
  shows "fanout_of len = Inr (4092 div (8 + len))"
proof -
  have e: "uint (entry_size len) = 8 + len"
    using assms by (simp add: entry_size_def uint_word_ariths uint_word_of_int)
  have nz: "entry_size len \<noteq> 0" using e assms by (metis add_nonneg_pos order_less_irrefl uint_0_iff zero_less_numeral add.commute)
  have q: "uint ((4092 :: 64 word) div entry_size len) = 4092 div (8 + len)" by (simp add: uint_div e)
  have b: "0 \<le> 4092 div (8 + len)" "4092 div (8 + len) \<le> 4092" using assms
    by (simp_all add: pos_imp_zdiv_nonneg_iff) (smt (verit) pos_imp_zdiv_neg_iff zdiv_mono2 div_by_1)
  have i: "to_int32 (4092 div (8 + len)) = 4092 div (8 + len)" using b by (intro to_int32_id) auto
  have m: "0 \<le> 4092 div (8 + len) * (8 + len)" using assms(1) b(1) by (intro mult_nonneg_nonneg) auto
  have "4092 div (8 + len) * (8 + len) + 4092 mod (8 + len) = 4092" by (rule div_mult_mod_eq)
  moreover have "0 \<le> 4092 mod (8 + len)" using assms(1) by simp
  ultimately have m': "4092 div (8 + len) * (8 + len) \<le> 4092" by linarith
  have "uint (word_of_int (4092 div (8 + len)) * entry_size len) = 4092 div (8 + len) * (8 + len)"
    using b m m' by (simp add: uint_word_ariths uint_word_of_int e)
  then have "\<not> word_of_int (4092 div (8 + len)) * entry_size len > (4092 :: 64 word)"
    using m' by (simp add: word_less_def)
  then show ?thesis using nz by (simp add: fanout_of_def Let_def q i shrink.simps)
qed

section \<open>The properties\<close>



text \<open>C28: destroying an index removes that index only.  The file names of two different indexes differ, also when the name of
  a table contains dots and digits or the number is negative; so \<open>destroy_index\<close> removes the file of the index it is given and
  the files of all other indexes stay.\<close>

theorem destroy_index_only:
  assumes "destroy_index f m b = (Inr (), b')"
  shows "px_names (os b') (index_file f m) = None \<and>
    (\<forall>g n. (g, n) \<noteq> (f, m) \<longrightarrow> px_names (os b') (index_file g n) = px_names (os b) (index_file g n))"
  using assms index_file_inj
  by (auto simp: destroy_index_def destroy_file_def sys_def px_unlink_def bindE_def guardE_def retE_def throwE_def
      split: prod.splits option.splits if_splits)

definition two_indexes :: bufm where
  "two_indexes = file_pool\<lparr>os := file_os\<lparr>px_names := [index_file ''t'' 1 \<mapsto> 0, index_file ''t.1'' (-2) \<mapsto> 1]\<rparr>\<rparr>"

theorem destroy_index_only_witness:
  "\<exists>b'. destroy_index ''t'' 1 two_indexes = (Inr (), b') \<and> px_names (os b') (index_file ''t.1'' (-2)) = Some 1"
proof -
  obtain b' where b': "destroy_index ''t'' 1 two_indexes = (Inr (), b')"
    by (simp add: destroy_index_def destroy_file_def sys_def px_unlink_def two_indexes_def index_file_inj bindE_def guardE_def retE_def)
  have "px_names (os two_indexes) (index_file ''t.1'' (-2)) = Some 1" by (simp add: two_indexes_def)
  then show ?thesis using destroy_index_only [OF b'] b' by auto
qed

end
