(* ===== verification/Index_Store.thy ===== *)
theory Index_Store
  imports Reopen Index_Manager
begin

text \<open>
  Creating an index and opening it: the header written by \<open>create_index\<close> is the header \<open>open_index\<close> reads, through
  allocation of page 0, the buffer pool, the flush of \<open>close_file\<close> and the file system.
\<close>

section \<open>The first page of a new file\<close>

lemma first_page_on_disk:
  assumes inv: "fh_inv {} [] st" and ok: "header_ok st" and pn: "page_num (handle st) = 0" and ns: "no_stale (fh_fd (handle st)) (buf st)"
    and ino: "fd_inode (os (buf st)) (fh_fd (handle st)) = Some i" and room: "fh_fd (handle st) + 1 < 2 ^ 31" and len: "length bs \<le> 4092"
    and r1: "fh_allocate_page st = (Inr ph, st1)"
    and r2: "seqE (liftB (store_bytes (ph_slot ph) 4 bs)) (fh_mark_dirty 0) st1 = (Inr (), st2)"
    and r3: "fh_unpin_page 0 st2 = (Inr (), st3)" and r4: "close_file st3 = (Inr (), st4)"
  shows "fh_inv {} [] st3" "page_num (handle st3) = 1" "content st3 0 = Some (patch 4 bs blank_page)"
    "on_disk (handle st3) (content st3) (px_data (os (buf st4)) i)"
    "bm_good {} (buf st4)" "bm_psize (buf st4) = 4096" "\<not> bm_in_pool (buf st4) (fh_fd (handle st)) p"
    "px_names (os (buf st4)) = px_names (os (buf st))" "px_maxfd (os (buf st4)) = px_maxfd (os (buf st))"
    "fd_inode (os (buf st4)) = (fd_inode (os (buf st)))(fh_fd (handle st) := None)"
proof -
  let ?fd = "fh_fd (handle st)"
  note a = wpE_retD [OF fh_allocate_extend [OF inv] r1, unfolded allocated_def Let_def]
  have a': "ph_page ph = 0" "fh_inv {} [] st1" "fh_fd (handle st1) = ?fd" "header_changed (handle st1)" "page_num (handle st1) = 1"
    "content st1 0 = Some blank_page" "bm_held (buf st1) ?fd 0 (ph_slot ph)" "aside ?fd (buf st) (buf st1)"
    using a pn room by auto
  obtain h1 b1 where st1: "st1 = \<lparr>handle = h1, buf = b1\<rparr>" by (cases st1)
  have w: "data_written {} [] 0 (ph_slot ph) (patch 4 bs blank_page) st1 st2"
    using wpE_retD [OF wpE_write_data [of "{}" "[]" h1 b1 0 "ph_slot ph" blank_page 4 bs] r2 [unfolded st1]] a' len st1 by simp
  obtain b2 where st2: "st2 = \<lparr>handle = h1, buf = b2\<rparr>" using w st1 by (cases st2) (auto simp: data_written_def)
  have u: "same_pages [] {} st2 st3"
  proof -
    have "wpE (fh_unpin_page 0) (\<lambda>_. same_pages [] {} st2) (\<lambda>_ _. True) \<lparr>handle = h1, buf = b2\<rparr>"
      by (rule wpE_fh_unpin [of "{}" "[]"]) (use w a' st1 st2 in \<open>auto simp: data_written_def\<close>)
    from wpE_retD [OF this] r3 st2 show ?thesis by simp
  qed
  note w' = w [unfolded data_written_def] and u' = u [unfolded same_pages_def]
  show i3: "fh_inv {} [] st3" using u' by blast
  have h3: "handle st3 = h1" "fh_fd h1 = ?fd" "page_num h1 = 1" "header_changed h1" using u' st1 st2 a' by auto
  show "page_num (handle st3) = 1" using h3 by simp
  show "content st3 0 = Some (patch 4 bs blank_page)" using u' w' h3 st1 st2 by simp
  have as: "aside ?fd (buf st) (buf st3)" using a'(3,8) w' u' aside_trans by metis
  have kh: "key_ok ?fd (-1)" using ok room by (simp add: key_ok_def header_ok_def)
  have ok3: "header_ok st3" using ok as kh h3 unfolding header_ok_def aside_def by auto
  have ns3: "no_stale (fh_fd (handle st3)) (buf st3)"
  proof -
    have "lists_ok (buf st)" "lists_ok (buf st3)"
      using fh_invD(2) [OF inv] fh_invD(2) [OF i3] bm_invD(1) unfolding bm_good_def by blast+
    then show ?thesis using quiet_no_stale [of "buf st" "buf st3"] as ns h3 unfolding aside_def by simp
  qed
  have sf: "fd_inode (os (buf st3)) = fd_inode (os (buf st))" "px_names (os (buf st3)) = px_names (os (buf st))"
    "px_maxfd (os (buf st3)) = px_maxfd (os (buf st))"
    using as by (auto simp: aside_def quiet_def same_files_def)
  have "fd_inode (os (buf st3)) (fh_fd (handle st3)) = Some i" using ino sf(1) h3 by simp
  then obtain off where fd3: "px_fds (os (buf st3)) (fh_fd (handle st3)) = Some (i, off)" by (auto simp: fd_inode_def)
  note c = close_file_on_disk [OF i3 ok3 ns3 fd3 r4] and cp = close_file_pool [OF i3 ok3 ns3 r4]
  show "on_disk (handle st3) (content st3) (px_data (os (buf st4)) i)" using c(1) .
  show "bm_good {} (buf st4)" "bm_psize (buf st4) = 4096" "\<not> bm_in_pool (buf st4) ?fd p" using cp h3 by simp_all
  show "px_names (os (buf st4)) = px_names (os (buf st))" "px_maxfd (os (buf st4)) = px_maxfd (os (buf st))"
    "fd_inode (os (buf st4)) = (fd_inode (os (buf st)))(?fd := None)" using c(2) cp sf h3 by simp_all
qed

section \<open>The header of an index\<close>

lemma dec_enc_index_header:
  assumes "int_range (num_pages h)" "int_range (root_page h)" "int_range (pair_size h)" "int_range (ih_fanout h)"
    "int_range (ih_height h)" "int_range (attr_type h)" "int_range (attr_length h)"
  shows "dec_index_header (enc_index_header h @ rest) = h"
  using assms by (cases h) (simp add: dec_index_header_def enc_index_header_def)

lemma length_enc_index_header [simp]: "length (enc_index_header h) = 28"
  by (simp add: enc_index_header_def)

lemma create_index_page_steps:
  assumes "create_index_page raw ty len st = (Inr (), st')"
  obtains ph st1 fo st2 st3 where "fh_allocate_page st = (Inr ph, st1)" "fanout_of len = Inr fo"
    "seqE (liftB (store_bytes (ph_slot ph) 4 (enc_index_header (new_header raw ty len fo)))) (fh_mark_dirty 0) st1 = (Inr (), st2)"
    "fh_unpin_page 0 st2 = (Inr (), st3)" "close_file st3 = (Inr (), st')"
proof -
  obtain ph st1 where 1: "fh_allocate_page st = (Inr ph, st1)" and
    2: "bindE (liftE (\<lambda>_. fanout_of len)) (\<lambda>fo.
     seqE (liftB (store_bytes (ph_slot ph) 4 (enc_index_header (new_header raw ty len fo)))) (
     seqE (guardE (ph_page ph = 0) Undefined_behaviour) (
     seqE (fh_mark_dirty 0) (seqE (fh_unpin_page 0) close_file)))) st1 = (Inr (), st')"
    using assms by (auto simp: create_index_page_def bindE_Inr)
  obtain fo where 3: "fanout_of len = Inr fo" and
    4: "seqE (liftB (store_bytes (ph_slot ph) 4 (enc_index_header (new_header raw ty len fo)))) (
     seqE (guardE (ph_page ph = 0) Undefined_behaviour) (
     seqE (fh_mark_dirty 0) (seqE (fh_unpin_page 0) close_file))) st1 = (Inr (), st')"
    using 2 by (auto simp: bindE_Inr liftE_def)
  show thesis using that [OF 1 3] 4 by (auto simp: seqE_Inr guardE_def retE_def throwE_def split: if_splits)
qed

lemma fanout_range: "0 \<le> len \<Longrightarrow> len < 2 ^ 31 \<Longrightarrow> fanout_of len = Inr fo \<Longrightarrow> int_range fo"
proof -
  assume a: "0 \<le> len" "len < 2 ^ 31" "fanout_of len = Inr fo"
  then have fo: "fo = 4092 div (8 + len)" using fanout_of_nonneg by simp
  have "0 \<le> fo" "fo \<le> 4092" using a(1) fo by (simp_all add: pos_imp_zdiv_nonneg_iff) (smt (verit) pos_imp_zdiv_neg_iff zdiv_mono2 div_by_1)
  then show "int_range fo" by (simp add: int_range_def)
qed

lemma int_range_to_int32: "int_range (to_int32 i)"
  using sint_greater_eq [of "word_of_int i :: 32 word"] sint_less [of "word_of_int i :: 32 word"]
  by (simp add: int_range_def to_int32_def)

lemma new_header_roundtrip:
  assumes "int_range (num_pages raw)" "int_range ty" "0 \<le> len" "len < 2 ^ 31" "fanout_of len = Inr fo"
  shows "dec_index_header (enc_index_header (new_header raw ty len fo) @ rest) = new_header raw ty len fo"
proof (rule dec_enc_index_header)
  show "int_range (pair_size (new_header raw ty len fo))" by (simp add: new_header_def int_range_to_int32)
  show "int_range (ih_fanout (new_header raw ty len fo))" using fanout_range [OF assms(3-5)] by (simp add: new_header_def)
qed (use assms in \<open>simp_all add: new_header_def int_range_def\<close>)

section \<open>Creating and opening\<close>

lemma create_index_on_disk:
  assumes c: "can_create fd b" and len: "0 \<le> len" "len < 2 ^ 31" and run: "create_index raw f n ty len b = (Inr (), b1)"
  obtains fo h cont i where "fanout_of len = Inr fo" "openable {} (index_file f n) i fd b1" "on_disk h cont (px_data (os b1) i)"
    "stored h cont []" "page_num h = 1" "cont 0 = Some (patch 4 (enc_index_header (new_header raw ty len fo)) blank_page)"
proof -
  let ?name = "index_file f n" and ?i = "px_nexti (os b)"
  obtain b2 h b3 u h' where r: "create_file ?name b = (Inr (), b2)" "open_file ?name b2 = (Inr h, b3)"
    "with_handle h (create_index_page raw ty len) b3 = (Inr (u, h'), b1)"
    using run by (auto simp: create_index_def seqE_Inr bindE_Inr retE_def)
  obtain st4 where p: "create_index_page raw ty len \<lparr>handle = h, buf = b3\<rparr> = (Inr (), st4)" "b1 = buf st4"
    using r(3) by (auto simp: with_handle_def split: prod.splits sum.splits)
  note o = create_then_open [OF c r(1,2)] and cc = c [unfolded can_create_def]
  obtain ph st1 fo st2 st3 where s: "fh_allocate_page \<lparr>handle = h, buf = b3\<rparr> = (Inr ph, st1)" "fanout_of len = Inr fo"
    "seqE (liftB (store_bytes (ph_slot ph) 4 (enc_index_header (new_header raw ty len fo)))) (fh_mark_dirty 0) st1 = (Inr (), st2)"
    "fh_unpin_page 0 st2 = (Inr (), st3)" "close_file st3 = (Inr (), st4)"
    using create_index_page_steps [OF p(1)] .
  have fi: "fd_inode (os b3) (fh_fd h) = Some ?i" using o(3,6) by simp
  note d = first_page_on_disk [OF o(1,2), simplified, OF o(4) _ fi _ _ s(1,3,4,5), unfolded o(3)]
  have d': "fh_inv {} [] st3" "page_num (handle st3) = 1"
    "content st3 0 = Some (patch 4 (enc_index_header (new_header raw ty len fo)) blank_page)"
    "on_disk (handle st3) (content st3) (px_data (os b1) ?i)" "bm_good {} b1" "bm_psize b1 = 4096" "\<And>p. \<not> bm_in_pool b1 fd p"
    "px_names (os b1) = px_names (os b3)" "px_maxfd (os b1) = px_maxfd (os b3)" "fd_inode (os b1) = (fd_inode (os b3))(fd := None)"
    using d o(5) cc p(2) by auto
  have nf: "fd_inode (os b) fd = None" using px_newfdD [of "os b" fd] cc by (simp add: fd_inode_def)
  have ino: "fd_inode (os b1) = fd_inode (os b)" using d'(10) o(6) nf by (simp add: fun_eq_iff)
  have "px_newfd (os b1) = Some fd" using px_newfd_cong [OF ino] d'(9) o(8) cc by simp
  moreover have "fd_inode (os b1) g \<noteq> Some ?i" for g using ino cc by (metis less_irrefl)
  ultimately have "openable {} ?name ?i fd b1" using d' o(7) by (simp add: openable_def)
  then show thesis using that [OF s(2) _ d'(4) fh_inv_stored [OF d'(1)] d'(2,3)] by blast
qed

lemma page_bytes_same: "page_bytes ph st = (r, st') \<Longrightarrow> st' = st"
  by (auto simp: page_bytes_def liftB_def bindE_def entry_at_def liftE_def retE_def split: prod.splits sum.splits if_splits)

lemma open_index_reads:
  assumes op: "openable {} (index_file f n) i fd b1" "0 < fd" "fd + page_num h0 < 2 ^ 31"
    and disk: "on_disk h0 cont (px_data (os b1) i)" "stored h0 cont []" "0 < page_num h0" "cont 0 = Some d"
    and run: "open_index rw t0 f n b1 = (Inr t, b2)"
  shows "fh_inv {} [] (bt_file t)" "page_num (handle (bt_file t)) = page_num h0" "index_header t = dec_index_header (drop 4 d)"
    "content (bt_file t) 0 = Some d"
proof -
  obtain h b3 ihd h' where r: "open_file (index_file f n) b1 = (Inr h, b3)"
    "with_handle h (bindE (get_this_page 0) (\<lambda>ph. bindE (page_bytes ph) (\<lambda>bs. seqE (fh_unpin_page 0) (retE (dec_index_header bs))))) b3
      = (Inr (ihd, h'), b2)" "t = mk_index_handle rw t0 \<lparr>handle = h', buf = b2\<rparr> ihd"
    using run by (auto simp: open_index_def bindE_Inr getE_def retE_def)
  note o = open_file_inv [OF op(1) disk(1,2) op(3) r(1)]
  let ?st = "\<lparr>handle = h, buf = b3\<rparr>"
  obtain ph st1 bs st2 where s: "get_this_page 0 ?st = (Inr ph, st1)" "page_bytes ph st1 = (Inr bs, st1)"
    "fh_unpin_page 0 st1 = (Inr (), st2)" "ihd = dec_index_header bs" "h' = handle st2" "b2 = buf st2"
  proof -
    obtain st2 where "bindE (get_this_page 0) (\<lambda>ph. bindE (page_bytes ph) (\<lambda>bs. seqE (fh_unpin_page 0) (retE (dec_index_header bs)))) ?st
        = (Inr ihd, st2)" "h' = handle st2" "b2 = buf st2"
      using r(2) by (auto simp: with_handle_def split: prod.splits sum.splits)
    then show thesis using that page_bytes_same by (auto simp: bindE_Inr seqE_Inr retE_def) metis
  qed
  have g: "ph_page ph = 0" "same_pages [] {} ?st st1" "bm_held (buf st1) fd 0 (ph_slot ph)"
    using wpE_retD [OF get_this_page_spec [OF o(1)] s(1)] disk(3) o(3,4) by auto
  obtain b4 where st1: "st1 = \<lparr>handle = h, buf = b4\<rparr>" using g(2) by (cases st1) (auto simp: same_pages_def)
  have c0: "view b4 fd 0 = Some d" using g(2) o(3-5) disk(3,4) st1 by (simp add: same_pages_def)
  have i1: "fh_inv {} [] \<lparr>handle = h, buf = b4\<rparr>" using g(2) st1 by (simp add: same_pages_def)
  have bs: "bs = drop 4 d"
  proof -
    have gd: "bm_good {} b4" "bm_held b4 fd 0 (ph_slot ph)" using fh_invD(2) [OF i1] g(3) st1 by simp_all
    have "be_data (ent b4 (ph_slot ph)) = d" using bmc.held_vw [OF gd] c0 by simp
    then show ?thesis using s(2) st1 held_slot(1) [OF gd] by (simp add: page_bytes_def liftB_def bindE_def entry_at_eq retE_def)
  qed
  have "wpE (fh_unpin_page 0) (\<lambda>_. same_pages [] {} st1) (\<lambda>_ _. True) \<lparr>handle = h, buf = b4\<rparr>"
    by (rule wpE_fh_unpin [OF i1]) (use g(3) disk(3) o(3,4) st1 in auto)
  from wpE_retD [OF this] s(3) st1 have u: "same_pages [] {} st1 st2" by simp
  have t: "bt_file t = st2" "index_header t = ihd" using r(3) s(5,6) by (simp_all add: mk_index_handle_def mk_b_plus_tree_def Let_def)
  show "fh_inv {} [] (bt_file t)" "page_num (handle (bt_file t)) = page_num h0" "content (bt_file t) 0 = Some d"
    using u t st1 o(3,4) c0 disk(3) by (auto simp: same_pages_def)
  show "index_header t = dec_index_header (drop 4 d)" using t(2) s(4) bs by simp
qed

section \<open>The property\<close>


section \<open>A run\<close>

text \<open>Descriptor 0 is open, the disk has room for two pages, and the pool is new.  The states of the run follow.\<close>

definition tbl :: "ptr \<Rightarrow> entry_heap \<Rightarrow> nat \<Rightarrow> hash_table" where
  "tbl q m k = \<lparr>bucket_num = 20, buckets = (replicate 20 None)[1 := q], heap = m, brk = k\<rparr>"

definition entry0 :: hash_entry where
  "entry0 = \<lparr>he_fd = 1, he_page = 0, he_slot = 0, he_prev = None, he_next = None\<rparr>"

definition run_os :: "(string \<rightharpoonup> nat) \<Rightarrow> byte list \<Rightarrow> (nat \<times> nat) option \<Rightarrow> nat \<Rightarrow> nat \<Rightarrow> posix" where
  "run_os ns d f r k = \<lparr>px_names = ns, px_data = (\<lambda>_. [])(1 := d), px_fds = [0 \<mapsto> (0, 0)](1 := f), px_room = r, px_nexti = k, px_maxfd = 16\<rparr>"

definition run_slot :: "bool \<Rightarrow> byte list \<Rightarrow> int \<Rightarrow> buffer_entry" where
  "run_slot dty d n = \<lparr>be_dirty = dty, be_fd = 1, be_page = 0, be_data = d, be_pin = n\<rparr>"

definition free_slot :: buffer_entry where
  "free_slot = demo_junk\<lparr>be_data := replicate 4096 0\<rparr>"

definition run_pool :: "hash_table \<Rightarrow> buffer_entry \<Rightarrow> nat option \<Rightarrow> nat \<Rightarrow> posix \<Rightarrow> bufm" where
  "run_pool T e u n p = \<lparr>pool_size = 2, buffer_size = 4096, table = T, pool = [e, free_slot],
     free_list = (if u = None then [0, 1] else [1]), used_list = (case u of None \<Rightarrow> [] | Some k \<Rightarrow> [(k, 0)]),
     used_map = Map.empty(0 := u), next_node = n, os = p\<rparr>"

lemma tbl_ops:
  "ht_find (tbl None Map.empty k) 1 0 = Inr (-1)" "ht_find (tbl (Some 0) [0 \<mapsto> entry0] (Suc k)) 1 0 = Inr 0"
  "ht_insert (tbl None Map.empty 0) 1 0 0 = Inr (tbl (Some 0) [0 \<mapsto> entry0] (Suc 0))"
  "ht_insert (tbl None Map.empty (Suc 0)) 1 0 0 = Inr (tbl (Some 0) [0 \<mapsto> entry0] (Suc 0))"
  "ht_remove (tbl (Some 0) [0 \<mapsto> entry0] (Suc k)) 1 0 = Inr (tbl None Map.empty (Suc k))"
  by (simp_all add: ht_find_def ht_insert_def ht_remove_def tbl_def entry0_def ht_hash_def int_range_def c_rem_def bucket_at_def
      bindR_def deref_def new_addr_def Let_def)

lemma run_slots:
  "slot_ok (run_pool T e u n p) 0" "pool (run_pool T e u n p) ! 0 = e" "table (run_pool T e u n p) = T" "os (run_pool T e u n p) = p"
  "buffer_size (run_pool T e u n p) = 4096" "pool_size (run_pool T e u n p) = 2"
  "(run_pool T e u n p)\<lparr>os := q\<rparr> = run_pool T e u n q" "(run_pool T e u n p)\<lparr>table := T'\<rparr> = run_pool T' e u n p"
  by (simp_all add: run_pool_def slot_ok_def)

lemma run_upd: "upd_entry 0 f (run_pool T e u n p) = (Inr (), run_pool T (f e) u n p)"
  by (simp add: upd_entry_eq run_slots) (simp add: run_pool_def)

lemma run_touch: "touch 0 (run_pool T e (Some k) n p) = (Inr (), run_pool T e (Some n) (Suc n) p)"
  by (simp add: touch_def remove_def insert_used_def run_pool_def eff_defs)

lemma run_alloc: "internal_alloc (run_pool T e None n p) = (Inr 0, run_pool T e (Some n) (Suc n) p)"
  by (simp add: internal_alloc_def insert_used_def run_pool_def eff_defs)

abbreviation one_page :: hash_table where
  "one_page \<equiv> tbl (Some 0) [0 \<mapsto> entry0] (Suc 0)"

lemma run_ops:
  "allocate_page 1 0 (run_pool (tbl None Map.empty 0) e None n p) =
     (Inr (Some 0), run_pool one_page (e\<lparr>be_fd := 1, be_page := 0, be_pin := 1, be_dirty := False\<rparr>) (Some n) (Suc n) p)"
  "off + length bs \<le> length (be_data e) \<Longrightarrow> store_bytes 0 off bs (run_pool T e u n p) =
     (Inr (), run_pool T (e\<lparr>be_data := patch off bs (be_data e)\<rparr>) u n p)"
  "mark_dirty 1 0 (run_pool one_page e (Some k) n p) = (Inr (), run_pool one_page (e\<lparr>be_dirty := True\<rparr>) (Some n) (Suc n) p)"
  "be_pin e = 1 \<Longrightarrow> unpin_page 1 0 (run_pool one_page e (Some k) n p) =
     (Inr (), run_pool one_page (e\<lparr>be_pin := 0\<rparr>) (Some n) (Suc n) p)"
  "load_int 0 0 (run_pool T (run_slot dt d m) u n p) = (if 4 \<le> length d then Inr (dec_int d) else Inl Undefined_behaviour, run_pool T (run_slot dt d m) u n p)"
  using tbl_ops(1) [of 0] tbl_ops(2) [of 0] tbl_ops(3)
  by (simp_all add: allocate_page_def store_bytes_def mark_dirty_def unpin_page_def find_page_def table_do_def init_page_info_def
      poke_def patch_def load_int_def run_slot_def bindE_def seqE_def retE_def throwE_def liftE_def modE_def guardE_def whenE_def c_int_def int_range_def
      run_alloc run_upd run_touch entry_at_eq run_slots)

abbreviation new_file :: file_handle where
  "new_file \<equiv> \<lparr>fh_fd = 1, first_free = -1, page_num = 0, file_is_open = True, header_changed = False\<rparr>"

abbreviation one_page_file :: file_handle where
  "one_page_file \<equiv> \<lparr>fh_fd = 1, first_free = -1, page_num = 1, file_is_open = True, header_changed = True\<rparr>"

lemma run_fh_allocate:
  "fh_allocate_page \<lparr>handle = new_file, buf = run_pool (tbl None Map.empty 0) free_slot None 0 p\<rparr> =
     (Inr \<lparr>ph_page = 0, ph_slot = 0\<rparr>, \<lparr>handle = one_page_file, buf = run_pool one_page (run_slot True blank_page 1) (Some 1) 2 p\<rparr>)"
proof -
  have b: "patch 4 (replicate (nat DEFAULT_PAGE_SIZE - 4) 0) (patch 0 (enc_int PAGE_USED) (replicate 4096 0)) = blank_page"
    by (rule blank_page_patches) simp
  have l: "length (patch 0 (enc_int PAGE_USED) (replicate 4096 0)) = 4096" by (simp add: patch_def)
  show ?thesis using b l
    by (simp add: fh_allocate_page_def fh_take_page_def fh_mark_dirty_def is_valid_page_def PAGE_LIST_END_def liftB_def modH_def
        bindE_def seqE_def retE_def getE_def liftE_def modE_def guardE_def c_int_def int_range_def run_ops
        free_slot_def demo_junk_def run_slot_def DEFAULT_PAGE_SIZE_def numeral_2_eq_2)
qed

lemma run_header_page:
  assumes "length bs \<le> 4092"
  shows "seqE (liftB (store_bytes 0 4 bs)) (seqE (fh_mark_dirty 0) (fh_unpin_page 0))
      \<lparr>handle = one_page_file, buf = run_pool one_page (run_slot True blank_page 1) (Some k) n p\<rparr> =
     (Inr (), \<lparr>handle = one_page_file, buf = run_pool one_page (run_slot True (patch 4 bs blank_page) 0) (Some (Suc n)) (Suc (Suc n)) p\<rparr>)"
proof -
  have "4 + length bs \<le> length blank_page" using assms by (simp add: blank_page_def)
  then show ?thesis
    by (simp add: fh_mark_dirty_def fh_unpin_page_def is_valid_page_def liftB_def bindE_def seqE_def retE_def getE_def guardE_def
        run_ops run_slot_def)
qed

text \<open>The file after its header and its first page have been written.\<close>

definition file_bytes :: "byte list \<Rightarrow> byte list" where
  "file_bytes d = header_bytes (-1) 1 @ replicate 4088 0 @ d"

lemma run_write_header:
  "write_header \<lparr>handle = one_page_file, buf = run_pool T e u n (run_os ns (header_bytes (-1) 0 @ replicate 4088 0) (Some (1, q)) r k)\<rparr> =
     (Inr (), \<lparr>handle = one_page_file\<lparr>header_changed := False\<rparr>,
        buf = run_pool T e u n (run_os ns (header_bytes (-1) 1 @ replicate 4088 0) (Some (1, 8)) r k)\<rparr>)"
  by (simp add: write_header_def lseek_def write_fd_def px_lseek_def px_write_def overwrite_def run_os_def run_slots Let_def
      liftB_def modH_def bindE_def seqE_def retE_def getE_def modE_def guardE_def whenE_def header_bytes_def fun_upd_twist)

lemma run_flush:
  assumes "length d = 4096" "4096 \<le> r"
  shows "flush_pages 1 (run_pool one_page (run_slot True d 0) (Some m) n (run_os ns (header_bytes (-1) 1 @ replicate 4088 0) (Some (1, 8)) r k)) =
     (Inr (), run_pool (tbl None Map.empty (Suc 0)) (run_slot False d 0) None n (run_os ns (file_bytes d) (Some (1, 8192)) (r - 4096) k))"
proof -
  have u: "map int [0..<2] = [0, 1]" by (simp add: upt_rec)
  have w: "write_page 1 0 d (run_pool one_page (run_slot True d 0) (Some m) n (run_os ns (header_bytes (-1) 1 @ replicate 4088 0) (Some (1, 8)) r k)) =
     (Inr (), run_pool one_page (run_slot True d 0) (Some m) n (run_os ns (file_bytes d) (Some (1, 8192)) (r - 4096) k))"
    using assms
    by (simp add: write_page_def page_offset_def c_int_def bindR_def int_range_def lseek_def write_fd_def px_lseek_def px_write_def
        overwrite_def run_os_def run_slots Let_def bindE_def seqE_def retE_def getE_def liftE_def guardE_def header_bytes_def
        file_bytes_def fun_upd_twist)
  have rm: "seqE (remove 0) (insert_free 0) (run_pool T e (Some m) n p) = (Inr (), run_pool T e None n p)" for T e p
    by (simp add: remove_def insert_free_def run_pool_def eff_defs)
  have s0: "flush_slot 1 0 (run_pool one_page (run_slot True d 0) (Some m) n (run_os ns (header_bytes (-1) 1 @ replicate 4088 0) (Some (1, 8)) r k)) =
     (Inr (), run_pool (tbl None Map.empty (Suc 0)) (run_slot False d 0) None n (run_os ns (file_bytes d) (Some (1, 8192)) (r - 4096) k))"
    using w rm tbl_ops(5) [of 0]
    by (simp add: flush_slot_def table_do_def run_slots run_upd entry_at_eq bindE_def seqE_def retE_def liftE_def modE_def guardE_def whenE_def run_slot_def)
  have s1: "flush_slot 1 1 (run_pool T e u n p) = (Inr (), run_pool T e u n p)" for T e u p
    by (simp add: flush_slot_def entry_at_def slot_ok_def run_pool_def free_slot_def demo_junk_def bindE_def liftE_def whenE_def retE_def)
  show ?thesis using u s0 s1
    by (simp add: flush_pages_def run_slots bindE_def getE_def seqE_def retE_def)
qed

definition index_pool :: bufm where
  "index_pool = run_pool (tbl None Map.empty 0) free_slot None 0 (run_os Map.empty [] None 100000 1)"

lemma run_newfd: "px_newfd (run_os ns d None r k) = Some 1"
proof -
  have "(\<lambda>j. px_fds (run_os ns d None r k) (int j) = None) = (\<lambda>j. j \<noteq> 0)" by (auto simp: fun_eq_iff run_os_def)
  moreover have "List.find (\<lambda>j. j \<noteq> 0) [0..<16] = Some (1 :: nat)" by (simp add: upt_rec)
  moreover have "px_maxfd (run_os ns d None r k) = 16" by (simp add: run_os_def)
  ultimately show ?thesis by (simp only: px_newfd_def) simp
qed

lemma index_pool_can_create: "can_create 1 index_pool"
proof -
  have "[0..<2] = [0, Suc 0]" "(replicate 20 (None :: ptr))[Suc 0 := None] = replicate 20 None" by (simp_all add: upt_rec list_update_same_conv)
  then have m: "mk_bufm 2 4096 (\<lambda>_. demo_junk) (run_os Map.empty [] None 100000 1) = Inr index_pool"
    by (simp add: mk_bufm_def mk_hash_table_def HASH_TABLE_SIZE_def index_pool_def run_pool_def tbl_def free_slot_def)
  have "fds_inj (run_os Map.empty [] None 100000 1)" by (auto simp: fds_inj_def run_os_def split: if_splits)
  note ok = mk_bufm_ok [OF m this]
  have "fd_inode (os index_pool) f = Some i \<Longrightarrow> i < px_nexti (os index_pool)" for f i
    by (auto simp: index_pool_def run_slots run_os_def fd_inode_def split: if_splits)
  then show ?thesis using ok run_newfd
    by (simp add: can_create_def bm_good_def bm_psize_def bm_in_pool_def demo_junk_def index_pool_def run_slots)
qed

lemma run_create_file:
  "create_file name (run_pool T e u n (run_os Map.empty [] None 100000 1)) =
     (Inr (), run_pool T e u n (run_os [name \<mapsto> 1] (header_bytes (-1) 0 @ replicate 4088 0) None 95904 2))"
  using run_newfd [of Map.empty "[]" 100000 1]
  by (simp add: create_file_def sys_def px_create_def px_write_def px_close_def Let_def overwrite_def header_bytes_def
      BUFFER_SIZE_def bindE_def seqE_def guardE_def whenE_def retE_def throwE_def run_slots run_os_def fun_eq_iff numeral_2_eq_2)

lemma run_open_file:
  assumes "int_range a" "int_range m"
  shows "open_file name (run_pool T e u n (run_os [name \<mapsto> 1] (header_bytes a m @ rest) None r k)) =
     (Inr \<lparr>fh_fd = 1, first_free = a, page_num = m, file_is_open = True, header_changed = False\<rparr>,
      run_pool T e u n (run_os [name \<mapsto> 1] (header_bytes a m @ rest) (Some (1, 8)) r k))"
  using run_newfd [of "[name \<mapsto> 1]" "header_bytes a m @ rest" r k] assms dec_int_enc_int [of m "[]"]
  by (simp add: open_file_def sys_def px_open_def read_fd_def px_read_def Let_def header_bytes_def bindE_def seqE_def guardE_def
      retE_def run_slots run_os_def fun_eq_iff)

definition raw_header :: index_header where
  "raw_header = \<lparr>num_pages = 0, root_page = 0, pair_size = 0, ih_fanout = 0, ih_height = 0, attr_type = 0, attr_length = 0\<rparr>"

definition index_page :: "byte list" where
  "index_page = patch 4 (enc_index_header (new_header raw_header 1 4 341)) blank_page"

lemma length_index_page: "length index_page = 4096"
  by (simp add: index_page_def patch_def blank_page_def)

lemma run_close:
  "close_file \<lparr>handle = one_page_file, buf = run_pool one_page (run_slot True index_page 0) (Some m) n
      (run_os ns (header_bytes (-1) 0 @ replicate 4088 0) (Some (1, q)) 95904 k)\<rparr> =
   (Inr (), \<lparr>handle = one_page_file\<lparr>file_is_open := False, header_changed := False\<rparr>,
      buf = run_pool (tbl None Map.empty (Suc 0)) (run_slot False index_page 0) None n (run_os ns (file_bytes index_page) None 91808 k)\<rparr>)"
  using run_write_header run_flush [OF length_index_page, of 95904]
  by (simp add: close_file_def fh_flush_pages_def liftB_def sys_def px_close_def modH_def bindE_def seqE_def retE_def getE_def modE_def
      guardE_def run_slots) (simp add: run_os_def)

lemma run_create_index:
  "create_index raw_header ''t'' 1 1 4 index_pool = (Inr (), run_pool (tbl None Map.empty (Suc 0)) (run_slot False index_page 0) None 4
     (run_os [index_file ''t'' 1 \<mapsto> 1] (file_bytes index_page) None 91808 2))"
proof -
  have f: "fanout_of 4 = Inr 341" using fanout_of_nonneg [of 4] by simp
  have r: "int_range (-1)" "int_range 0" by (simp_all add: int_range_def)
  have g: "seqE (guardE True e) k = k" for e and k :: "unit fh" by (simp add: fun_eq_iff run_simps)
  let ?p = "run_os [index_file ''t'' 1 \<mapsto> 1] (header_bytes (-1) 0 @ replicate 4088 0) (Some (1, 8)) 95904 2"
  have w: "seqE (liftB (store_bytes 0 4 (enc_index_header (new_header raw_header 1 4 341)))) (seqE (fh_mark_dirty 0) (fh_unpin_page 0))
      \<lparr>handle = one_page_file, buf = run_pool one_page (run_slot True blank_page 1) (Some 1) 2 ?p\<rparr> =
     (Inr (), \<lparr>handle = one_page_file, buf = run_pool one_page (run_slot True index_page 0) (Some 3) 4 ?p\<rparr>)"
    using run_header_page [of "enc_index_header (new_header raw_header 1 4 341)" 1 2 ?p] by (simp add: index_page_def)
  have "create_index_page raw_header 1 4 \<lparr>handle = new_file, buf = run_pool (tbl None Map.empty 0) free_slot None 0 ?p\<rparr> =
      seqE (seqE (liftB (store_bytes 0 4 (enc_index_header (new_header raw_header 1 4 341)))) (seqE (fh_mark_dirty 0) (fh_unpin_page 0)))
        close_file \<lparr>handle = one_page_file, buf = run_pool one_page (run_slot True blank_page 1) (Some 1) 2 ?p\<rparr>"
    using f g by (simp add: create_index_page_def bindE_run [of fh_allocate_page, OF run_fh_allocate] run_simps seqE_assoc)
  also have "\<dots> = (Inr (), \<lparr>handle = one_page_file\<lparr>file_is_open := False, header_changed := False\<rparr>,
      buf = run_pool (tbl None Map.empty (Suc 0)) (run_slot False index_page 0) None 4 (run_os [index_file ''t'' 1 \<mapsto> 1] (file_bytes index_page) None 91808 2)\<rparr>)"
    using run_close [of 3 4 "[index_file ''t'' 1 \<mapsto> 1]" 8 2] by (simp only: seqE_run [of "seqE _ _", OF w])
  finally have c: "with_handle new_file (create_index_page raw_header 1 4) (run_pool (tbl None Map.empty 0) free_slot None 0 ?p) =
     (Inr ((), one_page_file\<lparr>file_is_open := False, header_changed := False\<rparr>),
      run_pool (tbl None Map.empty (Suc 0)) (run_slot False index_page 0) None 4 (run_os [index_file ''t'' 1 \<mapsto> 1] (file_bytes index_page) None 91808 2))"
    by (simp add: with_handle_def)
  show ?thesis
    by (simp only: create_index_def index_pool_def seqE_run [of "create_file _", OF run_create_file]
        bindE_run [of "open_file _", OF run_open_file [OF r]] bindE_run [of "with_handle _ _", OF c] retE_def)
qed

lemma run_get_this_page:
  "get_this_page 0 \<lparr>handle = one_page_file\<lparr>header_changed := False\<rparr>,
      buf = run_pool (tbl None Map.empty (Suc 0)) (run_slot False index_page 0) None n (run_os ns (file_bytes index_page) (Some (1, q)) r k)\<rparr> =
   (Inr \<lparr>ph_page = 0, ph_slot = 0\<rparr>, \<lparr>handle = one_page_file\<lparr>header_changed := False\<rparr>,
      buf = run_pool one_page (run_slot False index_page 1) (Some n) (Suc n) (run_os ns (file_bytes index_page) (Some (1, 8192)) r k)\<rparr>)"
proof -
  let ?b = "run_pool (tbl None Map.empty (Suc 0)) (run_slot False index_page 0)"
  have rd: "read_page 1 0 0 (?b u m (run_os ns (file_bytes index_page) (Some (1, q)) r k)) =
      (Inr (), ?b u m (run_os ns (file_bytes index_page) (Some (1, 8192)) r k))" for u m
    using length_index_page
    by (simp add: read_page_def page_offset_def c_int_def bindR_def int_range_def lseek_def read_fd_def px_lseek_def px_read_def
        run_os_def run_slots run_upd run_slot_def Let_def bindE_def seqE_def retE_def getE_def liftE_def guardE_def header_bytes_def
        file_bytes_def fun_upd_twist)
  have gp: "get_page 1 0 True (?b None n (run_os ns (file_bytes index_page) (Some (1, q)) r k)) =
      (Inr 0, run_pool one_page (run_slot False index_page 1) (Some n) (Suc n) (run_os ns (file_bytes index_page) (Some (1, 8192)) r k))"
    using rd tbl_ops(1) [of "Suc 0"] tbl_ops(4)
    by (simp add: get_page_def find_page_def table_do_def init_page_info_def bindE_def seqE_def retE_def liftE_def modE_def
        run_alloc run_upd run_slots run_slot_def)
  have "dec_int index_page = -2"
  proof -
    have "dec_int index_page = dec_int blank_page" by (rule dec_int_take) (simp add: index_page_def patch_def blank_page_def)
    then show ?thesis using dec_int_blank by (simp add: PAGE_USED_def)
  qed
  then show ?thesis using gp length_index_page
    by (simp add: get_this_page_def is_valid_page_def liftB_def bindE_def seqE_def retE_def getE_def guardE_def run_ops(5))
qed

lemma run_open_index: "\<exists>t b2. open_index rw t0 ''t'' 1 (run_pool (tbl None Map.empty (Suc 0)) (run_slot False index_page 0) None 4
     (run_os [index_file ''t'' 1 \<mapsto> 1] (file_bytes index_page) None 91808 2)) = (Inr t, b2)"
proof -
  have r: "int_range (-1)" "int_range 1" by (simp_all add: int_range_def)
  let ?q = "run_os [index_file ''t'' 1 \<mapsto> 1] (file_bytes index_page) (Some (1, 8192)) 91808 2"
  note g = run_get_this_page [of 4 "[index_file ''t'' 1 \<mapsto> 1]" 8 91808 2]
  have "\<exists>x st. bindE (get_this_page 0) (\<lambda>ph. bindE (page_bytes ph) (\<lambda>bs. seqE (fh_unpin_page 0) (retE (dec_index_header bs))))
      \<lparr>handle = one_page_file\<lparr>header_changed := False\<rparr>, buf = run_pool (tbl None Map.empty (Suc 0)) (run_slot False index_page 0) None 4
        (run_os [index_file ''t'' 1 \<mapsto> 1] (file_bytes index_page) (Some (1, 8)) 91808 2)\<rparr> = (Inr x, st)"
    by (simp only: bindE_run [of "get_this_page 0", OF g])
      (simp add: page_bytes_def fh_unpin_page_def is_valid_page_def liftB_def bindE_def seqE_def retE_def getE_def guardE_def
        entry_at_eq run_slots run_ops(4) run_slot_def)
  then have "\<exists>x y. with_handle (one_page_file\<lparr>header_changed := False\<rparr>) (bindE (get_this_page 0) (\<lambda>ph. bindE (page_bytes ph)
      (\<lambda>bs. seqE (fh_unpin_page 0) (retE (dec_index_header bs))))) (run_pool (tbl None Map.empty (Suc 0)) (run_slot False index_page 0) None 4
        (run_os [index_file ''t'' 1 \<mapsto> 1] (file_bytes index_page) (Some (1, 8)) 91808 2)) = (Inr x, y)"
    by (auto simp: with_handle_def split: prod.splits)
  then show ?thesis
    using run_open_file [OF r, of "index_file ''t'' 1" _ _ _ _ "replicate 4088 0 @ index_page"]
    by (auto simp: open_index_def file_bytes_def bindE_def getE_def retE_def split: prod.splits)
qed


end
