(* ===== verification/Pin_Balance.thy ===== *)
theory Pin_Balance
  imports Reopen
begin

text \<open>
  How the operations of \<^verbatim>\<open>io/file_handle.cc\<close> change the pin counts of the pool.  A client that lets go of every page it got
  leaves no page pinned; while no page is pinned, the pool cannot run out of slots and no page is refused for being pinned, so
  the only errors are those of the file system.
\<close>

section \<open>Pin counts\<close>

abbreviation pins :: "bufm \<Rightarrow> int list" where
  "pins b \<equiv> map be_pin (pool b)"

text \<open>A pool of \<open>n\<close> slots in which nothing is pinned, and one in which slot \<open>i\<close> is pinned once.\<close>

definition idle :: "nat \<Rightarrow> bufm \<Rightarrow> bool" where
  "idle n b \<longleftrightarrow> 0 < n \<and> pins b = replicate n 0"

definition only :: "nat \<Rightarrow> int \<Rightarrow> bufm \<Rightarrow> bool" where
  "only n i b \<longleftrightarrow> 0 \<le> i \<and> i < int n \<and> pins b = (replicate n 0)[nat i := 1]"

definition pins_are :: "int list \<Rightarrow> bufm \<Rightarrow> bool" where
  "pins_are X b \<longleftrightarrow> pins b = X"

lemma pins_io [keeps_rules]:
  "keepsE (pins_are X) (lseek fd off)" "keepsE (pins_are X) (write_fd fd bs)" "keepsE (pins_are X) (read_fd fd n)"
  by (auto simp: keepsE_def lseek_def write_fd_def read_fd_def pins_are_def split: prod.splits)

lemma pins_upd:
  assumes "\<And>e. be_pin (f e) = be_pin e"
  shows "keepsE (pins_are X) (upd_entry i f)"
proof -
  have "pins (b\<lparr>pool := (pool b)[nat i := f (pool b ! nat i)]\<rparr>) = pins b" if "slot_ok b i" for b
    using that assms by (simp add: map_update slot_ok_def) (metis list_update_id nat_less_iff nth_map)
  then show ?thesis by (auto simp: keepsE_def upd_entry_def entry_at_def pins_are_def bindE_def liftE_def modE_def)
qed

lemma pins_mem [keeps_rules]:
  "keepsE (pins_are X) (entry_at i)" "keepsE (pins_are X) (table_do g)" "keepsE (pins_are X) (remove i)"
  "keepsE (pins_are X) (insert_used i)" "keepsE (pins_are X) (find_page fd page)"
  by (auto simp: entry_at_def table_do_def remove_def insert_used_def find_page_def pins_are_def
      split: option.splits intro!: keeps_rules keepsE_mod)

lemma pins_pages [keeps_rules]:
  "keepsE (pins_are X) (write_page fd page bs)" "keepsE (pins_are X) (read_page fd page i)"
  "keepsE (pins_are X) (evict i)" "keepsE (pins_are X) (touch i)" "keepsE (pins_are X) (mark_dirty fd page)"
  "keepsE (pins_are X) (load_int i off)" "keepsE (pins_are X) (store_bytes i off bs)"
  by (auto simp: write_page_def read_page_def evict_def touch_def mark_dirty_def load_int_def store_bytes_def poke_def
      intro!: keeps_rules pins_upd)

lemma pins_alloc [keeps_rules]: "keepsE (pins_are X) internal_alloc"
  by (auto simp: internal_alloc_def pins_are_def split: list.splits option.splits intro!: keeps_rules keepsE_mod)

section \<open>Getting and letting go of a page\<close>

lemma upd_pins: "upd_entry i f b = (Inr u, b') \<Longrightarrow> slot_ok b i \<and> pins b' = (pins b)[nat i := be_pin (f (ent b i))]"
  by (auto simp: upd_entry_def entry_at_def bindE_def liftE_def modE_def map_update split: if_splits)

lemma keeps_pins: "(\<And>X. keepsE (pins_are X) m) \<Longrightarrow> m b = (r, b') \<Longrightarrow> pins b' = pins b"
  using keepsE_step [of "pins_are (pins b)" m b r b'] by (simp add: pins_are_def)

lemma idle_only:
  assumes "idle n b" "slot_ok b i" "pins b' = (pins b)[nat i := 1]"
  shows "only n i b'"
proof -
  have "length (pool b) = n" using assms(1) by (metis idle_def length_map length_replicate)
  then show ?thesis using assms by (simp add: idle_def only_def slot_ok_def)
qed

lemma idle_pin: "idle n b \<Longrightarrow> slot_ok b i \<Longrightarrow> be_pin (ent b i) = 0"
proof -
  assume a: "idle n b" "slot_ok b i"
  then have "be_pin (ent b i) \<in> set (pins b)" by (auto simp: slot_ok_def)
  then show ?thesis using a(1) by (simp only: idle_def) simp
qed

lemma slot_ok_pins: "pins b' = pins b \<Longrightarrow> slot_ok b' i = slot_ok b i"
  by (metis length_map slot_ok_def)

lemma init_pins: "init_page_info fd page i b = (r, b') \<Longrightarrow> r = Inr () \<Longrightarrow> slot_ok b i \<and> pins b' = (pins b)[nat i := 1]"
  by (auto simp: init_page_info_def dest: upd_pins)

lemma get_pins:
  assumes "get_page f p mp b = (Inr i, b')" "idle n b"
  shows "only n i b'"
proof -
  obtain s where s: "find_page f p b = (Inr s, b)" and r: "(if s = -1 then bindE internal_alloc (\<lambda>slot. seqE (read_page f p slot) (
       seqE (table_do (\<lambda>h. ht_insert h f p slot)) (seqE (init_page_info f p slot) (retE slot))))
     else bindE (entry_at s) (\<lambda>e. seqE (guardE (mp \<or> \<not> 0 < be_pin e) Page_pinned)
      (bindE (liftE (\<lambda>_. c_int (be_pin e + 1))) (\<lambda>n. seqE (upd_entry s (\<lambda>e. e\<lparr>be_pin := n\<rparr>)) (seqE (touch s) (retE s)))))) b = (Inr i, b')"
    using assms(1) by (auto simp: get_page_def bindE_Inr find_page_def liftE_def split: sum.splits)
  show ?thesis
  proof (cases "s = -1")
    case True
    obtain b1 b2 b3 b4 where m: "internal_alloc b = (Inr i, b1)" "read_page f p i b1 = (Inr (), b2)"
      "table_do (\<lambda>h. ht_insert h f p i) b2 = (Inr (), b3)" "init_page_info f p i b3 = (Inr (), b')"
      using r True by (auto simp: bindE_Inr seqE_Inr retE_def)
    have "pins b3 = pins b" using keeps_pins [OF pins_alloc m(1)] keeps_pins [OF pins_pages(2) m(2)] keeps_pins [OF pins_mem(2) m(3)] by simp
    then show ?thesis using idle_only [OF assms(2)] init_pins [OF m(4)] slot_ok_pins [of b3 b] by simp
  next
    case False
    obtain k b1 where m: "slot_ok b s" "c_int (be_pin (ent b s) + 1) = Inr k" "upd_entry s (\<lambda>e. e\<lparr>be_pin := k\<rparr>) b = (Inr (), b1)"
      "touch s b1 = (Inr (), b')" "i = s"
      using r False by (auto simp: bindE_Inr seqE_Inr retE_def entry_at_def liftE_def guardE_def throwE_def split: if_splits sum.splits)
    have "k = 1" using m(2) idle_pin [OF assms(2) m(1)] by (simp add: c_int_def int_range_def)
    then show ?thesis using idle_only [OF assms(2) m(1)] upd_pins [OF m(3)] keeps_pins [OF pins_pages(4) m(4)] m(5) by simp
  qed
qed

lemma new_pins:
  assumes "allocate_page f p b = (Inr (Some i), b')" "idle n b"
  shows "only n i b'"
proof -
  obtain b1 b3 where m: "internal_alloc b = (Inr i, b1)"
      "table_do (\<lambda>h. ht_insert h f p i) b1 = (Inr (), b3)" "init_page_info f p i b3 = (Inr (), b')"
    using assms(1) by (auto simp: allocate_page_def bindE_Inr seqE_Inr retE_def find_page_def liftE_def split: sum.splits if_splits)
  have "pins b3 = pins b" using keeps_pins [OF pins_alloc m(1)] keeps_pins [OF pins_mem(2) m(2)] by simp
  then show ?thesis using idle_only [OF assms(2)] init_pins [OF m(3)] slot_ok_pins [of b3 b] by simp
qed

lemma unpin_pins:
  assumes "unpin_page f p b = (Inr u, b')" "hashed b f p i" "only n i b"
  shows "idle n b'"
proof -
  obtain k b1 where m: "slot_ok b i" "c_int (be_pin (ent b i) - 1) = Inr k" "upd_entry i (\<lambda>e. e\<lparr>be_pin := k\<rparr>) b = (Inr (), b1)"
      "whenE (k = 0) (touch i) b1 = (Inr (), b')"
    using assms(1,2) by (auto simp: unpin_page_def bindE_Inr seqE_Inr retE_def find_page_def entry_at_def liftE_def guardE_def throwE_def hashed_def
        split: if_splits sum.splits)
  have "be_pin (ent b i) = pins b ! nat i" using m(1) by (simp add: slot_ok_def nat_less_iff)
  then have k: "k = 0" using m(2) assms(3) by (simp add: only_def c_int_def int_range_def nat_less_iff split: if_splits)
  have "keepsE (pins_are X) (whenE (k = 0) (touch i))" for X by (intro keeps_rules)
  from keeps_pins [OF this m(4)] have "pins b' = pins b1" by simp
  then show ?thesis using upd_pins [OF m(3)] k assms(3) by (simp add: only_def idle_def list_update_overwrite) (auto simp: list_update_same_conv)
qed

section \<open>No page is refused\<close>

lemma idle_not_all_pinned:
  assumes "idle n b" "lists_ok b"
  shows "\<not> all_pinned b"
proof
  assume a: "all_pinned b"
  have n: "length (pool b) = n" "0 < n" using assms(1) by (metis idle_def length_map length_replicate, simp add: idle_def)
  have "0 \<in> set (slots b)" using lists_okD(4) [OF assms(2)] a n by (auto simp: all_pinned_def)
  then show False using a idle_pin [OF assms(1), of 0] n by (fastforce simp: all_pinned_def slot_ok_def)
qed

lemma wpE_get_idle:
  assumes "bm_good F b" "key_ok f p" "idle n b"
    and "\<And>i b'. got F f p i b b' \<Longrightarrow> only n i b' \<Longrightarrow> Q i b'" "\<And>e b'. e \<in> io_errors \<Longrightarrow> R e b'"
  shows "wpE (get_page f p mp) Q R b"
proof (rule wpE_runI)
  fix i b' assume r: "get_page f p mp b = (Inr i, b')"
  have "wpE (get_page f p mp) (\<lambda>i. got F f p i b) (\<lambda>_ _. True) b" by (rule wpE_get_page [OF assms(1,2)]) auto
  from wpE_retD [OF this r] show "Q i b'" using get_pins [OF r assms(3)] assms(4) by blast
next
  fix e b' assume r: "get_page f p mp b = (Inl e, b')"
  have ok: "bm_ok b" using assms(1) by (simp add: bm_good_def)
  have "e \<in> io_errors"
  proof (cases rule: hashed_cases [OF ok assms(2)])
    case 1
    from wpE_throwD [OF get_page_miss [OF ok assms(2) 1(1)] r] show ?thesis
      using idle_not_all_pinned [OF assms(3)] bm_invD(1) [OF ok] by auto
  next
    case (2 i)
    have "be_pin (ent b i) = 0" by (rule idle_pin [OF assms(3) hashed_slot_ok [OF ok 2(2)]])
    then show ?thesis using wpE_throwD [OF get_page_hit [OF ok 2(2)] r] by (auto simp: int_range_def)
  qed
  then show "R e b'" by (rule assms(5))
qed

lemma wpE_new_idle:
  assumes "bm_good F b" "key_ok f p" "\<not> bm_in_pool b f p" "idle n b"
    and "\<And>i b'. got (insert (f, p) F) f p i b b' \<Longrightarrow> only n i b' \<Longrightarrow> Q (Some i) b'" "\<And>e b'. e \<in> io_errors \<Longrightarrow> R e b'"
  shows "wpE (allocate_page f p) Q R b"
proof (rule wpE_runI)
  fix x b' assume r: "allocate_page f p b = (Inr x, b')"
  have "wpE (allocate_page f p) (\<lambda>x b'. \<exists>i. x = Some i \<and> got (insert (f, p) F) f p i b b') (\<lambda>_ _. True) b"
    by (rule wpE_allocate_page [OF assms(1-3)]) auto
  from wpE_retD [OF this r] obtain i where i: "x = Some i" "got (insert (f, p) F) f p i b b'" by blast
  then show "Q x b'" using new_pins [of f p b i b'] r assms(4,5) by simp
next
  fix e b' assume r: "allocate_page f p b = (Inl e, b')"
  have ok: "bm_ok b" using assms(1) by (simp add: bm_good_def)
  have nf: "ht_find (table b) f p = Inr (-1)"
    by (rule hashed_cases [OF ok assms(2)]) (use assms(3) in \<open>auto simp: bm_in_pool_def\<close>)
  from wpE_throwD [OF allocate_page_miss [OF ok assms(2) nf] r] have "e \<in> io_errors"
    using idle_not_all_pinned [OF assms(4)] bm_invD(1) [OF ok] by auto
  then show "R e b'" by (rule assms(6))
qed

lemma wpE_unpin_idle:
  assumes "bm_good F b" "bm_held b f p i" "(f, p) \<notin> F" "only n i b" "\<And>b'. idle n b' \<Longrightarrow> Q () b'"
  shows "wpE (unpin_page f p) Q R b"
proof -
  obtain b' where "unpin_page f p b = (Inr (), b')" using bmc.unpin_law [OF assms(1-3)] by blast
  then show ?thesis using unpin_pins [of f p b "()" b' i n] assms(2,4,5) by (simp add: wpE_def bm_held_def)
qed

lemma wpE_pins:
  assumes "\<And>X. keepsE (pins_are X) m" "wpE m (\<lambda>x b'. pins b' = pins b \<longrightarrow> Q x b') R b"
  shows "wpE m Q R b"
  using assms(2) keeps_pins [OF assms(1), of b] by (auto simp: wpE_def split: prod.splits sum.splits)

lemma only_pins: "pins b' = pins b \<Longrightarrow> only n i b' = only n i b"
  by (simp add: only_def)

section \<open>Pages of a file\<close>

lemma wpE_fh_unpin_idle:
  assumes "bm_good F b" "bm_held b (fh_fd h) p i" "(fh_fd h, p) \<notin> F" "only n i b" "file_is_open h" "0 \<le> p" "p < page_num h"
    and "\<And>b'. idle n b' \<Longrightarrow> Q () \<lparr>handle = h, buf = b'\<rparr>"
  shows "wpE (fh_unpin_page p) Q R \<lparr>handle = h, buf = b\<rparr>"
proof -
  have "wpE (unpin_page (fh_fd h) p) (\<lambda>_ b'. Q () \<lparr>handle = h, buf = b'\<rparr>) R' b" for R'
    by (rule wpE_unpin_idle [OF assms(1-4)]) (rule assms(8))
  then show ?thesis using assms(5-7) by (simp add: fh_unpin_page_def fh_wp is_valid_page_def)
qed

lemma get_this_page_idle:
  assumes inv: "fh_inv F free st" and p: "0 \<le> p" "p < page_num (handle st)" and id: "idle n (buf st)"
  shows "wpE (get_this_page p) (\<lambda>ph st'. only n (ph_slot ph) (buf st')) (\<lambda>e st'. e \<in> io_errors \<or> e = Invalid_page \<and> idle n (buf st')) st"
    (is "wpE _ ?Q ?R st")
proof -
  obtain h b where st: "st = \<lparr>handle = h, buf = b\<rparr>" by (cases st) simp
  note p' = p [unfolded st, simplified] and iv = fh_invD [OF inv [unfolded st], simplified]
  have k: "key_ok (fh_fd h) p" using fh_key_ok [OF inv] p' st by simp
  obtain d where d: "view b (fh_fd h) p = Some d" using iv(11) [OF p'] by blast
  have "wpE (get_page (fh_fd h) p True) (\<lambda>i b1. wpE (load_int i 0) (\<lambda>nf b1. wpE (if nf = -2 then retE \<lparr>ph_page = p, ph_slot = i\<rparr>
      else seqE (fh_unpin_page p) (throwE Invalid_page)) ?Q ?R \<lparr>handle = h, buf = b1\<rparr>) (\<lambda>e b. ?R e \<lparr>handle = h, buf = b\<rparr>) b1)
      (\<lambda>e b. ?R e \<lparr>handle = h, buf = b\<rparr>) b"
  proof (rule wpE_get_idle [OF iv(2) k])
    show "idle n b" using id st by simp
    fix i b1 assume g: "got F (fh_fd h) p i b b1" and o: "only n i b1"
    have g': "bm_good F b1" "bm_held b1 (fh_fd h) p i" "view b1 (fh_fd h) p = Some d" "0 + 4 \<le> bm_psize b1"
      using g iv(3,4) k d by (auto simp: got_def)
    have "wpE (fh_unpin_page p) (\<lambda>_. ?R Invalid_page) ?R \<lparr>handle = h, buf = b1\<rparr>"
      by (rule wpE_fh_unpin_idle [OF g'(1,2) iv(4) o iv(1) p']) simp
    then show "wpE (load_int i 0) (\<lambda>nf b1. wpE (if nf = -2 then retE \<lparr>ph_page = p, ph_slot = i\<rparr>
      else seqE (fh_unpin_page p) (throwE Invalid_page)) ?Q ?R \<lparr>handle = h, buf = b1\<rparr>) (\<lambda>e b. ?R e \<lparr>handle = h, buf = b\<rparr>) b1"
      unfolding wpE_load_int [OF g'] using o by (simp add: wpE_ret wpE_seq_throw)
  qed simp
  then show ?thesis using iv(1) p' st
    by (simp add: get_this_page_def wpE_bind wpE_get wpE_seq [of "guardE _ _"] wpE_guard wpE_liftB is_valid_page_def)
qed

lemma dispose_tail_idle:
  assumes g: "bm_good F b" "bm_held b (fh_fd h) p i" "view b (fh_fd h) p = Some d" "4 \<le> bm_psize b" and F: "(fh_fd h, p) \<notin> F"
    and o: "only n i b" and h: "file_is_open h" "0 \<le> p" "p < page_num h"
  shows "wpE (disposing ff p i) (\<lambda>_ st'. idle n (buf st')) R \<lparr>handle = h, buf = b\<rparr>"
proof -
  let ?f = "fh_fd h" and ?d = "patch 0 (enc_int ff) d" and ?h = "h\<lparr>first_free := p, header_changed := True\<rparr>"
  let ?Q = "\<lambda>_ st'. idle n (buf st')"
  have fin: "wpE (fh_unpin_page p) ?Q R \<lparr>handle = ?h, buf = b2\<rparr>"
    if w: "wrote (insert (?f, p) F - {(?f, p)}) ?f p i ?d b1 b2" and pn: "pins b2 = pins b" for b1 b2
    by (rule wpE_fh_unpin_idle [of F _ _ _ i n]) (use w pn F o h only_pins [OF pn] in \<open>auto simp: wrote_def\<close>)
  have md: "wpE (fh_mark_dirty p) (\<lambda>_. wpE (fh_unpin_page p) ?Q R) R \<lparr>handle = ?h, buf = b1\<rparr>"
    if w: "wrote (insert (?f, p) F) ?f p i ?d b b1" and pn: "pins b1 = pins b" for b1
  proof -
    have g1: "bm_good (insert (?f, p) F) b1" "bm_held b1 ?f p i" "view b1 ?f p = Some ?d" using w by (auto simp: wrote_def)
    have "wpE (mark_dirty ?f p) (\<lambda>_ b2. wpE (fh_unpin_page p) ?Q R \<lparr>handle = ?h, buf = b2\<rparr>) R' b1" for R'
      by (rule wpE_pins [OF pins_pages(5)], rule wpE_mark_dirty [OF g1]) (use fin pn in auto)
    then show ?thesis using h by (simp add: fh_mark_dirty_def fh_wp is_valid_page_def)
  qed
  have "wpE (store_bytes i 0 (enc_int ff)) (\<lambda>_ b1. wpE (fh_mark_dirty p) (\<lambda>_. wpE (fh_unpin_page p) ?Q R) R \<lparr>handle = ?h, buf = b1\<rparr>) R' b" for R'
    by (rule wpE_pins [OF pins_pages(7)], rule wpE_store_bytes [OF g(1-3)]) (use g(4) md in auto)
  then show ?thesis by (simp add: wpE_seq wpE_liftB wpE_modH)
qed

lemma dispose_page_idle:
  assumes inv: "fh_inv F free st" and p: "0 \<le> p" "p < page_num (handle st)" and id: "idle n (buf st)"
  shows "wpE (dispose_page p) (\<lambda>_ st'. idle n (buf st')) (\<lambda>e st'. e \<in> io_errors \<or> e = Page_already_free \<and> idle n (buf st')) st"
    (is "wpE _ ?Q ?R st")
proof -
  obtain h b where st: "st = \<lparr>handle = h, buf = b\<rparr>" by (cases st) simp
  note p' = p [unfolded st, simplified] and iv = fh_invD [OF inv [unfolded st], simplified]
  have k: "key_ok (fh_fd h) p" using fh_key_ok [OF inv] p' st by simp
  obtain d where d: "view b (fh_fd h) p = Some d" using iv(11) [OF p'] by blast
  let ?rest = "\<lambda>nf i. seqE (whenE (nf \<noteq> PAGE_USED) (seqE (fh_unpin_page p) (throwE Page_already_free))) (disposing (first_free h) p i)"
  have "wpE (get_page (fh_fd h) p False) (\<lambda>i b1. wpE (load_int i 0) (\<lambda>nf b1. wpE (?rest nf i) ?Q ?R \<lparr>handle = h, buf = b1\<rparr>)
      (\<lambda>e b. ?R e \<lparr>handle = h, buf = b\<rparr>) b1) (\<lambda>e b. ?R e \<lparr>handle = h, buf = b\<rparr>) b"
  proof (rule wpE_get_idle [OF iv(2) k])
    show "idle n b" using id st by simp
    fix i b1 assume g: "got F (fh_fd h) p i b b1" and o: "only n i b1"
    have g': "bm_good F b1" "bm_held b1 (fh_fd h) p i" "view b1 (fh_fd h) p = Some d" "0 + 4 \<le> bm_psize b1"
      using g iv(3,4) k d by (auto simp: got_def)
    have u: "wpE (fh_unpin_page p) (\<lambda>_. ?R Page_already_free) ?R \<lparr>handle = h, buf = b1\<rparr>"
      by (rule wpE_fh_unpin_idle [OF g'(1,2) iv(4) o iv(1) p']) simp
    have t: "wpE (disposing (first_free h) p i) ?Q ?R \<lparr>handle = h, buf = b1\<rparr>"
      by (rule dispose_tail_idle [OF g'(1-3) _ iv(4) o iv(1) p']) (use g'(4) in simp)
    show "wpE (load_int i 0) (\<lambda>nf b1. wpE (?rest nf i) ?Q ?R \<lparr>handle = h, buf = b1\<rparr>) (\<lambda>e b. ?R e \<lparr>handle = h, buf = b\<rparr>) b1"
      unfolding wpE_load_int [OF g'] drop_0 using u t by (simp add: wpE_seq [of "whenE _ _"] wpE_when wpE_seq_throw)
  qed simp
  then show ?thesis using iv(1) p' st
    by (simp add: dispose_page_def wpE_bind wpE_get wpE_seq [of "guardE _ _"] wpE_guard wpE_liftB is_valid_page_def)
qed

text \<open>The pins of a file's pool.\<close>

definition fh_pins :: "int list \<Rightarrow> fh_state \<Rightarrow> bool" where
  "fh_pins X st \<longleftrightarrow> pins_are X (buf st)"

lemma fh_pins_rules [keeps_rules]: "keepsE (pins_are X) m \<Longrightarrow> keepsE (fh_pins X) (liftB m)" "keepsE (fh_pins X) (modH f)"
  by (auto simp: keepsE_def fh_pins_def liftB_def modH_def modE_def split: prod.splits)

lemma fh_pins_ops [keeps_rules]: "keepsE (fh_pins X) (fh_mark_dirty p)" "keepsE (fh_pins X) (blanking p i)"
  by (auto simp: fh_mark_dirty_def intro!: keeps_rules)

lemma wpE_fh_pins:
  assumes "\<And>X. keepsE (fh_pins X) m" "wpE m (\<lambda>x st'. pins (buf st') = pins (buf st) \<longrightarrow> Q x st') R st"
  shows "wpE m Q R st"
proof -
  have "pins (buf st') = pins (buf st)" if "m st = (r, st')" for r st'
    using keepsE_step [OF assms(1) that, of "pins (buf st)"] by (simp add: fh_pins_def pins_are_def)
  then show ?thesis using assms(2) by (auto simp: wpE_def split: prod.splits sum.splits)
qed

lemma blanking_only:
  assumes "bm_good G b" "bm_held b (fh_fd h) p i" "bm_psize b = 4096" "file_is_open h" "is_valid_page h p" "only n i b"
  shows "wpE (blanking p i) (\<lambda>ph st'. only n (ph_slot ph) (buf st')) R \<lparr>handle = h, buf = b\<rparr>"
  by (rule wpE_fh_pins [OF fh_pins_ops(2)], rule fh_alloc_tail [OF assms(1-3) refl assms(4) refl assms(5)])
    (use assms(6) in \<open>simp add: only_def\<close>)

lemma allocate_page_idle:
  assumes inv: "fh_inv F free st" and room: "fh_fd (handle st) + page_num (handle st) + 1 < 2 ^ 31" and id: "idle n (buf st)"
  shows "wpE fh_allocate_page (\<lambda>ph st'. only n (ph_slot ph) (buf st')) (\<lambda>e _. e \<in> io_errors) st" (is "wpE _ ?Q ?R st")
proof -
  obtain h b where st: "st = \<lparr>handle = h, buf = b\<rparr>" by (cases st) simp
  note iv = fh_invD [OF inv, unfolded st, simplified]
  have id': "idle n b" using id st by simp
  let ?R' = "\<lambda>e (_ :: bufm). e \<in> io_errors"
  have "wpE fh_take_page (\<lambda>x. wpE (blanking (fst x) (snd x)) ?Q ?R) ?R st"
  proof (cases "first_free h = PAGE_LIST_END")
    case False
    then obtain p ps where fr: "free = p # ps" "first_free h = p" using iv(8) by (cases free) auto
    have pv: "0 \<le> p" "p < page_num h" using iv(10) fr by auto
    have k: "key_ok (fh_fd h) p" using fh_key_ok [OF inv] pv st by simp
    obtain d where d: "view b (fh_fd h) p = Some d" using iv(11) [OF pv] by blast
    have "wpE (get_page (fh_fd h) p True) (\<lambda>i b1. wpE (load_int i 0)
        (\<lambda>nf b1. wpE (blanking p i) ?Q ?R \<lparr>handle = h\<lparr>first_free := nf\<rparr>, buf = b1\<rparr>) ?R' b1) ?R' b"
    proof (rule wpE_get_idle [OF iv(2) k id'])
      fix i b1 assume g: "got F (fh_fd h) p i b b1" and o: "only n i b1"
      have g': "bm_good F b1" "bm_held b1 (fh_fd h) p i" "view b1 (fh_fd h) p = Some d" "0 + 4 \<le> bm_psize b1" "bm_psize b1 = 4096"
        using g iv(3,4) k d by (auto simp: got_def)
      show "wpE (load_int i 0) (\<lambda>nf b1. wpE (blanking p i) ?Q ?R \<lparr>handle = h\<lparr>first_free := nf\<rparr>, buf = b1\<rparr>) ?R' b1"
        unfolding wpE_load_int [OF g'(1-4)] by (rule blanking_only [OF g'(1)]) (use g' o iv(1) pv in \<open>auto simp: is_valid_page_def\<close>)
    qed simp
    then show ?thesis using False fr(2) st
      by (simp add: fh_take_page_def wpE_bind wpE_get wpE_liftB wpE_seq [of "modH _" "retE _"] wpE_modH wpE_ret)
  next
    case True
    let ?p = "page_num h"
    have k: "key_ok (fh_fd h) ?p" using fh_key_ok [OF inv] iv(6) st by simp
    have ir: "c_int (?p + 1) = Inr (?p + 1)" using iv(5,6) room st by (simp add: c_int_def int_range_def)
    have "wpE (allocate_page (fh_fd h) ?p) (\<lambda>r b1. wpE (case r of None \<Rightarrow> throwE Undefined_behaviour | Some slot \<Rightarrow> retE (?p, slot))
        (\<lambda>x. wpE (blanking (fst x) (snd x)) ?Q ?R) ?R \<lparr>handle = h\<lparr>page_num := ?p + 1\<rparr>, buf = b1\<rparr>) ?R' b"
    proof (rule wpE_new_idle [OF iv(2) k _ id'])
      show "\<not> bm_in_pool b (fh_fd h) ?p" using iv(13) by simp
      fix i b1 assume g: "got (insert (fh_fd h, ?p) F) (fh_fd h) ?p i b b1" and o: "only n i b1"
      have g': "bm_good (insert (fh_fd h, ?p) F) b1" "bm_held b1 (fh_fd h) ?p i" "bm_psize b1 = 4096" using g iv(3) by (auto simp: got_def)
      have "wpE (blanking ?p i) ?Q ?R \<lparr>handle = h\<lparr>page_num := ?p + 1\<rparr>, buf = b1\<rparr>"
        by (rule blanking_only [OF g'(1)]) (use g' o iv(1,6) in \<open>auto simp: is_valid_page_def\<close>)
      then show "wpE (case Some i of None \<Rightarrow> throwE Undefined_behaviour | Some slot \<Rightarrow> retE (?p, slot))
        (\<lambda>x. wpE (blanking (fst x) (snd x)) ?Q ?R) ?R \<lparr>handle = h\<lparr>page_num := ?p + 1\<rparr>, buf = b1\<rparr>" by (simp add: wpE_ret)
    qed simp
    then show ?thesis using True st
      by (simp add: fh_take_page_def wpE_bind wpE_get wpE_liftB wpE_lift ir wpE_seq [of "modH _"] wpE_modH cong: option.case_cong)
  qed
  then show ?thesis using iv(1) st
    by (simp add: fh_allocate_page_def wpE_bind wpE_get wpE_seq [of "guardE _ _"] wpE_guard split_beta)
qed

end
