(* ===== verification/Paged_Store.thy ===== *)
theory Paged_Store
  imports Index_Store Pin_Balance
begin

text \<open>
  Clients of the file layer.  Any number of open files share one buffer pool; the specification is a family of
  independent page stores, each a list of pages with a stack of free page numbers.  Every interleaving of operations
  on the files gives the results the specification gives, until the file system fails.
\<close>

section \<open>The specification\<close>

record afile =
  af_free :: "int list"
  af_data :: "byte list list"

datatype file_op = Alloc | Dispose int | Read int | Write int nat "byte list"

datatype op_out = Page int | Done | Bytes "byte list"

definition af_valid :: "afile \<Rightarrow> int \<Rightarrow> bool" where
  "af_valid af p \<longleftrightarrow> 0 \<le> p \<and> p < int (length (af_data af))"

fun spec_op :: "file_op \<Rightarrow> afile \<Rightarrow> (op_out \<times> afile) res" where
  "spec_op Alloc af = Inr (case af_free af of
      [] \<Rightarrow> (Page (int (length (af_data af))), af\<lparr>af_data := af_data af @ [replicate 4092 0]\<rparr>)
    | p # ps \<Rightarrow> (Page p, af\<lparr>af_free := ps, af_data := (af_data af)[nat p := replicate 4092 0]\<rparr>))"
| "spec_op (Dispose p) af = (if \<not> af_valid af p then Inl Invalid_page
     else if p \<in> set (af_free af) then Inl Page_already_free
     else Inr (Done, af\<lparr>af_free := p # af_free af\<rparr>))"
| "spec_op (Read p) af = (if \<not> af_valid af p \<or> p \<in> set (af_free af) then Inl Invalid_page
     else Inr (Bytes (af_data af ! nat p), af))"
| "spec_op (Write p off bs) af = (if \<not> af_valid af p \<or> p \<in> set (af_free af) then Inl Invalid_page
     else Inr (Done, af\<lparr>af_data := (af_data af)[nat p := patch off bs (af_data af ! nat p)]\<rparr>))"

text \<open>A write stays within the data of a page.\<close>

fun op_fits :: "file_op \<Rightarrow> bool" where
  "op_fits (Write p off bs) \<longleftrightarrow> off + length bs \<le> 4092"
| "op_fits _ \<longleftrightarrow> True"

section \<open>The operations of a client\<close>

text \<open>A client gets a page, reads or writes behind \<open>data()\<close>, marks it dirty and unpins it.\<close>

fun file_do :: "file_op \<Rightarrow> op_out fh" where
  "file_do Alloc = bindE fh_allocate_page (\<lambda>ph. seqE (fh_unpin_page (ph_page ph)) (retE (Page (ph_page ph))))"
| "file_do (Dispose p) = seqE (dispose_page p) (retE Done)"
| "file_do (Read p) = bindE (get_this_page p) (\<lambda>ph. bindE (page_bytes ph) (\<lambda>bs. seqE (fh_unpin_page p) (retE (Bytes bs))))"
| "file_do (Write p off bs) = bindE (get_this_page p) (\<lambda>ph.
     seqE (seqE (liftB (store_bytes (ph_slot ph) (4 + off) bs)) (fh_mark_dirty p)) (seqE (fh_unpin_page p) (retE Done)))"

section \<open>One file\<close>

definition file_rel :: "afile \<Rightarrow> fh_state \<Rightarrow> bool" where
  "file_rel af st \<longleftrightarrow> fh_inv {} (af_free af) st \<and> page_num (handle st) = int (length (af_data af))
     \<and> (\<forall>q. af_valid af q \<longrightarrow> map_option (drop 4) (content st q) = Some (af_data af ! nat q))"

definition moved :: "fh_state \<Rightarrow> fh_state \<Rightarrow> bool" where
  "moved st st' \<longleftrightarrow> fh_fd (handle st') = fh_fd (handle st) \<and> page_num (handle st') \<le> page_num (handle st) + 1
     \<and> aside (fh_fd (handle st)) (buf st) (buf st')"

lemma file_relD:
  assumes "file_rel af st"
  shows "fh_inv {} (af_free af) st" "page_num (handle st) = int (length (af_data af))"
    "af_valid af q \<Longrightarrow> \<exists>d. content st q = Some d \<and> drop 4 d = af_data af ! nat q \<and> length d = 4096"
proof -
  show "fh_inv {} (af_free af) st" "page_num (handle st) = int (length (af_data af))" using assms by (auto simp: file_rel_def)
  note iv = fh_invD [OF this(1)]
  show "\<exists>d. content st q = Some d \<and> drop 4 d = af_data af ! nat q \<and> length d = 4096" if v: "af_valid af q"
  proof -
    obtain d where d: "content st q = Some d" "drop 4 d = af_data af ! nat q" using assms v by (auto simp: file_rel_def)
    have "key_ok (fh_fd (handle st)) q"
      using fh_key_ok [OF file_rel_def [THEN iffD1, OF assms, THEN conjunct1]] v assms by (auto simp: file_rel_def af_valid_def)
    then show ?thesis using d bmc.vw_length [OF iv(2) _ d(1)] iv(3) by simp
  qed
qed

lemma file_rel_same: "file_rel af st \<Longrightarrow> same_pages (af_free af) {} st st' \<Longrightarrow> file_rel af st' \<and> moved st st'"
  by (auto simp: file_rel_def same_pages_def moved_def af_valid_def)

lemma moved_trans: "moved st st1 \<Longrightarrow> same_pages free F st1 st2 \<Longrightarrow> moved st st2"
  by (auto simp: moved_def same_pages_def intro: aside_trans)

lemma wpE_unpin_ret:
  assumes "fh_inv F free st" "0 \<le> p" "p < page_num (handle st)" "bm_held (buf st) (fh_fd (handle st)) p i"
    and "\<And>st'. same_pages free F st st' \<Longrightarrow> Q x st'"
  shows "wpE (seqE (fh_unpin_page p) (retE x)) Q R st"
proof -
  obtain h b where st: "st = \<lparr>handle = h, buf = b\<rparr>" by (cases st)
  have "wpE (fh_unpin_page p) (\<lambda>_. Q x) R \<lparr>handle = h, buf = b\<rparr>"
    by (rule wpE_fh_unpin [of F free]) (use assms st in auto)
  then show ?thesis by (simp add: wpE_seq_ret st)
qed


definition op_post :: "file_op \<Rightarrow> afile \<Rightarrow> fh_state \<Rightarrow> op_out \<Rightarrow> fh_state \<Rightarrow> bool" where
  "op_post c af st r st' \<longleftrightarrow> (\<exists>af'. spec_op c af = Inr (r, af') \<and> file_rel af' st' \<and> moved st st')"

definition op_refused :: "file_op \<Rightarrow> afile \<Rightarrow> fh_state \<Rightarrow> exn \<Rightarrow> fh_state \<Rightarrow> bool" where
  "op_refused c af st e st' \<longleftrightarrow> e \<in> get_errors False \<or>
     e \<in> {Invalid_page, Page_already_free} \<and> spec_op c af = Inl e \<and> file_rel af st' \<and> moved st st'"

lemma get_errors_True: "e \<in> get_errors True \<Longrightarrow> e \<in> get_errors False"
  by (auto simp: get_errors_def)

lemma moved_refl: "moved st st"
  by (simp add: moved_def aside_refl)

lemma drop_blank: "drop 4 blank_page = replicate 4092 0"
  by (simp add: blank_page_def)

lemma drop_patch: "length d = 4096 \<Longrightarrow> off + length bs \<le> 4092 \<Longrightarrow> drop 4 (patch (4 + off) bs d) = patch off bs (drop 4 d)"
  by (simp add: patch_def drop_take ac_simps)

lemma file_rel_step:
  assumes rel: "file_rel af st" and inv: "fh_inv {} (af_free af') st'" and pn: "page_num (handle st') = int (length (af_data af'))"
    and old: "\<And>q. af_valid af' q \<Longrightarrow> q \<noteq> p \<Longrightarrow>
      af_valid af q \<and> content st' q = content st q \<and> af_data af' ! nat q = af_data af ! nat q"
    and new: "map_option (drop 4) (content st' p) = Some (af_data af' ! nat p)"
  shows "file_rel af' st'"
  unfolding file_rel_def
proof (intro conjI allI impI inv pn)
  fix q assume v: "af_valid af' q"
  show "map_option (drop 4) (content st' q) = Some (af_data af' ! nat q)"
  proof (cases "q = p")
    case False
    from old [OF v this] show ?thesis using rel by (simp only: file_rel_def)
  qed (simp only: new)
qed

text \<open>A page number outside the file is refused before the pool is touched.\<close>

lemma out_of_file:
  assumes "file_rel af st" "\<not> af_valid af p"
  shows "wpE (get_this_page p) Q R st = R Invalid_page st" "wpE (dispose_page p) Q' R' st = R' Invalid_page st"
  using assms fh_invD(1) [OF file_relD(1) [OF assms(1)]] file_relD(2) [OF assms(1)]
  by (auto simp: get_this_page_def dispose_page_def wpE_bind wpE_get wpE_seq [of "guardE _ _"] wpE_guard
      is_valid_page_def af_valid_def)

lemma alloc_rel:
  assumes "file_rel af st" "allocated {} (af_free af) st ph st'"
  shows "\<exists>af'. spec_op Alloc af = Inr (Page (ph_page ph), af') \<and> file_rel af' st' \<and> af_free af' = tl (af_free af)"
proof -
  note rel = file_relD [OF assms(1)] and al = assms(2) [unfolded allocated_def Let_def]
  have c: "map_option (drop 4) (content st' (ph_page ph)) = Some (replicate 4092 0)" using al by (auto simp: drop_blank)
  show ?thesis
  proof (cases "af_free af")
    case Nil
    have "file_rel (af\<lparr>af_data := af_data af @ [replicate 4092 0]\<rparr>) st'"
      by (rule file_rel_step [OF assms(1), where p = "ph_page ph"])
        (use al Nil rel(2) c in \<open>auto simp: af_valid_def nth_append\<close>)
    then show ?thesis using Nil al rel(2) by auto
  next
    case (Cons q qs)
    have "0 \<le> q" "q < int (length (af_data af))" using fh_invD(10) [OF rel(1)] rel(2) Cons by auto
    then have "file_rel (af\<lparr>af_free := qs, af_data := (af_data af)[nat q := replicate 4092 0]\<rparr>) st'"
      by (intro file_rel_step [OF assms(1), where p = q])
        (use al Cons rel(2) c in \<open>auto simp: af_valid_def nth_list_update nat_eq_iff\<close>)
    then show ?thesis using Cons al by auto
  qed
qed

lemma alloc_refines:
  assumes "file_rel af st" "fh_fd (handle st) + page_num (handle st) + 1 < 2 ^ 31"
  shows "wpE (file_do Alloc) (op_post Alloc af st) (op_refused Alloc af st) st"
proof -
  note rel = file_relD [OF assms(1)]
  have "wpE fh_allocate_page (\<lambda>ph. wpE (seqE (fh_unpin_page (ph_page ph)) (retE (Page (ph_page ph)))) (op_post Alloc af st)
      (op_refused Alloc af st)) (op_refused Alloc af st) st"
  proof (rule wpE_mono [OF fh_allocate_spec [OF rel(1) assms(2)]])
    fix ph st1 assume a: "allocated {} (af_free af) st ph st1"
    let ?p = "ph_page ph"
    note al = a [unfolded allocated_def Let_def]
    obtain af' where sp: "spec_op Alloc af = Inr (Page ?p, af')" "file_rel af' st1" "af_free af' = tl (af_free af)"
      using alloc_rel [OF assms(1) a] by blast
    have mv: "moved st st1" using al by (auto simp: moved_def)
    have p: "0 \<le> ?p" "?p < page_num (handle st1)" using al fh_invD(6,10) [OF rel(1)] by (cases "af_free af"; force)+
    show "wpE (seqE (fh_unpin_page ?p) (retE (Page ?p))) (op_post Alloc af st) (op_refused Alloc af st) st1"
    proof (rule wpE_unpin_ret [OF file_relD(1) [OF sp(2)] p])
      show "bm_held (buf st1) (fh_fd (handle st1)) ?p (ph_slot ph)" using al by metis
      show "op_post Alloc af st (Page ?p) st'" if "same_pages (af_free af') {} st1 st'" for st'
        using file_rel_same [OF sp(2) that] moved_trans [OF mv that] sp(1) by (auto simp: op_post_def)
    qed
  qed (auto simp: op_refused_def get_errors_True)
  then show ?thesis by (simp add: wpE_bind)
qed

lemma dispose_refines:
  assumes "file_rel af st"
  shows "wpE (file_do (Dispose p)) (op_post (Dispose p) af st) (op_refused (Dispose p) af st) st"
proof (cases "af_valid af p")
  case False
  then show ?thesis using assms by (simp add: wpE_seq_ret out_of_file op_refused_def moved_refl)
next
  case True
  note rel = file_relD [OF assms(1)]
  have p: "0 \<le> p" "p < page_num (handle st)" using True rel(2) by (auto simp: af_valid_def)
  have "wpE (dispose_page p) (\<lambda>_. op_post (Dispose p) af st Done) (op_refused (Dispose p) af st) st"
  proof (rule wpE_mono [OF dispose_page_spec [OF rel(1) p]])
    fix r st1 assume "p \<notin> set (af_free af) \<and> disposed {} (af_free af) p st st1"
    note d = conjunct1 [OF this] conjunct2 [OF this, unfolded disposed_def]
    have "file_rel (af\<lparr>af_free := p # af_free af\<rparr>) st1"
      by (rule file_rel_step [OF assms, where p = p]) (use d rel(2) assms True in \<open>auto simp: file_rel_def af_valid_def\<close>)
    then show "op_post (Dispose p) af st Done st1" using d True by (simp add: op_post_def moved_def)
  next
    fix e st1
    assume "e \<in> get_errors False \<or> e = Page_already_free \<and> p \<in> set (af_free af) \<and> same_pages (af_free af) {} st st1"
    then show "op_refused (Dispose p) af st e st1" using True file_rel_same [OF assms] by (auto simp: op_refused_def)
  qed
  then show ?thesis by (simp add: wpE_seq_ret)
qed

text \<open>A client holds the page it asked for, or the page is free.\<close>

lemma with_page:
  assumes "file_rel af st" "spec_op c af = Inl Invalid_page \<longleftrightarrow> \<not> af_valid af p \<or> p \<in> set (af_free af)"
    and "\<And>i b. af_valid af p \<Longrightarrow> p \<notin> set (af_free af) \<Longrightarrow> file_rel af \<lparr>handle = handle st, buf = b\<rparr> \<Longrightarrow>
      aside (fh_fd (handle st)) (buf st) b \<Longrightarrow> bm_held b (fh_fd (handle st)) p i \<Longrightarrow>
      wpE (m \<lparr>ph_page = p, ph_slot = i\<rparr>) (op_post c af st) (op_refused c af st) \<lparr>handle = handle st, buf = b\<rparr>"
  shows "wpE (bindE (get_this_page p) m) (op_post c af st) (op_refused c af st) st"
proof (cases "af_valid af p")
  case False
  then show ?thesis using assms(1,2) by (simp add: wpE_bind out_of_file op_refused_def moved_refl)
next
  case True
  note rel = file_relD [OF assms(1)]
  have p: "0 \<le> p" "p < page_num (handle st)" using True rel(2) by (auto simp: af_valid_def)
  show ?thesis unfolding wpE_bind
  proof (rule wpE_mono [OF get_this_page_spec [OF rel(1) p]])
    fix ph :: page_handle and st1
    assume a: "p \<notin> set (af_free af) \<and> ph_page ph = p \<and> same_pages (af_free af) {} st st1
      \<and> bm_held (buf st1) (fh_fd (handle st)) p (ph_slot ph)"
    have eqs: "st1 = \<lparr>handle = handle st, buf = buf st1\<rparr>" "ph = \<lparr>ph_page = p, ph_slot = ph_slot ph\<rparr>"
      using a by (auto simp: same_pages_def)
    have "file_rel af st1" "aside (fh_fd (handle st)) (buf st) (buf st1)"
      using file_rel_same [OF assms(1)] a by (auto simp: moved_def)
    then show "wpE (m ph) (op_post c af st) (op_refused c af st) st1"
      using assms(3) [of "buf st1" "ph_slot ph"] True a eqs by metis
  next
    fix e st1
    assume "e \<in> get_errors True \<or> e = Invalid_page \<and> p \<in> set (af_free af) \<and> same_pages (af_free af) {} st st1"
    then show "op_refused c af st e st1" using assms(2) file_rel_same [OF assms(1)] get_errors_True by (auto simp: op_refused_def)
  qed
qed

lemma read_refines:
  assumes "file_rel af st"
  shows "wpE (file_do (Read p)) (op_post (Read p) af st) (op_refused (Read p) af st) st"
  unfolding file_do.simps
proof (rule with_page [OF assms], goal_cases)
  case (2 i b)
  let ?st = "\<lparr>handle = handle st, buf = b\<rparr>"
  note rel = file_relD [OF 2(3)]
  obtain d where d: "content ?st p = Some d" "drop 4 d = af_data af ! nat p" using rel(3) [OF 2(1)] by blast
  have gd: "bm_good {} b" using fh_invD(2) [OF rel(1)] by simp
  have "be_data (ent b i) = d" using bmc.held_vw [OF gd 2(5)] d by simp
  then have pb: "page_bytes \<lparr>ph_page = p, ph_slot = i\<rparr> ?st = (Inr (af_data af ! nat p), ?st)"
    using held_slot(1) [OF gd 2(5)] d(2) by (simp add: page_bytes_def liftB_def bindE_def entry_at_eq retE_def)
  have "wpE (seqE (fh_unpin_page p) (retE (Bytes (af_data af ! nat p)))) (op_post (Read p) af st) (op_refused (Read p) af st) ?st"
  proof (rule wpE_unpin_ret [OF rel(1)])
    show "op_post (Read p) af st (Bytes (af_data af ! nat p)) st'" if "same_pages (af_free af) {} ?st st'" for st'
      using file_rel_same [OF 2(3) that] moved_trans [OF _ that, of st] 2(1,2,4) by (auto simp: op_post_def moved_def)
  qed (use 2(1,5) rel(2) in \<open>auto simp: af_valid_def\<close>)
  then show ?case by (simp add: wpE_def bindE_def pb)
qed auto

lemma write_refines:
  assumes "file_rel af st" "off + length bs \<le> 4092"
  shows "wpE (file_do (Write p off bs)) (op_post (Write p off bs) af st) (op_refused (Write p off bs) af st) st"
  unfolding file_do.simps
proof (rule with_page [OF assms(1)], goal_cases)
  case (2 i b)
  let ?h = "handle st" and ?af = "af\<lparr>af_data := (af_data af)[nat p := patch off bs (af_data af ! nat p)]\<rparr>"
  let ?st = "\<lparr>handle = handle st, buf = b\<rparr>"
  note rel = file_relD [OF 2(3)]
  obtain d where d: "content ?st p = Some d" "drop 4 d = af_data af ! nat p" "length d = 4096" using rel(3) [OF 2(1)] by blast
  have p: "0 \<le> p" "p < page_num ?h" using 2(1) rel(2) by (auto simp: af_valid_def)
  have "wpE (seqE (liftB (store_bytes i (4 + off) bs)) (fh_mark_dirty p))
      (\<lambda>_. wpE (seqE (fh_unpin_page p) (retE Done)) (op_post (Write p off bs) af st) (op_refused (Write p off bs) af st))
      (op_refused (Write p off bs) af st) ?st"
  proof (rule wpE_mono [OF wpE_write_data [OF rel(1) p 2(2)]])
    fix r st1 assume w: "data_written {} (af_free af) p i (patch (4 + off) bs d) ?st st1"
    note w' = w [unfolded data_written_def, simplified]
    have r1: "file_rel ?af st1"
      by (rule file_rel_step [OF 2(3), where p = p])
        (use w' rel(2) p drop_patch [OF d(3) assms(2)] d(2) in \<open>auto simp: af_valid_def nth_list_update nat_eq_iff\<close>)
    have mv: "moved st st1" using w' 2(4) aside_trans by (auto simp: moved_def)
    show "wpE (seqE (fh_unpin_page p) (retE Done)) (op_post (Write p off bs) af st) (op_refused (Write p off bs) af st) st1"
    proof (rule wpE_unpin_ret [OF file_relD(1) [OF r1]])
      show "op_post (Write p off bs) af st Done st'" if "same_pages (af_free ?af) {} st1 st'" for st'
        using file_rel_same [OF r1 that] moved_trans [OF mv that] 2(1,2) by (auto simp: op_post_def)
    qed (use w' p in auto)
  qed (use 2(5) d assms(2) in auto)
  then show ?case by (simp add: wpE_seq)
qed auto

lemma file_do_refines:
  assumes "file_rel af st" "op_fits c" "fh_fd (handle st) + page_num (handle st) + 1 < 2 ^ 31"
  shows "wpE (file_do c) (op_post c af st) (op_refused c af st) st"
  using assms by (cases c) (auto simp del: file_do.simps intro: alloc_refines dispose_refines read_refines write_refines)

section \<open>No page stays pinned\<close>

lemma wpE_both: "wpE m Q R s \<Longrightarrow> wpE m Q' R' s \<Longrightarrow> wpE m (\<lambda>x s. Q x s \<and> Q' x s) (\<lambda>e s. R e s \<and> R' e s) s"
  by (simp only: wpE_conj)

definition let_go :: "nat \<Rightarrow> exn \<Rightarrow> fh_state \<Rightarrow> bool" where
  "let_go n e st' \<longleftrightarrow> e \<in> io_errors \<or> e \<in> {Invalid_page, Page_already_free} \<and> idle n (buf st')"

lemma unpin_ret_idle:
  assumes "fh_inv {} free st" "0 \<le> p" "p < page_num (handle st)" "bm_held (buf st) (fh_fd (handle st)) p i" "only n i (buf st)"
  shows "wpE (seqE (fh_unpin_page p) (retE x)) (\<lambda>_ st'. idle n (buf st')) R st"
proof -
  obtain h b where st: "st = \<lparr>handle = h, buf = b\<rparr>" by (cases st)
  note iv = fh_invD [OF assms(1), unfolded st, simplified]
  have "wpE (fh_unpin_page p) (\<lambda>_ st'. idle n (buf st')) R \<lparr>handle = h, buf = b\<rparr>"
    by (rule wpE_fh_unpin_idle [OF iv(2), of _ _ i]) (use assms st iv(1) in auto)
  then show ?thesis by (simp add: wpE_seq_ret st)
qed

lemma with_page_idle:
  assumes rel: "file_rel af st" and id: "idle n (buf st)"
    and m: "\<And>i st1. af_valid af p \<Longrightarrow> p \<notin> set (af_free af) \<Longrightarrow> file_rel af st1 \<Longrightarrow> handle st1 = handle st \<Longrightarrow>
      bm_held (buf st1) (fh_fd (handle st)) p i \<Longrightarrow> only n i (buf st1) \<Longrightarrow>
      wpE (m \<lparr>ph_page = p, ph_slot = i\<rparr>) (\<lambda>_ st'. idle n (buf st')) (let_go n) st1"
  shows "wpE (bindE (get_this_page p) m) (\<lambda>_ st'. idle n (buf st')) (let_go n) st"
proof (cases "af_valid af p")
  case False
  then show ?thesis using rel id by (simp add: wpE_bind out_of_file let_go_def)
next
  case True
  note r = file_relD [OF rel]
  have p: "0 \<le> p" "p < page_num (handle st)" using True r(2) by (auto simp: af_valid_def)
  show ?thesis unfolding wpE_bind
  proof (rule wpE_mono [OF wpE_both [OF get_this_page_spec [OF r(1) p] get_this_page_idle [OF r(1) p id]]])
    fix ph :: page_handle and st1
    assume a: "(p \<notin> set (af_free af) \<and> ph_page ph = p \<and> same_pages (af_free af) {} st st1
      \<and> bm_held (buf st1) (fh_fd (handle st)) p (ph_slot ph)) \<and> only n (ph_slot ph) (buf st1)"
    have "ph = \<lparr>ph_page = p, ph_slot = ph_slot ph\<rparr>" "file_rel af st1" "handle st1 = handle st"
      using a file_rel_same [OF rel] by (auto simp: same_pages_def)
    then show "wpE (m ph) (\<lambda>_ st'. idle n (buf st')) (let_go n) st1" using m [of st1 "ph_slot ph"] True a by metis
  qed (auto simp: let_go_def)
qed

lemma alloc_idle:
  assumes rel: "file_rel af st" and room: "fh_fd (handle st) + page_num (handle st) + 1 < 2 ^ 31" and id: "idle n (buf st)"
  shows "wpE (file_do Alloc) (\<lambda>_ st'. idle n (buf st')) (let_go n) st"
proof -
  note r = file_relD [OF rel]
  have "wpE fh_allocate_page (\<lambda>ph. wpE (seqE (fh_unpin_page (ph_page ph)) (retE (Page (ph_page ph)))) (\<lambda>_ st'. idle n (buf st')) (let_go n)) (let_go n) st"
  proof (rule wpE_mono [OF wpE_both [OF fh_allocate_spec [OF r(1) room] allocate_page_idle [OF r(1) room id]]])
    fix ph st1 assume a: "allocated {} (af_free af) st ph st1 \<and> only n (ph_slot ph) (buf st1)"
    note al = conjunct1 [OF a, unfolded allocated_def Let_def]
    have "0 \<le> ph_page ph" "ph_page ph < page_num (handle st1)" using al fh_invD(6,10) [OF r(1)] by (cases "af_free af"; force)+
    moreover have "bm_held (buf st1) (fh_fd (handle st1)) (ph_page ph) (ph_slot ph)" using al by metis
    ultimately show "wpE (seqE (fh_unpin_page (ph_page ph)) (retE (Page (ph_page ph)))) (\<lambda>_ st'. idle n (buf st')) (let_go n) st1"
      using al a by (intro unpin_ret_idle [of "tl (af_free af)"]) auto
  qed (auto simp: let_go_def)
  then show ?thesis by (simp add: wpE_bind)
qed

lemma dispose_idle:
  assumes rel: "file_rel af st" and id: "idle n (buf st)"
  shows "wpE (file_do (Dispose p)) (\<lambda>_ st'. idle n (buf st')) (let_go n) st"
proof (cases "af_valid af p")
  case True
  note r = file_relD [OF rel]
  have "wpE (dispose_page p) (\<lambda>_ st'. idle n (buf st')) (let_go n) st"
    by (rule wpE_mono [OF dispose_page_idle [OF r(1) _ _ id]]) (use True r(2) in \<open>auto simp: af_valid_def let_go_def\<close>)
  then show ?thesis by (simp add: wpE_seq_ret)
qed (use rel id in \<open>simp add: wpE_seq_ret out_of_file let_go_def\<close>)

lemma read_idle:
  assumes rel: "file_rel af st" and id: "idle n (buf st)"
  shows "wpE (file_do (Read p)) (\<lambda>_ st'. idle n (buf st')) (let_go n) st"
  unfolding file_do.simps
proof (rule with_page_idle [OF rel id])
  fix i st1 assume a: "af_valid af p" "file_rel af st1" "handle st1 = handle st" "bm_held (buf st1) (fh_fd (handle st)) p i" "only n i (buf st1)"
  note r = file_relD [OF a(2)]
  have gd: "bm_good {} (buf st1)" using fh_invD(2) [OF r(1)] .
  have pb: "page_bytes \<lparr>ph_page = p, ph_slot = i\<rparr> st1 = (Inr (drop 4 (be_data (ent (buf st1) i))), st1)"
    using held_slot(1) [OF gd a(4)] by (simp add: page_bytes_def liftB_def bindE_def entry_at_eq retE_def)
  have "wpE (seqE (fh_unpin_page p) (retE x)) (\<lambda>_ st'. idle n (buf st')) (let_go n) st1" for x :: op_out
    by (rule unpin_ret_idle [OF r(1), of _ i]) (use a r(2) in \<open>auto simp: af_valid_def\<close>)
  then show "wpE (bindE (page_bytes \<lparr>ph_page = p, ph_slot = i\<rparr>) (\<lambda>bs. seqE (fh_unpin_page p) (retE (Bytes bs)))) (\<lambda>_ st'. idle n (buf st')) (let_go n) st1"
    by (simp add: wpE_def bindE_def pb)
qed

lemma write_idle:
  assumes rel: "file_rel af st" and fits: "off + length bs \<le> 4092" and id: "idle n (buf st)"
  shows "wpE (file_do (Write p off bs)) (\<lambda>_ st'. idle n (buf st')) (let_go n) st"
  unfolding file_do.simps
proof (rule with_page_idle [OF rel id])
  fix i st1 assume a: "af_valid af p" "p \<notin> set (af_free af)" "file_rel af st1" "handle st1 = handle st"
    "bm_held (buf st1) (fh_fd (handle st)) p i" "only n i (buf st1)"
  obtain h b where st1: "st1 = \<lparr>handle = h, buf = b\<rparr>" by (cases st1)
  note r = file_relD [OF a(3)]
  have p: "0 \<le> p" "p < page_num h" using a(1) r(2) st1 by (auto simp: af_valid_def)
  obtain d where d: "content st1 p = Some d" using r(3) [OF a(1)] by blast
  have k: "keepsE (fh_pins X) (seqE (liftB (store_bytes i (4 + off) bs)) (fh_mark_dirty p))" for X by (intro keeps_rules)
  have "wpE (seqE (liftB (store_bytes i (4 + off) bs)) (fh_mark_dirty p))
    (\<lambda>_. wpE (seqE (fh_unpin_page p) (retE Done)) (\<lambda>_ st'. idle n (buf st')) (let_go n)) (let_go n) st1"
    unfolding st1
  proof (rule wpE_fh_pins [OF k], rule wpE_mono [OF wpE_write_data [OF r(1) [unfolded st1] p a(2), of i d "4 + off" bs "let_go n"]])
    fix x st2 assume w: "data_written {} (af_free af) p i (patch (4 + off) bs d) \<lparr>handle = h, buf = b\<rparr> st2"
    show "pins (buf st2) = pins (buf \<lparr>handle = h, buf = b\<rparr>) \<longrightarrow>
      wpE (seqE (fh_unpin_page p) (retE Done)) (\<lambda>_ st'. idle n (buf st')) (let_go n) st2"
      using w p a(6) st1 only_pins [of "buf st2" b] by (intro impI unpin_ret_idle [of "af_free af" _ _ i]) (auto simp: data_written_def)
  qed (use a d fits st1 in auto)
  then show "wpE (seqE (seqE (liftB (store_bytes (ph_slot \<lparr>ph_page = p, ph_slot = i\<rparr>) (4 + off) bs)) (fh_mark_dirty p))
      (seqE (fh_unpin_page p) (retE Done))) (\<lambda>_ st'. idle n (buf st')) (let_go n) st1"
    by (simp add: wpE_seq)
qed

lemma file_do_idle:
  assumes "file_rel af st" "op_fits c" "fh_fd (handle st) + page_num (handle st) + 1 < 2 ^ 31" "idle n (buf st)"
  shows "wpE (file_do c) (\<lambda>_ st'. idle n (buf st')) (let_go n) st"
  using assms by (cases c) (auto simp del: file_do.simps intro: alloc_idle dispose_idle read_idle write_idle)

section \<open>Any number of files\<close>

record stores =
  st_files :: "file_handle list"
  st_pool :: bufm

definition on_store :: "nat \<Rightarrow> 'a fh \<Rightarrow> (stores, 'a) eff" where
  "on_store k m s = (case m \<lparr>handle = st_files s ! k, buf = st_pool s\<rparr> of
     (r, st) \<Rightarrow> (r, \<lparr>st_files = (st_files s)[k := handle st], st_pool = buf st\<rparr>))"

text \<open>A client goes on after a page number was refused; it gives up when the pool or the file system fails.\<close>

fun store_run :: "(nat \<times> file_op) list \<Rightarrow> stores \<Rightarrow> op_out res list res \<times> stores" where
  "store_run [] s = (Inr [], s)"
| "store_run ((k, c) # cs) s = (case on_store k (file_do c) s of
     (r, s1) \<Rightarrow> (case r of
         Inl e \<Rightarrow> if e \<in> {Invalid_page, Page_already_free}
           then (case store_run cs s1 of (rs, s2) \<Rightarrow> (map_sum id (Cons r) rs, s2)) else (Inl e, s1)
       | Inr _ \<Rightarrow> (case store_run cs s1 of (rs, s2) \<Rightarrow> (map_sum id (Cons r) rs, s2))))"

fun spec_run :: "(nat \<times> file_op) list \<Rightarrow> afile list \<Rightarrow> op_out res list \<times> afile list" where
  "spec_run [] afs = ([], afs)"
| "spec_run ((k, c) # cs) afs = (case spec_op c (afs ! k) of
     Inl e \<Rightarrow> (case spec_run cs afs of (rs, afs') \<Rightarrow> (Inl e # rs, afs'))
   | Inr (r, af) \<Rightarrow> (case spec_run cs (afs[k := af]) of (rs, afs') \<Rightarrow> (Inr r # rs, afs')))"

definition files_rel :: "afile list \<Rightarrow> stores \<Rightarrow> bool" where
  "files_rel afs s \<longleftrightarrow> length afs = length (st_files s) \<and> distinct (map fh_fd (st_files s))
     \<and> (\<forall>k < length afs. file_rel (afs ! k) \<lparr>handle = st_files s ! k, buf = st_pool s\<rparr>)"

text \<open>An operation on one file leaves the pages of every other file as they were.\<close>

lemma other_file:
  assumes rel: "file_rel af \<lparr>handle = h, buf = b\<rparr>" and a: "aside f b b'" "fh_fd h \<noteq> f" and b': "bm_good {} b'" "bm_psize b' = 4096"
  shows "file_rel af \<lparr>handle = h, buf = b'\<rparr>"
proof -
  note r = file_relD [OF rel]
  note iv = fh_invD [OF r(1), simplified]
  have v: "view b' (fh_fd h) q = view b (fh_fd h) q" if q: "0 \<le> q" "q < page_num h" for q
  proof -
    obtain d where d: "view b (fh_fd h) q = Some d" using iv(11) [OF q] by auto
    have "key_ok (fh_fd h) q" using fh_key_ok [OF r(1)] q by simp
    then show ?thesis using a d unfolding aside_def by metis
  qed
  have "bm_in_pool b' (fh_fd h) q \<Longrightarrow> bm_in_pool b (fh_fd h) q" for q using a by (simp add: aside_def)
  then have "fh_inv {} (af_free af) \<lparr>handle = h, buf = b'\<rparr>" using iv(13) by (intro fh_inv_same [OF r(1) b' v]) blast+
  then show ?thesis using rel v by (simp add: file_rel_def af_valid_def)
qed

lemma files_rel_step:
  assumes rel: "files_rel afs s" and k: "k < length afs" and mv: "moved \<lparr>handle = st_files s ! k, buf = st_pool s\<rparr> st'"
    and af: "file_rel af st'"
  shows "files_rel (afs[k := af]) \<lparr>st_files = (st_files s)[k := handle st'], st_pool = buf st'\<rparr>"
proof -
  let ?hs = "(st_files s)[k := handle st']"
  note rl = rel [unfolded files_rel_def] and m = mv [unfolded moved_def, simplified]
  have fds: "map fh_fd ?hs = map fh_fd (st_files s)" using m rl k
    by (auto simp: list_eq_iff_nth_eq nth_list_update)
  have "file_rel (afs[k := af] ! j) \<lparr>handle = ?hs ! j, buf = buf st'\<rparr>" if j: "j < length afs" for j
  proof (cases "j = k")
    case True
    then show ?thesis using af k rl by (cases st') simp
  next
    case False
    have ne: "fh_fd (st_files s ! j) \<noteq> fh_fd (st_files s ! k)"
      using rl nth_eq_iff_index_eq [of "map fh_fd (st_files s)" j k] j k False by auto
    note iv = fh_invD(2,3) [OF file_relD(1) [OF af]]
    show ?thesis using other_file [OF _ _ ne iv] rl m j False by auto
  qed
  then show ?thesis using rl fds by (simp add: files_rel_def)
qed

definition room :: "nat \<Rightarrow> stores \<Rightarrow> bool" where
  "room n s \<longleftrightarrow> (\<forall>h \<in> set (st_files s). fh_fd h + page_num h + int n < 2 ^ 31)"

lemma room_nth: "room n s \<Longrightarrow> k < length (st_files s) \<Longrightarrow>
    fh_fd (st_files s ! k) + page_num (st_files s ! k) + int n < 2 ^ 31"
  by (simp add: room_def)

lemma room_step:
  assumes "room (Suc n) s" "k < length (st_files s)" "moved \<lparr>handle = st_files s ! k, buf = st_pool s\<rparr> st'"
  shows "room n \<lparr>st_files = (st_files s)[k := handle st'], st_pool = buf st'\<rparr>"
proof -
  have "fh_fd (handle st') + page_num (handle st') + int n < 2 ^ 31"
    using room_nth [OF assms(1,2)] assms(3) by (auto simp: moved_def)
  then show ?thesis using assms(1) set_update_subset_insert [of "st_files s" k "handle st'"] by (fastforce simp: room_def)
qed

lemma on_store_refines:
  assumes rel: "files_rel afs s" and k: "k < length afs" "op_fits c" and rm: "room (Suc n) s" and id: "idle sz (st_pool s)"
    and run: "on_store k (file_do c) s = (r, s')"
  shows "(\<exists>e. r = Inl e \<and> e \<in> io_errors)
    \<or> (\<exists>e. r = Inl e \<and> e \<in> {Invalid_page, Page_already_free} \<and> spec_op c (afs ! k) = Inl e \<and> files_rel afs s' \<and> room n s' \<and> idle sz (st_pool s'))
    \<or> (\<exists>x af. r = Inr x \<and> spec_op c (afs ! k) = Inr (x, af) \<and> files_rel (afs[k := af]) s' \<and> room n s' \<and> idle sz (st_pool s'))"
proof -
  let ?st = "\<lparr>handle = st_files s ! k, buf = st_pool s\<rparr>"
  obtain st' where st': "file_do c ?st = (r, st')" "s' = \<lparr>st_files = (st_files s)[k := handle st'], st_pool = buf st'\<rparr>"
    using run by (auto simp: on_store_def split: prod.splits)
  have k': "k < length (st_files s)" using k(1) rel by (simp add: files_rel_def)
  have fr: "file_rel (afs ! k) ?st" using rel k(1) by (simp add: files_rel_def)
  have rm': "fh_fd (handle ?st) + page_num (handle ?st) + 1 < 2 ^ 31" using room_nth [OF rm k'] by simp
  note sp = file_do_refines [OF fr k(2) rm'] and sp' = file_do_idle [OF fr k(2) rm', of sz]
  have nm: "{Invalid_page, Page_already_free} \<inter> get_errors False = {}" by (auto simp: get_errors_def io_errors_def)
  note step = files_rel_step [OF rel k(1)] and rs = room_step [OF rm k']
  show ?thesis
  proof (cases r)
    case (Inl e)
    then have "op_refused c (afs ! k) ?st e st'" "let_go sz e st'" using wpE_throwD [OF sp] wpE_throwD [OF sp'] st'(1) id by auto
    then show ?thesis using step [of st' "afs ! k"] rs [of st'] Inl st'(2) nm by (auto simp: op_refused_def let_go_def)
  next
    case (Inr x)
    then have "op_post c (afs ! k) ?st x st'" "idle sz (buf st')" using wpE_retD [OF sp] wpE_retD [OF sp'] st'(1) id by auto
    then show ?thesis using step [of st'] rs [of st'] Inr st'(2) by (auto simp: op_post_def)
  qed
qed

lemma store_run_refines:
  assumes "files_rel afs s" "\<forall>(k, c) \<in> set cs. k < length afs \<and> op_fits c" "room (length cs) s" "idle n (st_pool s)"
  shows "case store_run cs s of (Inr rs, s') \<Rightarrow> idle n (st_pool s') \<and> (\<exists>afs'. spec_run cs afs = (rs, afs') \<and> files_rel afs' s')
    | (Inl e, _) \<Rightarrow> e \<in> io_errors"
  using assms
proof (induction cs arbitrary: afs s)
  case (Cons kc cs)
  obtain k c where kc: "kc = (k, c)" by fastforce
  obtain r s1 where r: "on_store k (file_do c) s = (r, s1)" by fastforce
  have IH: "case store_run cs s1 of (Inr rs, s') \<Rightarrow> idle n (st_pool s') \<and> (\<exists>afs'. spec_run cs afs1 = (rs, afs') \<and> files_rel afs' s')
      | (Inl e, _) \<Rightarrow> e \<in> io_errors" if "files_rel afs1 s1" "room (length cs) s1" "idle n (st_pool s1)" "length afs1 = length afs" for afs1
    using Cons.IH [OF that(1) _ that(2,3)] Cons.prems(2) that(4) by auto
  have kc_ok: "k < length afs" "op_fits c" "room (Suc (length cs)) s" using Cons.prems kc by auto
  have nm: "Invalid_page \<notin> io_errors" "Page_already_free \<notin> io_errors" by (auto simp: io_errors_def)
  consider (fail) e where "r = Inl e" "e \<in> io_errors"
    | (refused) e where "r = Inl e" "e \<in> {Invalid_page, Page_already_free}" "spec_op c (afs ! k) = Inl e" "files_rel afs s1" "room (length cs) s1" "idle n (st_pool s1)"
    | (ok) x af where "r = Inr x" "spec_op c (afs ! k) = Inr (x, af)" "files_rel (afs[k := af]) s1" "room (length cs) s1" "idle n (st_pool s1)"
    using on_store_refines [OF Cons.prems(1) kc_ok Cons.prems(4) r] by blast
  then show ?case
  proof cases
    case fail
    then have "e \<notin> {Invalid_page, Page_already_free}" using nm by blast
    then show ?thesis using fail kc r by simp
  next
    case refused
    then show ?thesis using IH [OF refused(4-6)] kc r by (auto split: prod.splits sum.splits)
  next
    case ok
    then show ?thesis using IH [OF ok(3-5)] kc r by (auto split: prod.splits sum.splits)
  qed
qed (simp add: store_run.simps)

section \<open>The property\<close>

text \<open>C3: clients of the file layer see independent page stores.  Any number of files with different descriptors share one buffer
  pool in which no page is pinned.  For every interleaved sequence of allocations, disposals, reads and writes on their pages, in which
  no write leaves its page and no file grows past the numbers an \<open>int\<close> can hold, either every result, refusals of free and of
  missing pages included, is the one the specification gives (a stack of free pages and the contents of the others, per file), the
  files then hold what the specification holds and again no page is pinned; or a system call fails or the offset of a page
  overflows.  The pool never runs out of buffers.\<close>

theorem files_are_page_stores:
  assumes "files_rel afs s" "idle n (st_pool s)" "\<forall>(k, c) \<in> set cs. k < length afs \<and> op_fits c"
    and "\<forall>h \<in> set (st_files s). fh_fd h + page_num h + int (length cs) < 2 ^ 31"
  shows "case store_run cs s of
      (Inr rs, s') \<Rightarrow> idle n (st_pool s') \<and> (\<exists>afs'. spec_run cs afs = (rs, afs') \<and> files_rel afs' s')
    | (Inl e, _) \<Rightarrow> e \<in> {Unix_error, Incomplete_write, Incomplete_read, Undefined_behaviour}"
  using store_run_refines [OF assms(1,3) _ assms(2)] assms(4) unfolding room_def io_errors_def by simp

section \<open>A run of a client\<close>

text \<open>The index file of the run above, opened: one page in use, an empty free list.\<close>

definition run_store :: stores where
  "run_store = \<lparr>st_files = [one_page_file\<lparr>header_changed := False\<rparr>],
     st_pool = run_pool (tbl None Map.empty (Suc 0)) (run_slot False index_page 0) None 4
       (run_os [index_file ''t'' 1 \<mapsto> 1] (file_bytes index_page) (Some (1, 8)) 91808 2)\<rparr>"

definition run_spec :: "afile list" where
  "run_spec = [\<lparr>af_free = [], af_data = [drop 4 index_page]\<rparr>]"

lemma run_store_rel: "files_rel run_spec run_store"
proof -
  let ?st = "\<lparr>handle = one_page_file\<lparr>header_changed := False\<rparr>, buf = st_pool run_store\<rparr>"
  have four: "(0 :: int) \<le> 4" "(4 :: int) < 2 ^ 31" by simp_all
  obtain fo h cont i where c: "fanout_of 4 = Inr fo"
    "openable {} (index_file ''t'' 1) i 1 (run_pool (tbl None Map.empty (Suc 0)) (run_slot False index_page 0) None 4
       (run_os [index_file ''t'' 1 \<mapsto> 1] (file_bytes index_page) None 91808 2))"
    "on_disk h cont (px_data (os (run_pool (tbl None Map.empty (Suc 0)) (run_slot False index_page 0) None 4
       (run_os [index_file ''t'' 1 \<mapsto> 1] (file_bytes index_page) None 91808 2))) i)" "stored h cont []" "page_num h = 1"
    "cont 0 = Some (patch 4 (enc_index_header (new_header raw_header 1 4 fo)) blank_page)"
    by (rule create_index_on_disk [OF index_pool_can_create four run_create_index])
  have f: "fo = 341" using fanout_of_nonneg [of 4] c(1) by simp
  have op: "open_file (index_file ''t'' 1) (run_pool (tbl None Map.empty (Suc 0)) (run_slot False index_page 0) None 4
       (run_os [index_file ''t'' 1 \<mapsto> 1] (file_bytes index_page) None 91808 2)) = (Inr (handle ?st), buf ?st)"
    using run_open_file [of "-1" 1 "index_file ''t'' 1" _ _ _ _ "replicate 4088 0 @ index_page"]
    by (simp add: run_store_def file_bytes_def int_range_def)
  note o = open_file_inv [OF c(2-4) _ op]
  have "fh_inv {} [] ?st" using o(1) c(5) by simp
  moreover have "content ?st 0 = Some index_page" using o(5) [of 0] c(5,6) f by (simp add: index_page_def)
  moreover have "0 \<le> q \<and> q < 1 \<longleftrightarrow> q = 0" for q :: int by auto
  ultimately have "file_rel \<lparr>af_free = [], af_data = [drop 4 index_page]\<rparr> ?st"
    by (simp add: file_rel_def af_valid_def)
  then show ?thesis by (simp add: files_rel_def run_spec_def) (simp add: run_store_def)
qed

text \<open>The page is read, and in the pool from then on; it is written and read again; page 7 does not exist.\<close>

definition run_client :: "(nat \<times> file_op) list" where
  "run_client = [(0, Read 0), (0, Write 0 100 [7, 8]), (0, Dispose 7)]"

lemma run_slot_upd:
  "(run_slot dt d m)\<lparr>be_pin := n\<rparr> = run_slot dt d n" "(run_slot dt d m)\<lparr>be_dirty := dt'\<rparr> = run_slot dt' d m"
  "(run_slot dt d m)\<lparr>be_data := d'\<rparr> = run_slot dt d' m" "be_pin (run_slot dt d m) = m" "be_data (run_slot dt d m) = d"
  by (simp_all add: run_slot_def)

lemma run_hit:
  "length d = 4096 \<Longrightarrow> dec_int d = -2 \<Longrightarrow> get_this_page 0 \<lparr>handle = one_page_file\<lparr>header_changed := False\<rparr>,
      buf = run_pool one_page (run_slot dt d 0) (Some k) n p\<rparr> =
     (Inr \<lparr>ph_page = 0, ph_slot = 0\<rparr>, \<lparr>handle = one_page_file\<lparr>header_changed := False\<rparr>, buf = run_pool one_page (run_slot dt d 1) (Some n) (Suc n) p\<rparr>)"
  using tbl_ops(2) [of 0]
  by (simp add: get_this_page_def get_page_def find_page_def is_valid_page_def liftB_def bindE_def seqE_def retE_def getE_def guardE_def
      liftE_def c_int_def int_range_def run_ops(5) run_upd run_touch entry_at_eq run_slots run_slot_upd)

lemma dec_index_page: "dec_int index_page = -2"
  using dec_int_take [of index_page blank_page] dec_int_blank by (simp add: index_page_def patch_def blank_page_def PAGE_USED_def)

text \<open>The two successful operations of the client, on a file whose only page has not been read yet and on one whose page is cached.\<close>

lemma run_read: "file_do (Read 0) \<lparr>handle = one_page_file\<lparr>header_changed := False\<rparr>,
      buf = run_pool (tbl None Map.empty (Suc 0)) (run_slot False index_page 0) None n (run_os ns (file_bytes index_page) (Some (1, q)) r k)\<rparr> =
    (Inr (Bytes (drop 4 index_page)), \<lparr>handle = one_page_file\<lparr>header_changed := False\<rparr>,
      buf = run_pool one_page (run_slot False index_page 0) (Some (Suc n)) (Suc (Suc n)) (run_os ns (file_bytes index_page) (Some (1, 8192)) r k)\<rparr>)"
  by (simp only: file_do.simps bindE_run [of "get_this_page 0", OF run_get_this_page])
    (simp add: page_bytes_def fh_unpin_page_def is_valid_page_def liftB_def bindE_def seqE_def retE_def getE_def guardE_def
      entry_at_eq run_slots run_ops(4) run_slot_upd)

lemma run_write:
  assumes "length d = 4096" "dec_int d = -2" "off + length bs \<le> 4092"
  shows "file_do (Write 0 off bs) \<lparr>handle = one_page_file\<lparr>header_changed := False\<rparr>, buf = run_pool one_page (run_slot dt d 0) (Some k) n p\<rparr> =
    (Inr Done, \<lparr>handle = one_page_file\<lparr>header_changed := False\<rparr>,
      buf = run_pool one_page (run_slot True (patch (4 + off) bs d) 0) (Some (Suc (Suc n))) (Suc (Suc (Suc n))) p\<rparr>)"
  using assms(3)
  by (simp only: file_do.simps bindE_run [of "get_this_page 0", OF run_hit [OF assms(1,2)]])
    (simp add: fh_mark_dirty_def fh_unpin_page_def is_valid_page_def liftB_def bindE_def seqE_def retE_def getE_def guardE_def
      run_ops(2,3,4) run_slot_upd assms(1))

theorem files_are_page_stores_witness:
  "\<exists>s' afs'. store_run run_client run_store = (Inr [Inr (Bytes (drop 4 index_page)), Inr Done, Inl Invalid_page], s')
     \<and> spec_run run_client run_spec = ([Inr (Bytes (drop 4 index_page)), Inr Done, Inl Invalid_page], afs') \<and> files_rel afs' s'
     \<and> idle 2 (st_pool s')"
proof -
  have d: "file_do (Dispose 7) \<lparr>handle = one_page_file\<lparr>header_changed := False\<rparr>, buf = b\<rparr> =
      (Inl Invalid_page, \<lparr>handle = one_page_file\<lparr>header_changed := False\<rparr>, buf = b\<rparr>)" for b
    by (simp add: dispose_page_def is_valid_page_def eff_defs)
  obtain s' where r: "store_run run_client run_store = (Inr [Inr (Bytes (drop 4 index_page)), Inr Done, Inl Invalid_page], s')"
    using run_read run_write [OF length_index_page dec_index_page, of 100 "[7, 8]"] d
    by (simp add: run_client_def run_store_def on_store_def del: file_do.simps)
  have "\<forall>(k, c) \<in> set run_client. k < length run_spec \<and> op_fits c" by (simp add: run_client_def run_spec_def)
  moreover have "\<forall>h \<in> set (st_files run_store). fh_fd h + page_num h + int (length run_client) < 2 ^ 31"
    by (simp add: run_client_def run_store_def)
  moreover have "idle 2 (st_pool run_store)"
    by (simp add: idle_def run_store_def run_pool_def run_slot_def free_slot_def demo_junk_def numeral_2_eq_2)
  ultimately show ?thesis using files_are_page_stores [OF run_store_rel, of 2 run_client] r by auto
qed

end
