(* ===== verification/Lock_Manager.thy ===== *)
theory Lock_Manager
  imports Prelude
begin

text \<open>
  \<^verbatim>\<open>transaction/lock_table.{h,cc}\<close> and \<^verbatim>\<open>transaction/lock_manager.{h,cc}\<close>: the lock table,
  a hash table of doubly linked chains of lock entries, and the lock protocol of an entry, a wait list of requests in
  order of arrival.

  Lock entries live in an explicit heap; \<open>None\<close> in it is a freed or never allocated address.  The constructor of
  \<open>lock_entry\<close> is empty, so a fresh entry has the indeterminate \<open>item\<close>, \<open>current_lock_mode\<close> and
  \<open>shared_lock_cnt\<close> that the memory held: they are arguments of \<open>lt_add\<close>.  Likewise the bucket array
  starts with the contents \<open>mk_lock_table\<close> is given.  A call of \<open>lock\<close> blocks in a wait on the entry's
  condition variable: its request and the evaluation of the wait's predicate are separate steps.
\<close>

section \<open>The model\<close>

type_synonym txn_id = nat

datatype lock_status = granted | waiting

datatype lock_mode = none | shared | exclusive

type_synonym request = "txn_id \<times> lock_mode \<times> lock_status"

record lock_entry =
  wait_list :: "request list"
  current_lock_mode :: lock_mode
  shared_lock_cnt :: int
  le_item :: int
  le_next :: "nat option"
  le_prev :: "nat option"

record lock_table =
  table_size :: int
  lt_table :: "nat option list"
  entries :: "nat \<Rightarrow> lock_entry option"
  fresh_entry :: nat

definition mk_lock_table :: "nat option list \<Rightarrow> lock_table" where
  "mk_lock_table garbage = \<lparr>table_size = int (length garbage), lt_table = garbage, entries = Map.empty, fresh_entry = 0\<rparr>"

text \<open>\<open>reinterpret_cast<int>(item) % table_size_\<close>, then used as an index.\<close>

definition lt_hash :: "int \<Rightarrow> lock_table \<Rightarrow> nat res" where
  "lt_hash item t =
     (if table_size t = 0 then Inl Undefined_behaviour
      else let pos = c_rem (to_int32 item) (table_size t) in
        if 0 \<le> pos \<and> nat pos < length (lt_table t) then Inr (nat pos) else Inl Undefined_behaviour)"

definition lk_deref :: "nat option \<Rightarrow> lock_table \<Rightarrow> lock_entry res" where
  "lk_deref p t = (case p of None \<Rightarrow> Inl Undefined_behaviour
     | Some a \<Rightarrow> (case entries t a of None \<Rightarrow> Inl Undefined_behaviour | Some e \<Rightarrow> Inr e))"

definition lk_upd :: "nat option \<Rightarrow> (lock_entry \<Rightarrow> lock_entry) \<Rightarrow> (lock_table, unit) eff" where
  "lk_upd p f = bindE (liftE (lk_deref p)) (\<lambda>e. modE (\<lambda>t. t\<lparr>entries := (entries t)(the p \<mapsto> f e)\<rparr>))"

text \<open>The loop of \<open>search\<close>; the fuel is the number of live entries, which bounds an acyclic chain.\<close>

fun lt_walk :: "nat \<Rightarrow> int \<Rightarrow> nat option \<Rightarrow> lock_table \<Rightarrow> nat option res" where
  "lt_walk n item None t = Inr None"
| "lt_walk 0 item (Some a) t = Inl Diverges"
| "lt_walk (Suc n) item (Some a) t = (case entries t a of
      None \<Rightarrow> Inl Undefined_behaviour
    | Some e \<Rightarrow> if item = le_item e then Inr (Some a) else lt_walk n item (le_next e) t)"

definition lt_search :: "int \<Rightarrow> lock_table \<Rightarrow> nat option res" where
  "lt_search item t = bindR (lt_hash item t) (\<lambda>pos. lt_walk (fresh_entry t) item (lt_table t ! pos) t)"

text \<open>\<open>add\<close>: the new entry's \<open>item\<close> is not set, and \<open>head->prev\<close> is written without a test of \<open>head\<close>.\<close>

definition lt_add :: "lock_entry \<Rightarrow> int \<Rightarrow> (lock_table, nat) eff" where
  "lt_add raw item = bindE (liftE (lt_search item)) (\<lambda>p. case p of
      Some a \<Rightarrow> retE a
    | None \<Rightarrow> bindE (liftE (lt_hash item)) (\<lambda>pos. bindE (getE (\<lambda>t. (fresh_entry t, lt_table t ! pos))) (\<lambda>(a, head).
        seqE (modE (\<lambda>t. t\<lparr>fresh_entry := Suc a,
            entries := (entries t)(a \<mapsto> raw\<lparr>wait_list := [], le_next := head, le_prev := None\<rparr>),
            lt_table := (lt_table t)[pos := Some a]\<rparr>)) (
        seqE (lk_upd head (\<lambda>e. e\<lparr>le_prev := Some a\<rparr>)) (retE a)))))"

definition delete_entry :: "nat \<Rightarrow> (lock_table, unit) eff" where
  "delete_entry a = modE (\<lambda>t. t\<lparr>entries := (entries t)(a := None)\<rparr>)"

definition lt_remove :: "int \<Rightarrow> (lock_table, bool) eff" where
  "lt_remove item = bindE (liftE (lt_search item)) (\<lambda>p. case p of
      None \<Rightarrow> retE False
    | Some a \<Rightarrow> bindE (liftE (lt_hash item)) (\<lambda>pos. bindE (liftE (lk_deref p)) (\<lambda>e. bindE (getE (\<lambda>t. lt_table t ! pos)) (\<lambda>head.
        if p = head then
          seqE (modE (\<lambda>t. t\<lparr>lt_table := (lt_table t)[pos := le_next e]\<rparr>)) (seqE (delete_entry a) (retE True))
        else if le_next e = None then
          seqE (lk_upd (le_prev e) (\<lambda>q. q\<lparr>le_next := None\<rparr>)) (seqE (delete_entry a) (retE True))
        else
          seqE (lk_upd (le_next e) (\<lambda>q. q\<lparr>le_prev := le_prev e\<rparr>)) (
          seqE (lk_upd (le_prev e) (\<lambda>q. q\<lparr>le_next := le_next e\<rparr>)) (
          seqE (delete_entry a) (retE True)))))))"

text \<open>The destructor; the fuel of a chain is the number of entries ever made.\<close>

fun lt_free_chain :: "nat \<Rightarrow> nat option \<Rightarrow> (lock_table, unit) eff" where
  "lt_free_chain n None = retE ()"
| "lt_free_chain 0 (Some a) = throwE Diverges"
| "lt_free_chain (Suc n) (Some a) = bindE (liftE (lk_deref (Some a))) (\<lambda>e. seqE (delete_entry a) (lt_free_chain n (le_next e)))"

fun lt_free_buckets :: "nat \<Rightarrow> nat option list \<Rightarrow> (lock_table, unit) eff" where
  "lt_free_buckets n [] = retE ()"
| "lt_free_buckets n (p # ps) = seqE (lt_free_chain n p) (lt_free_buckets n ps)"

definition lt_destroy :: "(lock_table, unit) eff" where
  "lt_destroy = bindE (getE (\<lambda>t. (fresh_entry t, lt_table t))) (\<lambda>(n, ps). lt_free_buckets n ps)"

subsection \<open>The protocol of one entry\<close>

definition push_request :: "txn_id \<Rightarrow> lock_mode \<Rightarrow> lock_entry \<Rightarrow> lock_entry" where
  "push_request txn mode e = e\<lparr>wait_list := wait_list e @ [(txn, mode, waiting)]\<rparr>"

text \<open>The scan of a request that is not exclusive: the position of the transaction's first record, and whether all
  records before it are shared and granted.  Falling off the end of the list leaves the predicate without a value.\<close>

fun shared_scan :: "txn_id \<Rightarrow> request list \<Rightarrow> bool \<Rightarrow> bool \<Rightarrow> (nat \<times> bool) res" where
  "shared_scan txn [] s g = Inl Undefined_behaviour"
| "shared_scan txn ((x, m, st) # rs) s g =
     (if x = txn then Inr (0, s \<and> g)
      else bindR (shared_scan txn rs (s \<and> m = shared) (g \<and> st = granted)) (\<lambda>(i, b). Inr (Suc i, b)))"

definition wait_pred :: "txn_id \<Rightarrow> lock_mode \<Rightarrow> (lock_entry, bool) eff" where
  "wait_pred txn mode =
     (if mode = exclusive then bindE (getE wait_list) (\<lambda>w. case w of
          [] \<Rightarrow> throwE Undefined_behaviour
        | (x, _, _) # rs \<Rightarrow>
            if x = txn then seqE (modE (\<lambda>e. e\<lparr>wait_list := (txn, mode, granted) # rs, current_lock_mode := exclusive\<rparr>)) (retE True)
            else retE False)
      else bindE (liftE (\<lambda>e. shared_scan txn (wait_list e) True True)) (\<lambda>(i, ok).
        if ok then seqE (modE (\<lambda>e. e\<lparr>wait_list := (wait_list e)[i := (txn, mode, granted)],
                           shared_lock_cnt := shared_lock_cnt e + 1\<rparr>)) (retE True)
        else retE False))"

text \<open>The critical section of \<open>unlock\<close>; the value says whether the waiters are notified.\<close>

definition unlock_entry :: "txn_id \<Rightarrow> (lock_entry, bool) eff" where
  "unlock_entry txn =
     seqE (modE (\<lambda>e. e\<lparr>wait_list := filter (\<lambda>r. r \<noteq> (txn, current_lock_mode e, granted)) (wait_list e)\<rparr>)) (
     bindE (getE current_lock_mode) (\<lambda>m.
     seqE (whenE (m = shared) (modE (\<lambda>e. e\<lparr>shared_lock_cnt := shared_lock_cnt e - 1\<rparr>))) (
     bindE (getE shared_lock_cnt) (\<lambda>c.
       if m = shared \<and> c = 0 \<or> m = exclusive
       then seqE (modE (\<lambda>e. e\<lparr>current_lock_mode := none\<rparr>)) (retE True) else retE False))))"

text \<open>\<open>lock\<close> up to its wait, and \<open>unlock\<close>.\<close>

definition on_entry :: "nat \<Rightarrow> (lock_entry, 'a) eff \<Rightarrow> (lock_table, 'a) eff" where
  "on_entry a m t = (case entries t a of None \<Rightarrow> (Inl Undefined_behaviour, t)
     | Some e \<Rightarrow> (case m e of (r, e') \<Rightarrow> (r, t\<lparr>entries := (entries t)(a \<mapsto> e')\<rparr>)))"

definition lock_request :: "lock_entry \<Rightarrow> txn_id \<Rightarrow> lock_mode \<Rightarrow> int \<Rightarrow> (lock_table, nat) eff" where
  "lock_request raw txn mode item = bindE (lt_add raw item) (\<lambda>a.
     seqE (on_entry a (modE (push_request txn mode))) (retE a))"

definition lm_unlock :: "txn_id \<Rightarrow> int \<Rightarrow> (lock_table, bool) eff" where
  "lm_unlock txn item = bindE (liftE (lt_search item)) (\<lambda>p. case p of
      None \<Rightarrow> throwE Undefined_behaviour
    | Some a \<Rightarrow> bindE (on_entry a (unlock_entry txn)) (\<lambda>notify.
        bindE (liftE (lk_deref p)) (\<lambda>e.
        seqE (whenE (wait_list e = []) (bindE (lt_remove item) (\<lambda>_. retE ()))) (retE notify))))"

text \<open>Transactions at one entry.  A transaction asks for one lock at a time here (\<open>request\<close>); a blocked request may
  test its predicate at any time, since wake-ups may be spurious; any transaction may call \<open>unlock\<close>.\<close>

inductive entry_step :: "lock_entry \<Rightarrow> lock_entry \<Rightarrow> bool" where
  request: "txn \<notin> fst ` set (wait_list e) \<Longrightarrow> mode \<noteq> none \<Longrightarrow> entry_step e (push_request txn mode e)"
| test: "(txn, mode, waiting) \<in> set (wait_list e) \<Longrightarrow> wait_pred txn mode e = (Inr b, e') \<Longrightarrow> entry_step e e'"
| unlock: "unlock_entry txn e = (Inr b, e') \<Longrightarrow> entry_step e e'"

inductive_cases entry_stepE: "entry_step e e'"

section \<open>Mutual exclusion\<close>

abbreviation is_granted :: "request \<Rightarrow> bool" where
  "is_granted r \<equiv> snd (snd r) = granted"

abbreviation mode_of :: "request \<Rightarrow> lock_mode" where
  "mode_of r \<equiv> fst (snd r)"

text \<open>In list order: a granted record is preceded only by granted shared ones.\<close>

definition orderly :: "request list \<Rightarrow> bool" where
  "orderly rs \<longleftrightarrow> distinct (map fst rs) \<and>
     sorted_wrt (\<lambda>r s. is_granted s \<longrightarrow> is_granted r \<and> mode_of r = shared \<and> mode_of s = shared) rs"

lemma orderly_filter: "orderly rs \<Longrightarrow> orderly (filter P rs)"
  by (simp add: orderly_def distinct_map_filter sorted_wrt_filter)

lemma orderly_push: "orderly rs \<Longrightarrow> txn \<notin> fst ` set rs \<Longrightarrow> orderly (rs @ [(txn, m, waiting)])"
  by (simp add: orderly_def sorted_wrt_append)

lemma shared_scan_sound:
  "shared_scan txn rs s g = Inr (i, True) \<Longrightarrow> i < length rs \<and> fst (rs ! i) = txn \<and> s \<and> g \<and>
     (\<forall>j < i. is_granted (rs ! j) \<and> mode_of (rs ! j) = shared)"
proof (induction txn rs s g arbitrary: i rule: shared_scan.induct)
  case (2 txn x m st rs s g)
  show ?case
  proof (cases "x = txn")
    case True
    then show ?thesis using "2.prems" by auto
  next
    case False
    then obtain k where k: "i = Suc k" "shared_scan txn rs (s \<and> m = shared) (g \<and> st = granted) = Inr (k, True)"
      using "2.prems" by (auto simp: bindR_eq_Inr)
    then show ?thesis using "2.IH" [OF False k(2)] by (auto simp: nth_Cons split: nat.splits)
  qed
qed simp

lemma unique_record:
  assumes "distinct (map fst rs)" "i < length rs" "fst (rs ! i) = txn" "(txn, m, st) \<in> set rs"
  shows "rs ! i = (txn, m, st)"
  using assms by (auto simp: distinct_map dest: inj_onD [of fst "set rs" "rs ! i" "(txn, m, st)"])

lemma orderly_grant_shared:
  assumes ord: "orderly rs" and i: "i < length rs" "rs ! i = (txn, shared, waiting)"
    and pre: "\<And>j. j < i \<Longrightarrow> is_granted (rs ! j) \<and> mode_of (rs ! j) = shared"
  shows "orderly (rs[i := (txn, shared, granted)])"
proof -
  have "map fst (rs[i := (txn, shared, granted)]) = map fst rs"
    using i by (intro nth_equalityI) (auto simp: nth_list_update)
  moreover have "sorted_wrt (\<lambda>r s. is_granted s \<longrightarrow> is_granted r \<and> mode_of r = shared \<and> mode_of s = shared) (rs[i := (txn, shared, granted)])"
    unfolding sorted_wrt_iff_nth_less
  proof (intro allI impI)
    fix j k assume jk: "j < k" "k < length (rs[i := (txn, shared, granted)])"
      and g: "is_granted (rs[i := (txn, shared, granted)] ! k)"
    show "is_granted (rs[i := (txn, shared, granted)] ! j) \<and> mode_of (rs[i := (txn, shared, granted)] ! j) = shared
      \<and> mode_of (rs[i := (txn, shared, granted)] ! k) = shared"
    proof (cases "k = i")
      case True
      then show ?thesis using pre [of j] jk i by simp
    next
      case False
      then have "is_granted (rs ! j) \<and> mode_of (rs ! j) = shared \<and> mode_of (rs ! k) = shared"
        using ord jk g by (auto simp: orderly_def sorted_wrt_iff_nth_less)
      then show ?thesis using False jk i by (cases "j = i") auto
    qed
  qed
  ultimately show ?thesis using ord by (simp add: orderly_def)
qed

lemma orderly_grant_exclusive:
  assumes "orderly ((txn, m, waiting) # rs)"
  shows "orderly ((txn, m', granted) # rs)"
  using assms by (auto simp: orderly_def)

lemma wait_pred_exclusive:
  "wait_pred txn exclusive e = (case wait_list e of [] \<Rightarrow> (Inl Undefined_behaviour, e)
     | r # rs \<Rightarrow> if fst r = txn then (Inr True, e\<lparr>wait_list := (txn, exclusive, granted) # rs, current_lock_mode := exclusive\<rparr>)
         else (Inr False, e))"
  by (auto simp: wait_pred_def run_simps split: list.split)

lemma wait_pred_shared:
  "wait_pred txn shared e = (case shared_scan txn (wait_list e) True True of Inl x \<Rightarrow> (Inl x, e)
     | Inr (i, ok) \<Rightarrow> if ok then (Inr True, e\<lparr>wait_list := (wait_list e)[i := (txn, shared, granted)],
           shared_lock_cnt := shared_lock_cnt e + 1\<rparr>) else (Inr False, e))"
  by (auto simp: wait_pred_def run_simps split: sum.split)

lemma unlock_entry_wait_list:
  "unlock_entry txn e = (r, e') \<Longrightarrow> r = Inr b \<Longrightarrow>
     wait_list e' = filter (\<lambda>r. r \<noteq> (txn, current_lock_mode e, granted)) (wait_list e)"
  by (auto simp: unlock_entry_def run_simps split: if_splits)

definition entry_inv :: "lock_entry \<Rightarrow> bool" where
  "entry_inv e \<longleftrightarrow> orderly (wait_list e) \<and> (\<forall>r \<in> set (wait_list e). mode_of r \<noteq> none)"

lemma wait_pred_inv:
  assumes inv: "entry_inv e" and mem: "(txn, mode, waiting) \<in> set (wait_list e)"
    and run: "wait_pred txn mode e = (Inr b, e')"
  shows "entry_inv e'"
proof -
  have ord: "orderly (wait_list e)" and modes: "\<forall>r \<in> set (wait_list e). mode_of r \<noteq> none"
    using inv by (auto simp: entry_inv_def)
  consider "mode = exclusive" | "mode = shared" using modes mem by (cases mode) auto
  then show ?thesis
  proof cases
    case 1
    obtain r rs where w: "wait_list e = r # rs" using mem by (cases "wait_list e") auto
    show ?thesis
    proof (cases "fst r = txn")
      case True
      have "r = (txn, exclusive, waiting)"
        using unique_record [of "wait_list e" 0 txn mode waiting] ord mem True w 1 by (simp add: orderly_def)
      then show ?thesis using run 1 w True ord modes orderly_grant_exclusive
        by (auto simp: wait_pred_exclusive entry_inv_def)
    qed (use run 1 w inv in \<open>auto simp: wait_pred_exclusive\<close>)
  next
    case 2
    then obtain i ok where s: "shared_scan txn (wait_list e) True True = Inr (i, ok)"
      using run by (auto simp: wait_pred_shared split: sum.splits)
    show ?thesis
    proof (cases ok)
      case True
      then have i: "i < length (wait_list e)" "fst (wait_list e ! i) = txn"
        "\<And>j. j < i \<Longrightarrow> is_granted (wait_list e ! j) \<and> mode_of (wait_list e ! j) = shared"
        using shared_scan_sound [of txn "wait_list e" True True i] s by auto
      have "wait_list e ! i = (txn, shared, waiting)"
        using unique_record [OF _ i(1,2), of mode waiting] ord mem 2 by (simp add: orderly_def)
      then have "orderly ((wait_list e)[i := (txn, shared, granted)])"
        using orderly_grant_shared [OF ord i(1)] i(3) by blast
      moreover have "e' = e\<lparr>wait_list := (wait_list e)[i := (txn, shared, granted)], shared_lock_cnt := shared_lock_cnt e + 1\<rparr>"
        using run s True 2 by (simp add: wait_pred_shared)
      ultimately show ?thesis using modes
        by (auto simp: entry_inv_def dest!: set_update_subset_insert [THEN subsetD])
    qed (use run s 2 inv in \<open>auto simp: wait_pred_shared\<close>)
  qed
qed

lemma entry_step_inv: "entry_step e e' \<Longrightarrow> entry_inv e \<Longrightarrow> entry_inv e'"
proof (erule entry_stepE)
  fix txn b assume "entry_inv e" "unlock_entry txn e = (Inr b, e')"
  then show ?thesis using unlock_entry_wait_list [of txn e "Inr b" e' b] by (simp add: entry_inv_def orderly_filter)
next
  fix txn mode b assume "entry_inv e" "(txn, mode, waiting) \<in> set (wait_list e)" "wait_pred txn mode e = (Inr b, e')"
  then show ?thesis by (rule wait_pred_inv)
qed (auto simp: entry_inv_def push_request_def orderly_push)

lemma entry_steps_inv: "entry_step\<^sup>*\<^sup>* e e' \<Longrightarrow> entry_inv e \<Longrightarrow> entry_inv e'"
  by (induction rule: rtranclp_induct) (auto intro: entry_step_inv)

lemma orderly_exclusive_alone:
  assumes "orderly rs" "(x, exclusive, granted) \<in> set rs" "(y, m, granted) \<in> set rs"
  shows "(y, m, granted) = (x, exclusive, granted)"
proof -
  obtain i j where "i < length rs" "rs ! i = (x, exclusive, granted)" "j < length rs" "rs ! j = (y, m, granted)"
    using assms by (auto simp: in_set_conv_nth)
  then show ?thesis using assms(1) unfolding orderly_def sorted_wrt_iff_nth_less
    by (cases i j rule: linorder_cases) force+
qed

section \<open>A granted shared lock is never released\<close>

lemma step_not_shared: "entry_step e e' \<Longrightarrow> current_lock_mode e \<noteq> shared \<Longrightarrow> current_lock_mode e' \<noteq> shared"
proof (erule entry_stepE)
  fix txn mode b assume "current_lock_mode e \<noteq> shared" "wait_pred txn mode e = (Inr b, e')"
  then show ?thesis
    by (auto simp: wait_pred_def run_simps split: if_splits list.splits sum.splits)
next
  fix txn b assume "current_lock_mode e \<noteq> shared" "unlock_entry txn e = (Inr b, e')"
  then show ?thesis by (auto simp: unlock_entry_def run_simps split: if_splits)
qed (simp add: push_request_def)

lemma step_keeps_shared:
  assumes "entry_step e e'" "entry_inv e" "current_lock_mode e \<noteq> shared" "(t, shared, granted) \<in> set (wait_list e)"
  shows "(t, shared, granted) \<in> set (wait_list e')"
  using assms(1)
proof cases
  case (test txn mode b)
  have "mode \<noteq> none" using test(1) assms(2) by (auto simp: entry_inv_def)
  have ne: "txn \<noteq> t" using test(1) assms(2,4)
    by (auto simp: entry_inv_def orderly_def distinct_map
        dest: inj_onD [of fst "set (wait_list e)" "(t, mode, waiting)" "(t, shared, granted)"])
  show ?thesis
  proof (cases "mode = exclusive")
    case True
    then show ?thesis using test assms(4) ne by (auto simp: wait_pred_exclusive split: list.splits if_splits)
  next
    case False
    then have sh: "mode = shared" using \<open>mode \<noteq> none\<close> by (cases mode) auto
    obtain i ok where s: "shared_scan txn (wait_list e) True True = Inr (i, ok)"
      using test(2) sh by (auto simp: wait_pred_shared split: sum.splits)
    show ?thesis
    proof (cases ok)
      case True
      then have i: "i < length (wait_list e)" "fst (wait_list e ! i) = txn"
        using shared_scan_sound [of txn "wait_list e" True True i] s by auto
      obtain j where j: "j < length (wait_list e)" "wait_list e ! j = (t, shared, granted)"
        using assms(4) by (auto simp: in_set_conv_nth)
      then have "(wait_list e)[i := (txn, shared, granted)] ! j = (t, shared, granted)" using i ne by (cases "i = j") auto
      then show ?thesis using test(2) sh s True j by (auto simp: wait_pred_shared) (metis length_list_update nth_mem)
    qed (use test(2) sh s assms(4) in \<open>simp add: wait_pred_shared\<close>)
  qed
next
  case (unlock txn b)
  then show ?thesis using assms unlock_entry_wait_list [of txn e "Inr b" e' b] by auto
qed (use assms in \<open>simp add: push_request_def\<close>)

lemma steps_keep_shared:
  assumes "entry_step\<^sup>*\<^sup>* e e'" "entry_inv e" "current_lock_mode e \<noteq> shared" "(t, shared, granted) \<in> set (wait_list e)"
  shows "current_lock_mode e' \<noteq> shared \<and> entry_inv e' \<and> (t, shared, granted) \<in> set (wait_list e')"
  using assms
proof (induction rule: rtranclp_induct)
  case (step e1 e2)
  then show ?case using step_keeps_shared [of e1 e2 t] step_not_shared [of e1 e2] entry_step_inv [of e1 e2] by blast
qed simp

section \<open>The properties\<close>

definition fresh_lock_entry :: lock_entry where
  "fresh_lock_entry = \<lparr>wait_list = [], current_lock_mode = none, shared_lock_cnt = 0, le_item = 0, le_next = None, le_prev = None\<rparr>"

definition shared_entry :: lock_entry where
  "shared_entry = fresh_lock_entry\<lparr>wait_list := [(1, shared, granted)], shared_lock_cnt := 1\<rparr>"

lemma fresh_lock_entry_inv: "entry_inv fresh_lock_entry"
  by (simp add: fresh_lock_entry_def entry_inv_def orderly_def)

lemma shared_entry_steps: "entry_step\<^sup>*\<^sup>* fresh_lock_entry shared_entry"
proof -
  have 1: "entry_step fresh_lock_entry (push_request 1 shared fresh_lock_entry)"
    by (rule entry_step.request) (simp_all add: fresh_lock_entry_def)
  have 2: "entry_step (push_request 1 shared fresh_lock_entry) shared_entry"
    by (rule entry_step.test [of 1 shared _ True])
      (simp_all add: push_request_def fresh_lock_entry_def shared_entry_def wait_pred_shared)
  show ?thesis using 1 2 by (meson converse_rtranclp_into_rtranclp r_into_rtranclp)
qed



text \<open>A granted shared lock is never released.  \<open>lock\<close> does not set \<open>current_lock_mode\<close> for a shared
  lock, and \<open>unlock\<close> removes the record of the current mode only: once a shared lock is granted, its record stays
  through every later step, the holder's own \<open>unlock\<close> included, and no exclusive request at the item is ever
  granted again.\<close>

theorem shared_lock_never_released:
  assumes "entry_inv e" "current_lock_mode e \<noteq> shared" "(t, shared, granted) \<in> set (wait_list e)" "entry_step\<^sup>*\<^sup>* e e'"
  shows "(t, shared, granted) \<in> set (wait_list e') \<and> (x, exclusive, granted) \<notin> set (wait_list e')"
  using steps_keep_shared [OF assms(4,1,2,3)] orderly_exclusive_alone [of "wait_list e'" x t shared]
  by (auto simp: entry_inv_def)

theorem shared_lock_never_released_witness:
  "entry_step shared_entry (snd (unlock_entry 1 shared_entry)) \<and>
   (1, shared, granted) \<in> set (wait_list (snd (unlock_entry 1 shared_entry)))"
proof -
  have inv: "entry_inv shared_entry" "current_lock_mode shared_entry \<noteq> shared" "(1, shared, granted) \<in> set (wait_list shared_entry)"
    using entry_steps_inv [OF shared_entry_steps fresh_lock_entry_inv] by (auto simp: shared_entry_def fresh_lock_entry_def)
  have step: "entry_step shared_entry (snd (unlock_entry 1 shared_entry))"
    by (rule entry_step.unlock [of 1 _ False]) (simp add: unlock_entry_def run_simps shared_entry_def fresh_lock_entry_def)
  then have "entry_step\<^sup>*\<^sup>* shared_entry (snd (unlock_entry 1 shared_entry))" by blast
  from shared_lock_never_released [OF inv this] step show ?thesis by blast
qed

text \<open>An upgrade breaks mutual exclusion: a transaction that holds a shared lock as the head of the list and asks for
  the exclusive one gets it while another transaction holds its shared lock.\<close>

lemma upgrade_breaks_exclusion:
  assumes "wait_list e = [(1, shared, granted), (2, shared, granted)]"
  shows "\<exists>e'. wait_pred 1 exclusive (push_request 1 exclusive e) = (Inr True, e') \<and>
    (1, exclusive, granted) \<in> set (wait_list e') \<and> (2, shared, granted) \<in> set (wait_list e')"
  using assms by (simp add: wait_pred_exclusive push_request_def)

text \<open>The first lock of an item in an empty bucket dereferences the null head.\<close>

lemma first_lock_of_bucket:
  assumes "lt_hash item t = Inr pos" "lt_table t ! pos = None"
  shows "fst (lock_request raw txn mode item t) = Inl Undefined_behaviour"
proof -
  have null: "seqE (lk_upd None f) k s = (Inl Undefined_behaviour, s)" for f and k :: "(lock_table, nat) eff" and s
    by (rule seqE_fail) (simp add: lk_upd_def run_simps lk_deref_def)
  have "\<exists>t'. lt_add raw item t = (Inl Undefined_behaviour, t')"
    using assms by (simp add: lt_add_def run_simps lt_search_def null)
  then show ?thesis by (auto simp: lock_request_def bindE_def)
qed

end
