(* ===== verification/Criterion.thy ===== *)
theory Criterion
  imports Index_Format
begin

text \<open>
  \<^verbatim>\<open>io/iterator.{h,cc}\<close>: the criteria of a scan, such as \<open>x < 100\<close>.  \<open>eval\<close> compares the value at an address
  with the value of the criterion; \<open>reinterpret_cast<char>\<close> of a pointer is the low byte of the pointer.  A call
  that reaches the end of the function without a \<open>return\<close> is undefined behaviour.
\<close>

section \<open>The model\<close>

datatype criterion_type = NOT_EQUAL | EQUAL | LESS_THAN | LESS_EQUAL | GREATER_THAN | GREATER_EQUAL

record criterion =
  cri_type :: criterion_type
  cri_val :: key
  cri_coldef :: column_definition

text \<open>One block of the function: the chain of tests of the column type for a relation of C++.\<close>

definition typed_rel :: "heap \<Rightarrow> criterion \<Rightarrow> key \<Rightarrow> (int \<Rightarrow> int \<Rightarrow> bool) \<Rightarrow> bool option" where
  "typed_rel h c buf op = (let a = h buf; b = h (cri_val c) in case ct_type (cd_type (cri_coldef c)) of
      INT_T \<Rightarrow> Some (op (dec_int a) (dec_int b))
    | LONG \<Rightarrow> Some (op (sint (dec64 a)) (sint (dec64 b)))
    | FLOAT \<Rightarrow> Some (case (float_key 8 23 (uint (dec32 a)), float_key 8 23 (uint (dec32 b))) of
        (Some x, Some y) \<Rightarrow> op x y | _ \<Rightarrow> False)
    | DOUBLE \<Rightarrow> Some (case (float_key 11 52 (uint (dec64 a)), float_key 11 52 (uint (dec64 b))) of
        (Some x, Some y) \<Rightarrow> op x y | _ \<Rightarrow> False)
    | CHAR_T \<Rightarrow> Some (op (sint (ucast buf :: byte)) (sint (ucast (cri_val c) :: byte)))
    | VARCHAR \<Rightarrow> Some (op (strncmp (unat (ct_length (cd_type (cri_coldef c)))) a b) 0)
    | UNKNOWN \<Rightarrow> None)"

definition no_return :: "bool option \<Rightarrow> bool res" where
  "no_return r = (case r of Some b \<Rightarrow> Inr b | None \<Rightarrow> Inl Undefined_behaviour)"

definition or_res :: "bool res \<Rightarrow> bool res \<Rightarrow> bool res" where
  "or_res p q = bindR p (\<lambda>b. if b then Inr True else q)"

function internal_eval :: "heap \<Rightarrow> criterion \<Rightarrow> key \<Rightarrow> criterion_type \<Rightarrow> bool res" where
  "internal_eval h c buf LESS_THAN = no_return (typed_rel h c buf (<))"
| "internal_eval h c buf GREATER_THAN = no_return (typed_rel h c buf (>))"
| "internal_eval h c buf EQUAL = no_return (typed_rel h c buf (=))"
| "internal_eval h c buf GREATER_EQUAL = or_res (internal_eval h c buf GREATER_THAN) (internal_eval h c buf EQUAL)"
| "internal_eval h c buf LESS_EQUAL = or_res (internal_eval h c buf LESS_THAN) (internal_eval h c buf EQUAL)"
| "internal_eval h c buf NOT_EQUAL = Inl Undefined_behaviour"
  by pat_completeness auto
termination
  by (relation "measure (\<lambda>(_, _, _, t). case t of GREATER_EQUAL \<Rightarrow> 1 | LESS_EQUAL \<Rightarrow> 1 | _ \<Rightarrow> 0)") auto

definition eval :: "heap \<Rightarrow> criterion \<Rightarrow> key \<Rightarrow> bool res" where
  "eval h c buf = internal_eval h c buf (cri_type c)"

section \<open>Agreement with the comparator\<close>

definition holds :: "criterion_type \<Rightarrow> int \<Rightarrow> bool" where
  "holds t c = (case t of EQUAL \<Rightarrow> c = 0 | LESS_THAN \<Rightarrow> c < 0 | LESS_EQUAL \<Rightarrow> c \<le> 0 | GREATER_THAN \<Rightarrow> c > 0
     | GREATER_EQUAL \<Rightarrow> c \<ge> 0 | NOT_EQUAL \<Rightarrow> c \<noteq> 0)"

definition is_number :: "heap \<Rightarrow> data_type \<Rightarrow> key \<Rightarrow> bool" where
  "is_number h t k = (case t of FLOAT \<Rightarrow> float_key 8 23 (uint (dec32 (h k))) \<noteq> None
     | DOUBLE \<Rightarrow> float_key 11 52 (uint (dec64 (h k))) \<noteq> None | UNKNOWN \<Rightarrow> False | _ \<Rightarrow> True)"

abbreviation col_type :: "criterion \<Rightarrow> data_type" where
  "col_type c \<equiv> ct_type (cd_type (cri_coldef c))"

abbreviation col_len :: "criterion \<Rightarrow> nat" where
  "col_len c \<equiv> unat (ct_length (cd_type (cri_coldef c)))"

lemma cmp3_rel: "(cmp3 x y < 0) = (x < y)" "(0 < cmp3 x y) = (y < x)" "(cmp3 x y = 0) = (x = y)"
  by (auto simp: cmp3_def)

lemma typed_rel_compare:
  assumes "is_number h (col_type c) buf" "is_number h (col_type c) (cri_val c)"
  defines "r \<equiv> compare h (col_type c) (buf, col_len c) (cri_val c, col_len c)"
  shows "typed_rel h c buf (<) = Some (r < 0)" "typed_rel h c buf (>) = Some (r > 0)" "typed_rel h c buf (=) = Some (r = 0)"
  using assms(1,2) unfolding r_def
  by (cases "col_type c"; auto simp: typed_rel_def compare_def is_number_def cmp3_rel cmp_float_def Let_def)+

section \<open>The properties\<close>

text \<open>C24: scans and indexes order values the same way.  For every column type but \<open>UNKNOWN\<close> and numbers that are not
  NaN, a criterion \<open>=\<close>, \<open><\<close>, \<open><=\<close>, \<open>>\<close> or \<open>>=\<close> holds of a value exactly when the sign of the comparator's result
  on the two values says so; \<open>!=\<close> is not implemented and reaches the end of the function.\<close>

theorem criterion_agrees_with_comparator:
  assumes "is_number h (col_type c) buf" "is_number h (col_type c) (cri_val c)"
  shows "eval h c buf = (if cri_type c = NOT_EQUAL then Inl Undefined_behaviour
     else Inr (holds (cri_type c) (compare h (col_type c) (buf, col_len c) (cri_val c, col_len c))))"
  using typed_rel_compare [OF assms]
  by (cases "cri_type c") (auto simp: eval_def no_return_def or_res_def holds_def)

definition crit_demo :: "criterion_type \<Rightarrow> criterion" where
  "crit_demo t = \<lparr>cri_type = t, cri_val = 100,
     cri_coldef = \<lparr>cd_name = ''x'', cd_type = \<lparr>ct_type = INT_T, ct_length = 4\<rparr>, cd_nullable = False\<rparr>\<rparr>"

theorem criterion_agrees_with_comparator_witness:
  "eval heap_demo (crit_demo LESS_EQUAL) 25 = Inr True"
proof -
  have "compare heap_demo INT_T (25, 4) (100, 4) = -1" by code_simp
  then show ?thesis
    using criterion_agrees_with_comparator [of heap_demo "crit_demo LESS_EQUAL" 25]
    by (simp add: crit_demo_def is_number_def holds_def)
qed

end
