(* ===== verification/Table_Format.thy ===== *)
theory Table_Format
  imports Index_Format
begin

text \<open>
  \<^verbatim>\<open>table/table_format.{h,cc}\<close>: a slotted page.  \<open>base\<close> is the address after the page's header, \<open>offsets\<close> the
  address of the array of 16-bit slot pointers; tuples grow down from the end.  The constructor sets \<open>base\<close> and
  \<open>end\<close> only: the header and the array pointer are what \<open>raw\<close> held.
\<close>

section \<open>The model\<close>

record table_page_hdr =
  t_next_free :: int
  t_count :: int
  free_lower :: int
  free_upper :: int

record table_format = page_mem +
  t_hdr :: table_page_hdr
  t_base :: int
  t_end :: int
  offsets :: int
  t_type :: data_type

type_synonym 'a tf = "(table_format, 'a) eff"

definition sizeof_table_page_hdr :: int where "sizeof_table_page_hdr = 16"
definition INDEX_PAGE_SIZE :: int where "INDEX_PAGE_SIZE = 4096 - 16 - 4"
definition sizeof_slot_ptr :: int where "sizeof_slot_ptr = 2"

definition mk_table_format :: "table_format \<Rightarrow> int \<Rightarrow> table_format" where
  "mk_table_format raw data = (let b = data + sizeof_table_page_hdr in
     raw\<lparr>t_base := b, t_end := b - 4 - sizeof_table_page_hdr + 4096\<rparr>)"

text \<open>\<open>offsets[i]\<close>.\<close>

definition dec16 :: "byte list \<Rightarrow> int" where
  "dec16 bs = uint (bs ! 0) + 256 * uint (bs ! 1)"

definition enc16 :: "int \<Rightarrow> byte list" where
  "enc16 i = [word_of_int i, word_of_int (i div 256)]"

definition slot_at :: "int \<Rightarrow> table_format \<Rightarrow> int res" where
  "slot_at i f = bindR (load (offsets f + sizeof_slot_ptr * i) sizeof_slot_ptr f) (\<lambda>bs. Inr (dec16 bs))"

definition tf_free_space :: "table_format \<Rightarrow> int" where
  "tf_free_space f = free_upper (t_hdr f) - free_lower (t_hdr f)"

text \<open>\<open>get\<close>: the length is a 16-bit number.\<close>

definition tf_get :: "int \<Rightarrow> table_format \<Rightarrow> byte list option res" where
  "tf_get ptr f =
     (if ptr \<ge> t_count (t_hdr f) then Inr None
      else bindR (slot_at ptr f) (\<lambda>off.
        bindR (if ptr = 0 then Inr (INDEX_PAGE_SIZE - off) else bindR (slot_at (ptr - 1) f) (\<lambda>prev. Inr (prev - off))) (\<lambda>len.
        bindR (load (t_base f + off) (len mod 2 ^ 16) f) (\<lambda>bs. Inr (Some bs)))))"

text \<open>\<open>find\<close> counts down from zero.  Every step reads an array element two bytes lower, so the search leaves the page
  after at most half as many steps as the page has bytes: that is the fuel.\<close>

fun tf_find_loop :: "nat \<Rightarrow> int \<Rightarrow> heap \<Rightarrow> key \<times> nat \<Rightarrow> table_format \<Rightarrow> int res" where
  "tf_find_loop 0 i h t f = Inl Diverges"
| "tf_find_loop (Suc n) i h t f =
     (if i < t_count (t_hdr f) then
        bindR (slot_at i f) (\<lambda>off.
        bindR (if i = 0 then Inr (INDEX_PAGE_SIZE - off) else bindR (slot_at (i - 1) f) (\<lambda>prev. Inr (prev - off))) (\<lambda>len.
          let p = word_of_int (t_base f + off) in
          if compare h (t_type f) (p, nat (len mod 2 ^ 64)) t < 0 then Inr i else tf_find_loop n (i - 1) h t f))
      else Inr (-1))"

definition tf_find :: "heap \<Rightarrow> key \<times> nat \<Rightarrow> table_format \<Rightarrow> int res" where
  "tf_find h t f = tf_find_loop (length (pg_mem f) + 1) 0 h t f"

definition upd_thdr :: "(table_page_hdr \<Rightarrow> table_page_hdr) \<Rightarrow> unit tf" where
  "upd_thdr g = modE (\<lambda>f. f\<lparr>t_hdr := g (t_hdr f)\<rparr>)"

definition tf_put :: "heap \<Rightarrow> key \<times> nat \<Rightarrow> int tf" where
  "tf_put h t = bindE (getE (\<lambda>f. f)) (\<lambda>f.
     let n = t_count (t_hdr f); b = t_base f; len = int (snd t); bytes = take (snd t) (h (fst t)) in
     if sizeof_slot_ptr + len > tf_free_space f then retE (-1)
     else bindE (liftE (tf_find h t)) (\<lambda>i.
       seqE (if i = n then
           bindE (liftE (slot_at (n - 1))) (\<lambda>last.
           seqE (store (b + last - len) bytes)
                (store (b + n * sizeof_slot_ptr) (enc_int (last - len))))
         else
           bindE (liftE (slot_at (n - 1))) (\<lambda>last. bindE (liftE (slot_at (i - 1))) (\<lambda>prev.
           seqE (memmove (b + last - len) (b + last) (last - prev)) (
           bindE (liftE (slot_at i)) (\<lambda>off.
           seqE (store (b + off) bytes) (
           seqE (memmove (b + (i + 1) * sizeof_slot_ptr) (b + i * sizeof_slot_ptr) ((n - i) * sizeof_slot_ptr))
                (store (b + i * sizeof_slot_ptr) (enc16 (last - len)))))))))
       (seqE (upd_thdr (\<lambda>d. d\<lparr>t_count := t_count d + 1, free_lower := free_lower d + sizeof_slot_ptr, free_upper := free_upper d - len\<rparr>))
         (retE i))))"

text \<open>\<open>remove\<close>; \<open>ptr - 1 > 0\<close> is \<open>ptr > 1\<close>.\<close>

definition tf_remove :: "int \<Rightarrow> bool tf" where
  "tf_remove ptr = bindE (getE (\<lambda>f. f)) (\<lambda>f.
     let n = t_count (t_hdr f); b = t_base f in
     if ptr \<ge> n then retE False
     else if ptr = n - 1 then
       bindE (liftE (slot_at (n - 2))) (\<lambda>p. bindE (liftE (slot_at (n - 1))) (\<lambda>l.
       seqE (upd_thdr (\<lambda>d. d\<lparr>free_lower := free_lower d - sizeof_slot_ptr, free_upper := free_upper d + (p - l), t_count := t_count d - 1\<rparr>))
            (retE True)))
     else
       bindE (liftE (slot_at ptr)) (\<lambda>off.
       bindE (liftE (\<lambda>f. if ptr - 1 > 0 then bindR (slot_at (ptr - 1) f) (\<lambda>p. Inr (b + p)) else Inr (t_end f))) (\<lambda>dst.
       seqE (memmove dst (b + off) (dst - (b + off))) (
       bindE (liftE (slot_at (ptr + 1))) (\<lambda>next. bindE (liftE (slot_at ptr)) (\<lambda>cur.
       seqE (memmove (b + cur) (b + next) ((n - ptr - 1) * sizeof_slot_ptr)) (
       bindE (liftE (slot_at (ptr - 1))) (\<lambda>p. bindE (liftE (slot_at ptr)) (\<lambda>l.
       seqE (upd_thdr (\<lambda>d. d\<lparr>free_lower := free_lower d - sizeof_slot_ptr, free_upper := free_upper d + (p - l), t_count := t_count d - 1\<rparr>))
            (retE True))))))))))"

section \<open>Reading a well-formed page\<close>

lemma dec16_enc16: "0 \<le> i \<Longrightarrow> i < 2 ^ 16 \<Longrightarrow> dec16 (enc16 i @ rest) = i"
  by (simp add: dec16_def enc16_def uint_word_of_int)

lemma dec16_bounds: "0 \<le> dec16 bs" "dec16 bs < 2 ^ 16"
proof -
  have "uint (bs ! 0) < 2 ^ 8" "uint (bs ! 1) < 2 ^ 8" using uint_bounded [of "bs ! 0"] uint_bounded [of "bs ! 1"] by simp_all
  then show "0 \<le> dec16 bs" "dec16 bs < 2 ^ 16" by (simp_all add: dec16_def)
qed

lemma slot_bounds: "slot_at i f = Inr x \<Longrightarrow> 0 \<le> x \<and> x < 2 ^ 16"
  using dec16_bounds by (fastforce simp: slot_at_def bindR_eq_Inr)

text \<open>A page in which slot \<open>i\<close> starts at \<open>off i\<close>, in the order the comment of the header describes.\<close>

definition slotted :: "(int \<Rightarrow> int) \<Rightarrow> table_format \<Rightarrow> bool" where
  "slotted off f \<longleftrightarrow> (\<forall>i. 0 \<le> i \<and> i < t_count (t_hdr f) \<longrightarrow> slot_at i f = Inr (off i) \<and>
     off i \<le> (if i = 0 then INDEX_PAGE_SIZE else off (i - 1)))"

lemma tf_get_slotted:
  assumes "slotted off f" "0 \<le> i" "i < t_count (t_hdr f)"
  shows "tf_get i f = bindR (load (t_base f + off i) ((if i = 0 then INDEX_PAGE_SIZE else off (i - 1)) - off i) f) (\<lambda>bs. Inr (Some bs))"
proof -
  have s: "slot_at i f = Inr (off i)" "off i \<le> (if i = 0 then INDEX_PAGE_SIZE else off (i - 1))"
    using assms by (auto simp: slotted_def)
  have p: "slot_at (i - 1) f = Inr (off (i - 1))" if "i \<noteq> 0" using assms that by (auto simp: slotted_def)
  have b: "0 \<le> off i" "off (i - 1) < 2 ^ 16" if "i \<noteq> 0"
    using slot_bounds [OF s(1)] slot_bounds [OF p [OF that]] by auto
  have b0: "0 \<le> off i" using slot_bounds [OF s(1)] by simp
  show ?thesis using assms s p b b0 by (auto simp: tf_get_def INDEX_PAGE_SIZE_def)
qed

text \<open>A \<open>put\<close> into an empty page: the search ends at once with \<open>-1\<close>, which is not the slot count, so the code reads
  the array before its start.\<close>

lemma put_empty_page:
  assumes "t_count (t_hdr f) = 0" "sizeof_slot_ptr + int (snd t) \<le> tf_free_space f" "slot_at (-1) f = Inl Undefined_behaviour"
  shows "tf_put h t f = (Inl Undefined_behaviour, f)"
proof -
  have "tf_find h t f = Inr (-1)" using assms(1) by (simp add: tf_find_def)
  then show ?thesis using assms by (simp add: tf_put_def run_simps Let_def seqE_fail bindE_fail)
qed

text \<open>The search either stops at the first tuple or runs down through the memory before the array.\<close>

lemma find_not_positive: "tf_find_loop n i h t f = Inr r \<Longrightarrow> i \<le> 0 \<Longrightarrow> r \<le> 0"
proof (induction n arbitrary: i)
  case (Suc n)
  then show ?case by (auto simp: bindR_eq_Inr Let_def split: if_splits)
qed simp

end
