(* ===== verification/Row.thy ===== *)
theory Row
  imports Schema
begin

text \<open>
  \<^verbatim>\<open>table/record.{h,cc}\<close> and \<^verbatim>\<open>table/row.{h,cc}\<close>: records and the encoding of rows.  A \<open>char*\<close> is the
  memory from the address on, a list of bytes; reading past its end is undefined behaviour.  A \<open>void*\<close> made of a
  value of the column is the value's image.
\<close>

section \<open>Records\<close>

record tbl_record =
  rec_rid :: rid
  rec_size :: int
  rec_data :: "byte list option"

definition mk_record :: tbl_record where
  "mk_record = \<lparr>rec_rid = mk_rid (-1) (-1), rec_size = -1, rec_data = None\<rparr>"

text \<open>\<open>set\<close> allocates only the first time; a negative size converts to a huge \<open>size_t\<close>.\<close>

definition rec_set :: "byte list \<Rightarrow> int \<Rightarrow> rid \<Rightarrow> tbl_record \<Rightarrow> tbl_record res" where
  "rec_set src sz r t =
     (if sz < 0 then Inl Std_exception
      else let n = nat sz; cap = (case rec_data t of None \<Rightarrow> n | Some d \<Rightarrow> length d) in
        if length src < n \<or> cap < n then Inl Undefined_behaviour
        else Inr \<lparr>rec_rid = r, rec_size = sz,
          rec_data = Some (take n src @ (case rec_data t of None \<Rightarrow> [] | Some d \<Rightarrow> drop n d))\<rparr>)"

section \<open>Rows\<close>

definition type_code :: "data_type \<Rightarrow> int" where
  "type_code t = (case t of UNKNOWN \<Rightarrow> 0 | INT_T \<Rightarrow> 1 | LONG \<Rightarrow> 2 | FLOAT \<Rightarrow> 3 | DOUBLE \<Rightarrow> 4 | CHAR_T \<Rightarrow> 5 | VARCHAR \<Rightarrow> 6)"

definition c_str :: "byte list \<Rightarrow> byte list res" where
  "c_str bs = (if 0 \<in> set bs then Inr (takeWhile (\<lambda>b. b \<noteq> 0) bs) else Inl Undefined_behaviour)"

definition mem_read :: "nat \<Rightarrow> byte list \<Rightarrow> byte list res" where
  "mem_read n bs = (if n \<le> length bs then Inr (take n bs) else Inl Undefined_behaviour)"

text \<open>The tag byte is \<open>id >> 3 | type\<close>; \<open>row.h\<close> describes \<open>id << 3 | type\<close>.\<close>

definition tag_byte :: "int \<Rightarrow> int \<Rightarrow> byte" where
  "tag_byte type i = word_of_int ((drop_bit 3 i) OR type)"

definition encode_column :: "byte list \<Rightarrow> int \<Rightarrow> int \<Rightarrow> byte list res" where
  "encode_column data type i = bindR
     (if type = 1 \<or> type = 3 then mem_read 4 data
      else if type = 2 \<or> type = 4 then mem_read 8 data
      else if type = 5 then mem_read 1 data
      else if type = 6 then bindR (c_str data) (\<lambda>s. Inr (enc_int (int (length s)) @ s))
      else Inr [])
     (\<lambda>body. Inr (tag_byte type i # body))"

text \<open>\<open>strcat(ret, cs)\<close> with \<open>ret\<close> as a C string: both stop at their first zero byte.  \<open>ret\<close> starts uninitialised
  (\<open>None\<close>), so the first \<open>strcat\<close> reads an indeterminate pointer, as does returning it.\<close>

fun encode_loop :: "byte list option list \<Rightarrow> column_definition list \<Rightarrow> int \<Rightarrow> byte list option \<Rightarrow> byte list res" where
  "encode_loop [] cs i ret = (case ret of None \<Rightarrow> Inl Undefined_behaviour | Some r \<Rightarrow> Inr r)"
| "encode_loop (None # vs) cs i ret = encode_loop vs cs (i + 1) ret"
| "encode_loop (Some v # vs) cs i ret =
     (if nat i < length cs then
        bindR (encode_column v (type_code (ct_type (cd_type (cs ! nat i)))) i) (\<lambda>c.
        case ret of None \<Rightarrow> Inl Undefined_behaviour
        | Some r \<Rightarrow> bindR (c_str c) (\<lambda>c'. encode_loop vs cs (i + 1) (Some (r @ c'))))
      else Inl Undefined_behaviour)"

definition encode :: "byte list option list \<Rightarrow> schema \<Rightarrow> byte list res" where
  "encode vals s = encode_loop vals (col_defs s) 0 None"

text \<open>\<open>decode_column\<close>: the type is \<open>b | 0x07\<close>; a type that no case handles falls off the end of the function.\<close>

definition decode_column :: "byte list \<Rightarrow> (int \<times> byte list) res" where
  "decode_column ptr = (case ptr of [] \<Rightarrow> Inl Undefined_behaviour
     | b # rest \<Rightarrow>
        let column_id = drop_bit 3 (sint b); type = (sint b) OR 0x07 in
        if type = 1 \<or> type = 3 then bindR (mem_read 4 rest) (\<lambda>v. Inr (column_id, v))
        else if type = 2 \<or> type = 4 then bindR (mem_read 8 rest) (\<lambda>v. Inr (column_id, v))
        else if type = 5 then bindR (mem_read 1 rest) (\<lambda>v. Inr (column_id, v))
        else if type = 6 then bindR (mem_read 4 rest) (\<lambda>l.
          let len = dec_int l in
          if len < 0 then Inl Undefined_behaviour else bindR (mem_read (nat len) (drop 4 rest)) (\<lambda>v. Inr (column_id, v)))
        else Inl Undefined_behaviour)"

text \<open>\<open>decode\<close> never moves \<open>ptr\<close>; \<open>vs\<close> is reserved but empty, so every \<open>vs[i]\<close> is out of range.\<close>

definition decode :: "byte list \<Rightarrow> schema \<Rightarrow> byte list list res" where
  "decode ptr s = (case ptr of [] \<Rightarrow> Inl Undefined_behaviour
     | b # _ \<Rightarrow> if b = 0 then Inr [] else bindR (decode_column ptr) (\<lambda>_. Inl Undefined_behaviour))"

section \<open>What is lost\<close>

lemma or7_not_small: "(x OR 7 :: int) \<notin> {1, 2, 3, 4, 5, 6}"
proof -
  have "(x OR 7) AND 7 = 7" by (simp add: bit_eq_iff bit_simps) blast
  moreover have "(k AND 7 :: int) \<noteq> 7" if "k \<in> {1, 2, 3, 4, 5, 6}" for k using that by auto
  ultimately show ?thesis by blast
qed

lemma decode_column_undefined: "decode_column ptr = Inl Undefined_behaviour"
  using or7_not_small by (auto simp: decode_column_def Let_def split: list.split)

lemma encode_undefined:
  "\<exists>e. encode_loop vals cs i None = Inl e"
proof (induction vals arbitrary: i)
  case (Cons v vs)
  then show ?case by (cases v) (auto simp: bindR_def split: sum.split)
qed simp

lemma small_id_lost: "0 \<le> i \<Longrightarrow> i < 8 \<Longrightarrow> tag_byte type i = word_of_int type"
proof -
  assume "0 \<le> i" "i < 8"
  then have "drop_bit 3 i = 0" by (simp add: drop_bit_eq_div)
  then show ?thesis by (simp add: tag_byte_def)
qed

section \<open>The properties\<close>

text \<open>Rows cannot be stored or read back.  Encoding never succeeds, for any values and schema; decoding a row that
  has a column is undefined behaviour, because no type code is recognised; and the tag of an encoded column is the
  same for the first eight columns.\<close>

theorem rows_not_storable:
  "(\<exists>e. encode vals s = Inl e) \<and> (b \<noteq> 0 \<longrightarrow> decode (b # rest) s = Inl Undefined_behaviour) \<and>
   (0 \<le> i \<and> i < 8 \<longrightarrow> encode_column data type i = encode_column data type 0)"
  using encode_undefined [of vals "col_defs s" 0] small_id_lost [of i type] small_id_lost [of 0 type]
  by (auto simp: encode_def decode_def decode_column_undefined encode_column_def)

theorem rows_not_storable_witness:
  "decode [9, 1, 0, 0, 0, 0] mk_schema = Inl Undefined_behaviour \<and> encode_column [1, 0, 0, 0] 1 5 = encode_column [1, 0, 0, 0] 1 0"
  using rows_not_storable [of "[]" mk_schema 9 "[1, 0, 0, 0, 0]" 5 "[1, 0, 0, 0]" 1] by simp

end
