(* ===== verification/Table_Manager.thy ===== *)
theory Table_Manager
  imports IO_Manager Table_Format Row
begin

text \<open>
  \<^verbatim>\<open>table/table_manager.{h,cc}\<close> and \<^verbatim>\<open>table/table_handle.{h,cc}\<close>: tables stored in paged files.  Page 0 of a
  table's file holds the table header and the schema.  A page's data start four bytes into its slot of the buffer
  pool; \<open>slot_addr\<close> gives the address of a slot.  Uninitialised members and local variables come from arguments
  named \<open>raw\<close>.  A table handle refers to the file handle it was made with; the model keeps that handle's value.
\<close>

section \<open>Schemas on disk\<close>

record table_header =
  th_first_free :: int
  th_first_page :: int
  th_num_pages :: int

definition enc_table_header :: "table_header \<Rightarrow> byte list" where
  "enc_table_header h = enc_int (th_first_free h) @ enc_int (th_first_page h) @ enc_int (th_num_pages h)"

definition dec_table_header :: "byte list \<Rightarrow> table_header" where
  "dec_table_header bs = \<lparr>th_first_free = dec_int bs, th_first_page = dec_int (drop 4 bs), th_num_pages = dec_int (drop 8 bs)\<rparr>"

lemma length_enc_table_header [simp]: "length (enc_table_header h) = 12"
  by (simp add: enc_table_header_def)

text \<open>\<open>memcpy(dst + offset, bs)\<close> into the rest of the page.\<close>

definition blit :: "int \<Rightarrow> byte list \<Rightarrow> byte list \<Rightarrow> byte list res" where
  "blit off bs mem = (if 0 \<le> off \<and> off + int (length bs) \<le> int (length mem)
     then Inr (take (nat off) mem @ bs @ drop (nat off + length bs) mem) else Inl Undefined_behaviour)"

definition enc64 :: "64 word \<Rightarrow> byte list" where
  "enc64 w = enc32 (ucast w) @ enc32 (ucast (drop_bit 32 w))"

definition name_bytes :: "string \<Rightarrow> byte list" where
  "name_bytes n = map of_char (takeWhile (\<lambda>c. c \<noteq> CHR 0x00) n)"

definition enc_column :: "column_definition \<Rightarrow> byte list" where
  "enc_column d = enc_int (int (length (name_bytes (cd_name d)))) @ name_bytes (cd_name d) @
     enc_int (type_code (ct_type (cd_type d))) @ enc64 (ct_length (cd_type d)) @ [if cd_nullable d then 1 else 0]"

text \<open>The five copies of a column are adjacent, so they are one copy here.  The offset of the first column is zero, where
  the number of columns has just been written.\<close>

fun write_columns :: "column_definition list \<Rightarrow> int \<Rightarrow> byte list \<Rightarrow> byte list res" where
  "write_columns [] off mem = Inr mem"
| "write_columns (d # ds) off mem =
     bindR (blit off (enc_column d) mem) (\<lambda>mem'. write_columns ds (off + int (length (enc_column d))) mem')"

definition write_schema :: "schema \<Rightarrow> byte list \<Rightarrow> byte list res" where
  "write_schema s dst = bindR (blit 0 (enc_int (int (length (col_defs s)))) dst) (\<lambda>mem. write_columns (col_defs s) 0 mem)"

definition slice :: "int \<Rightarrow> int \<Rightarrow> byte list \<Rightarrow> byte list res" where
  "slice off n mem = (if 0 \<le> off \<and> 0 \<le> n \<and> off + n \<le> int (length mem) then Inr (take (nat n) (drop (nat off) mem))
     else Inl Undefined_behaviour)"

definition type_of_code :: "int \<Rightarrow> data_type" where
  "type_of_code c = (if c = 1 then INT_T else if c = 2 then LONG else if c = 3 then FLOAT else if c = 4 then DOUBLE
     else if c = 5 then CHAR_T else if c = 6 then VARCHAR else UNKNOWN)"

text \<open>\<open>new char[len]\<close> of a negative length throws.  The name is used as a C string, but no terminating zero was stored
  or added.\<close>

fun read_columns :: "nat \<Rightarrow> int \<Rightarrow> int \<Rightarrow> byte list \<Rightarrow> schema \<Rightarrow> schema res" where
  "read_columns 0 i off mem s = Inr s"
| "read_columns (Suc n) i off mem s =
     bindR (slice off 4 mem) (\<lambda>l. let len = dec_int l in
     if len < 0 then Inl Std_exception else
     bindR (slice (off + 4) len mem) (\<lambda>nm.
     bindR (slice (off + 4 + len) 4 mem) (\<lambda>ty.
     bindR (slice (off + 8 + len) 8 mem) (\<lambda>ln.
     bindR (slice (off + 16 + len) 1 mem) (\<lambda>nb.
     bindR (c_str nm) (\<lambda>str.
     let name = map (\<lambda>b. char_of (uint b)) str;
         d = \<lparr>cd_name = name, cd_type = \<lparr>ct_type = type_of_code (dec_int ty), ct_length = dec64 ln\<rparr>, cd_nullable = hd nb \<noteq> 0\<rparr> in
     read_columns n (i + 1) (off + 17 + len) mem
       (s\<lparr>col_defs := col_defs s @ [d], col_name_to_id := (col_name_to_id s)(name \<mapsto> i)\<rparr>)))))))"

definition read_schema :: "byte list \<Rightarrow> schema \<Rightarrow> schema res" where
  "read_schema src s = bindR (slice 0 4 src) (\<lambda>n. read_columns (nat (dec_int n)) 0 4 src s)"

section \<open>Tables\<close>

record table_handle =
  th_schema :: schema
  th_header :: table_header
  th_file :: file_handle

definition create_table_page :: "table_header \<Rightarrow> schema \<Rightarrow> unit fh" where
  "create_table_page raw s =
     bindE fh_allocate_page (\<lambda>ph.
     seqE (liftB (store_bytes (ph_slot ph) 4 (enc_table_header (raw\<lparr>th_first_free := -1, th_num_pages := 1\<rparr>)))) (
     bindE (page_bytes ph) (\<lambda>bs.
     bindE (liftE (\<lambda>_. write_schema s (drop 12 bs))) (\<lambda>mem.
     seqE (liftB (store_bytes (ph_slot ph) 16 mem)) (
     seqE (fh_mark_dirty (ph_page ph)) (
     seqE (fh_unpin_page (ph_page ph)) close_file))))))"

definition create_table :: "table_header \<Rightarrow> string \<Rightarrow> schema \<Rightarrow> unit bm" where
  "create_table raw filename s =
     seqE (create_file filename) (
     bindE (open_file filename) (\<lambda>h.
     bindE (with_handle h (create_table_page raw s)) (\<lambda>_. retE ())))"

definition open_table :: "string \<Rightarrow> table_handle bm" where
  "open_table filename =
     bindE (open_file filename) (\<lambda>h.
     bindE (with_handle h (
       bindE (get_this_page 0) (\<lambda>ph.
       bindE (page_bytes ph) (\<lambda>bs.
       bindE (liftE (\<lambda>_. read_schema (drop 12 bs) mk_schema)) (\<lambda>s.
       seqE (fh_unpin_page 0) (retE (dec_table_header bs, s))))))) (\<lambda>((hd, s), h').
     retE \<lparr>th_schema = s, th_header = hd, th_file = h'\<rparr>))"

text \<open>\<open>close_table\<close> works on a copy of the file handle and forces all pages; the file stays open.\<close>

definition close_table :: "table_handle \<Rightarrow> unit bm" where
  "close_table t = bindE (with_handle (th_file t) (
     bindE (get_this_page 0) (\<lambda>ph.
     seqE (liftB (store_bytes (ph_slot ph) 4 (enc_table_header (th_header t)))) (
     seqE (fh_mark_dirty 0) (
     seqE (fh_unpin_page 0) (fh_force_page ALL_PAGES)))))) (\<lambda>_. retE ())"

definition destroy_table :: "string \<Rightarrow> unit bm" where
  "destroy_table filename = destroy_file filename"

section \<open>Records\<close>

text \<open>Run a slotted-page operation on the bytes of a page.\<close>

definition on_format :: "(int \<Rightarrow> int) \<Rightarrow> table_format \<Rightarrow> page_handle \<Rightarrow> 'a tf \<Rightarrow> 'a fh" where
  "on_format slot_addr raw ph m =
     bindE (liftB (entry_at (ph_slot ph))) (\<lambda>e.
     let f = mk_table_format (raw\<lparr>pg_addr := slot_addr (ph_slot ph), pg_mem := be_data e\<rparr>) (slot_addr (ph_slot ph) + 4) in
     case m f of
       (Inr x, f') \<Rightarrow> seqE (liftB (store_bytes (ph_slot ph) 0 (pg_mem f'))) (retE x)
     | (Inl x, f') \<Rightarrow> seqE (liftB (store_bytes (ph_slot ph) 0 (pg_mem f'))) (throwE x))"

text \<open>The pair \<open>tuple\<close> starts as a null pointer with length zero.  \<open>get\<close> copies the bytes of the slot to that null
  pointer, which only a copy of no bytes survives; when \<open>get\<close> refuses the slot, its result is ignored and the record
  is set from the empty tuple.\<close>

definition get_record :: "(int \<Rightarrow> int) \<Rightarrow> table_format \<Rightarrow> rid \<Rightarrow> tbl_record fh" where
  "get_record slot_addr raw r =
     bindE (get_this_page (rid_page r)) (\<lambda>ph.
     bindE (on_format slot_addr raw ph (liftE (tf_get (rid_slot r mod 2 ^ 16)))) (\<lambda>t.
     seqE (guardE (t = None \<or> t = Some []) Undefined_behaviour) (
     bindE (liftE (\<lambda>_. rec_set [] 0 r mk_record)) (\<lambda>x.
     seqE (fh_unpin_page (ph_page ph)) (retE x)))))"

text \<open>The pages looked at are not unpinned.\<close>

fun free_loop :: "nat \<Rightarrow> (int \<Rightarrow> int) \<Rightarrow> table_format \<Rightarrow> int \<Rightarrow> int \<Rightarrow> int option fh" where
  "free_loop 0 slot_addr raw need e = retE None"
| "free_loop (Suc n) slot_addr raw need e =
     (if e > 0 then
        bindE (get_this_page e) (\<lambda>ph.
        bindE (on_format slot_addr raw ph (getE t_hdr)) (\<lambda>hd.
        if free_upper hd - free_lower hd > need then retE (Some e)
        else free_loop n slot_addr raw need (t_next_free hd)))
      else retE None)"

definition get_next_free :: "(int \<Rightarrow> int) \<Rightarrow> table_format \<Rightarrow> table_handle \<Rightarrow> int \<Rightarrow> int fh" where
  "get_next_free slot_addr raw t need =
     bindE (free_loop 3 slot_addr raw need (th_first_free (th_header t))) (\<lambda>r. case r of
        Some e \<Rightarrow> retE e
      | None \<Rightarrow> bindE fh_allocate_page (\<lambda>ph. retE (ph_page ph)))"

definition insert_record :: "(int \<Rightarrow> int) \<Rightarrow> table_format \<Rightarrow> heap \<Rightarrow> table_handle \<Rightarrow> key \<Rightarrow> nat \<Rightarrow> rid fh" where
  "insert_record slot_addr raw hp t data len =
     bindE (get_next_free slot_addr raw t (int len)) (\<lambda>nextfree.
     bindE (get_this_page nextfree) (\<lambda>ph.
     bindE (on_format slot_addr raw ph (tf_put hp (data, len))) (\<lambda>slot.
     seqE (fh_unpin_page (ph_page ph)) (retE (mk_rid (ph_page ph) slot)))))"

definition delete_record :: "(int \<Rightarrow> int) \<Rightarrow> table_format \<Rightarrow> rid \<Rightarrow> bool fh" where
  "delete_record slot_addr raw r =
     bindE (get_this_page (rid_page r)) (\<lambda>ph.
     bindE (on_format slot_addr raw ph (tf_remove (rid_slot r mod 2 ^ 16))) (\<lambda>ret.
     seqE (fh_unpin_page (ph_page ph)) (retE ret)))"

text \<open>The success path of \<open>update_record\<close> has no \<open>return\<close>.\<close>

definition update_record :: "(int \<Rightarrow> int) \<Rightarrow> table_format \<Rightarrow> heap \<Rightarrow> table_handle \<Rightarrow> rid \<Rightarrow> key \<Rightarrow> nat \<Rightarrow> bool fh" where
  "update_record slot_addr raw hp t r data len =
     bindE (delete_record slot_addr raw r) (\<lambda>ok.
     if \<not> ok then retE False
     else seqE (insert_record slot_addr raw hp t data len) (throwE Undefined_behaviour))"

section \<open>The properties\<close>

lemma blit_prefix: "blit off bs mem = Inr mem' \<Longrightarrow> k \<le> nat off \<Longrightarrow> take k mem' = take k mem"
  by (auto simp: blit_def min_def split: if_splits)

lemma blit_zero: "blit 0 bs mem = Inr mem' \<Longrightarrow> take (length bs) mem' = bs"
  by (auto simp: blit_def split: if_splits)

lemma write_columns_prefix: "write_columns ds off mem = Inr mem' \<Longrightarrow> int k \<le> off \<Longrightarrow> take k mem' = take k mem"
proof (induction ds arbitrary: off mem)
  case (Cons d ds)
  then obtain m1 where 1: "blit off (enc_column d) mem = Inr m1" "write_columns ds (off + int (length (enc_column d))) m1 = Inr mem'"
    by (auto simp: bindR_eq_Inr)
  then show ?case using Cons.IH [OF 1(2)] blit_prefix [OF 1(1), of k] Cons.prems(2) by simp
qed simp

text \<open>The schema of a table is not stored.  \<open>write_schema\<close> writes the first column over the number of columns, so
  what is stored as the number of columns is the length of the first column's name.\<close>

theorem column_count_overwritten:
  assumes "write_schema s dst = Inr mem" "col_defs s = d # ds"
  shows "take 4 mem = enc_int (int (length (name_bytes (cd_name d))))"
proof -
  obtain m0 m1 where 1: "blit 0 (enc_column d) m0 = Inr m1" "write_columns ds (int (length (enc_column d))) m1 = Inr mem"
    using assms by (auto simp: write_schema_def bindR_eq_Inr)
  have len: "4 \<le> length (enc_column d)" by (simp add: enc_column_def)
  have "take 4 mem = take 4 m1" using write_columns_prefix [OF 1(2), of 4] len by simp
  also have "\<dots> = take 4 (take (length (enc_column d)) m1)" using len by (simp add: min_def)
  also have "\<dots> = take 4 (enc_column d)" using blit_zero [OF 1(1)] by simp
  finally show ?thesis by (simp add: enc_column_def)
qed

definition schema_demo :: schema where
  "schema_demo = add_column ''id'' \<lparr>ct_type = INT_T, ct_length = 4\<rparr> False mk_schema"

theorem column_count_overwritten_witness:
  "\<exists>mem. write_schema schema_demo (replicate 40 0) = Inr mem \<and> take 4 mem = enc_int 2"
proof -
  have c: "col_defs schema_demo = [\<lparr>cd_name = ''id'', cd_type = \<lparr>ct_type = INT_T, ct_length = 4\<rparr>, cd_nullable = False\<rparr>]"
    by (simp add: schema_demo_def add_column_def mk_schema_def)
  obtain mem where m: "write_schema schema_demo (replicate 40 0) = Inr mem"
    by (auto simp: write_schema_def c blit_def enc_column_def name_bytes_def enc64_def)
  from column_count_overwritten [OF m c] m show ?thesis by (simp add: name_bytes_def)
qed

text \<open>No call of \<open>get_record\<close> returns the bytes of a record.\<close>

lemma get_record_returns_empty:
  "get_record slot_addr raw r st = (Inr x, st') \<Longrightarrow> x = \<lparr>rec_rid = r, rec_size = 0, rec_data = Some []\<rparr>"
  by (auto simp: get_record_def bindE_Inr seqE_Inr liftE_def retE_def rec_set_def mk_record_def)

end
