(* ===== verification/Scan_Iterator.thy ===== *)
theory Scan_Iterator
  imports Criterion B_Plus_Tree Table_Manager
begin

text \<open>
  \<^verbatim>\<open>index/b+tree/index_iterator.{h,cc}\<close> and \<^verbatim>\<open>table/table_iterator.{h,cc}\<close>: scans of an index and of a table.  A
  pointer member that a constructor does not set is \<open>Garbage\<close>; using it is undefined behaviour.  \<open>has_next\<close> is
  declared in both classes and defined in neither.
\<close>

section \<open>Index scans\<close>

datatype pointer = Garbage | Null | Obj nat

record index_iterator =
  it_tree :: btree
  it_desc :: bool
  next_is_null :: bool
  found_one :: bool
  it_start :: pointer
  it_last :: pointer
  it_current :: pointer
  it_cri :: criterion
  it_now :: rid

type_synonym 'a scan = "(index_iterator, 'a) eff"

definition on_tree :: "'a bt \<Rightarrow> 'a scan" where
  "on_tree m s = (case m (it_tree s) of (r, t) \<Rightarrow> (r, s\<lparr>it_tree := t\<rparr>))"

definition use_ptr :: "pointer \<Rightarrow> nat scan" where
  "use_ptr p = (case p of Obj a \<Rightarrow> retE a | _ \<Rightarrow> throwE Undefined_behaviour)"

definition ptr_of :: "nat option \<Rightarrow> pointer" where
  "ptr_of p = (case p of None \<Rightarrow> Null | Some a \<Rightarrow> Obj a)"

definition ptr_page :: "pointer \<Rightarrow> int scan" where
  "ptr_page p = bindE (use_ptr p) (\<lambda>a. bindE (on_tree (node_at a)) (\<lambda>n. retE (rid_page (page_id n))))"

definition is_greater :: "criterion \<Rightarrow> bool" where
  "is_greater c \<longleftrightarrow> cri_type c = GREATER_EQUAL \<or> cri_type c = GREATER_THAN"

definition is_less :: "criterion \<Rightarrow> bool" where
  "is_less c \<longleftrightarrow> cri_type c = LESS_EQUAL \<or> cri_type c = LESS_THAN"

text \<open>The ends of the scan, as two node pointers.  An equality criterion sets only the end, to null.  The descending scan
  of a \<open><\<close> criterion starts at the smallest leaf, as the ascending one does.\<close>

definition scan_ends :: "gtp \<Rightarrow> bnode \<Rightarrow> unit scan" where
  "scan_ends gtp raw = bindE (getE (\<lambda>s. s)) (\<lambda>s. let c = it_cri s; leaf = find_leaf_node gtp raw (cri_val c) in
     if is_greater c then
       (if it_desc s then
          bindE (on_tree (find_largest_leaf_node gtp raw)) (\<lambda>a. seqE (modE (\<lambda>s. s\<lparr>it_start := ptr_of a\<rparr>)) (
          bindE (on_tree leaf) (\<lambda>b. modE (\<lambda>s. s\<lparr>it_last := ptr_of b\<rparr>))))
        else
          bindE (on_tree leaf) (\<lambda>a. seqE (modE (\<lambda>s. s\<lparr>it_start := ptr_of a\<rparr>)) (
          bindE (on_tree (find_largest_leaf_node gtp raw)) (\<lambda>b. modE (\<lambda>s. s\<lparr>it_last := ptr_of b\<rparr>)))))
     else if is_less c then
       bindE (on_tree (find_smallest_leaf_node gtp raw)) (\<lambda>a. seqE (modE (\<lambda>s. s\<lparr>it_start := ptr_of a\<rparr>)) (
       bindE (on_tree leaf) (\<lambda>b. modE (\<lambda>s. s\<lparr>it_last := ptr_of b\<rparr>))))
     else if cri_type c = EQUAL then modE (\<lambda>s. s\<lparr>it_last := Null\<rparr>)
     else retE ())"

definition blank_iterator :: "bnode \<Rightarrow> btree \<Rightarrow> criterion \<Rightarrow> bool \<Rightarrow> index_iterator" where
  "blank_iterator raw t cri desc = \<lparr>it_tree = mk_b_plus_tree raw t, it_desc = desc, next_is_null = True, found_one = False,
     it_start = Garbage, it_last = Garbage, it_current = Garbage, it_cri = cri, it_now = mk_rid (-1) (-1)\<rparr>"

text \<open>The position before the first entry to look at.\<close>

definition scan_start :: "bool \<Rightarrow> unit scan" where
  "scan_start desc =
     bindE (getE (\<lambda>s. it_start s)) (\<lambda>p.
     bindE (ptr_page p) (\<lambda>page.
     bindE (if desc then bindE (use_ptr p) (\<lambda>a. bindE (on_tree (node_size a)) (\<lambda>c. retE (c - 2))) else retE 0) (\<lambda>slot.
     modE (\<lambda>s. s\<lparr>it_now := mk_rid page slot\<rparr>))))"

definition mk_index_iterator :: "gtp \<Rightarrow> bnode \<Rightarrow> btree \<Rightarrow> criterion \<Rightarrow> bool \<Rightarrow> unit res \<times> index_iterator" where
  "mk_index_iterator gtp raw t cri desc = seqE (scan_ends gtp raw) (scan_start desc) (blank_iterator raw t cri desc)"

definition it_destroy :: "unit scan" where
  "it_destroy = bindE (getE (\<lambda>s. root (it_tree s))) (\<lambda>r. case r of None \<Rightarrow> retE () | Some a \<Rightarrow> on_tree (delete_obj a))"

definition it_begin :: "index_iterator \<Rightarrow> rid" where
  "it_begin s = it_now s"

definition it_end :: "index_iterator \<Rightarrow> rid" where
  "it_end s = mk_rid (-1) (-1)"

definition it_reset :: "unit scan" where
  "it_reset = modE (\<lambda>s. s\<lparr>it_now := mk_rid (-1) (-1)\<rparr>)"

definition it_fit :: "heap \<Rightarrow> rid \<Rightarrow> criterion \<Rightarrow> bool scan" where
  "it_fit h r c = bindE (getE it_current) (\<lambda>p. bindE (use_ptr p) (\<lambda>a.
     bindE (on_tree (node_key_at a (rid_slot r))) (\<lambda>k. liftE (\<lambda>_. eval h c k))))"

text \<open>The last statement of \<open>can_stop_now\<close> is a test, so it has no result when every test fails.\<close>

definition can_stop_now :: "heap \<Rightarrow> key \<Rightarrow> index_iterator \<Rightarrow> bool res" where
  "can_stop_now h now s = (let c = it_cri s; cmp = compare h (col_type c) (now, col_len c) (cri_val c, col_len c) in
     if cri_type c = NOT_EQUAL then Inr False
     else if cri_type c = EQUAL \<and> cmp \<noteq> 0 then Inr True
     else if cri_type c = GREATER_EQUAL \<and> cmp < 0 \<and> it_desc s then Inr True
     else if cri_type c = GREATER_THAN \<and> cmp \<le> 0 \<and> it_desc s then Inr True
     else if cri_type c = LESS_EQUAL \<and> cmp > 0 \<and> \<not> it_desc s then Inr True
     else if cri_type c = LESS_THAN \<and> cmp \<ge> 0 \<and> \<not> it_desc s then Inr True
     else Inl Undefined_behaviour)"

text \<open>The loop over the entries of a leaf.  Both sides of \<open>j < size() - 1\<close> are converted to \<open>size_t\<close>.  The fuel counts
  array elements of eight bytes, so the length of the page is more than the loop can read.\<close>

fun scan_leaf :: "nat \<Rightarrow> heap \<Rightarrow> nat \<Rightarrow> int \<Rightarrow> rid option scan" where
  "scan_leaf 0 h a j = throwE Diverges"
| "scan_leaf (Suc n) h a j =
     bindE (on_tree (node_size a)) (\<lambda>c.
     if j mod 2 ^ 64 < (c - 1) mod 2 ^ 64 then
       seqE (modE (\<lambda>s. s\<lparr>it_now := mk_rid (rid_page (it_now s)) (to_int32 j)\<rparr>)) (
       bindE (on_tree (node_key_at a j)) (\<lambda>k.
       bindE (liftE (\<lambda>s. eval h (it_cri s) k)) (\<lambda>ok.
       if ok then
         seqE (modE (\<lambda>s. s\<lparr>found_one := True\<rparr>)) (
         bindE (on_tree (node_at a)) (\<lambda>x. retE (Some (mk_rid (rid_page (page_id x)) (to_int32 j)))))
       else
         bindE (getE found_one) (\<lambda>fd.
         bindE (if fd then liftE (can_stop_now h k) else retE False) (\<lambda>stop.
         if stop then retE (Some (mk_rid (-2) (-2))) else scan_leaf n h a (j + 1))))))
     else retE None)"

text \<open>One round of the outer loop; \<open>None\<close> means that the scan goes on in the next leaf.\<close>

definition scan_round :: "gtp \<Rightarrow> heap \<Rightarrow> bnode \<Rightarrow> rid option scan" where
  "scan_round gtp h raw =
     bindE (getE it_current) (\<lambda>cp. bindE (getE it_last) (\<lambda>ep.
     bindE (ptr_page cp) (\<lambda>pc. bindE (ptr_page ep) (\<lambda>pe.
     seqE (whenE (pc = pe) (modE (\<lambda>s. s\<lparr>next_is_null := True\<rparr>))) (
     bindE (use_ptr cp) (\<lambda>a.
     seqE (on_tree (pin_node gtp a)) (
     bindE (on_tree (node_at a)) (\<lambda>x. bindE (getE (\<lambda>s. rid_slot (it_now s))) (\<lambda>j.
     bindE (scan_leaf (length (pg_mem (fmt x)) + 2) h a j) (\<lambda>r. case r of
       Some y \<Rightarrow> retE (Some y)
     | None \<Rightarrow>
         bindE (on_tree (node_size a)) (\<lambda>c.
         bindE (on_tree (on_fmt a (liftE (rid_at (c - 1))))) (\<lambda>next.
         seqE (modE (\<lambda>s. s\<lparr>it_now := next\<rparr>)) (
         seqE (on_tree (unpin_node a)) (
         seqE (on_tree (delete_obj a)) (
         bindE (on_tree (new_obj (mk_leaf_node raw None next))) (\<lambda>b.
         seqE (modE (\<lambda>s. s\<lparr>it_current := Obj b\<rparr>)) (retE None)))))))))))))))))"

partial_function (option) scan_rounds :: "gtp \<Rightarrow> heap \<Rightarrow> bnode \<Rightarrow> index_iterator \<Rightarrow> (rid res \<times> index_iterator) option" where
  "scan_rounds gtp h raw s =
     (if next_is_null s then Some (Inr (mk_rid (-1) (-1)), s)
      else case scan_round gtp h raw s of
        (Inl e, s') \<Rightarrow> Some (Inl e, s')
      | (Inr (Some r), s') \<Rightarrow> Some (Inr r, s')
      | (Inr None, s') \<Rightarrow> scan_rounds gtp h raw s')"

definition it_next :: "gtp \<Rightarrow> heap \<Rightarrow> bnode \<Rightarrow> index_iterator \<Rightarrow> (rid res \<times> index_iterator) option" where
  "it_next gtp h raw s = scan_rounds gtp h raw (s\<lparr>it_current := it_start s\<rparr>)"

section \<open>Table scans\<close>

record table_iterator =
  ti_handle :: table_handle
  ti_criterions :: "criterion list"
  ti_now :: rid

definition mk_table_iterator :: "table_handle \<Rightarrow> criterion list \<Rightarrow> table_iterator" where
  "mk_table_iterator t cs = \<lparr>ti_handle = t, ti_criterions = cs, ti_now = mk_rid (th_first_page (th_header t)) 0\<rparr>"

definition ti_begin :: "table_iterator \<Rightarrow> rid \<times> table_iterator" where
  "ti_begin s = (mk_rid (-1) (-1), s\<lparr>ti_now := mk_rid (-1) (-1)\<rparr>)"

definition ti_end :: "table_iterator \<Rightarrow> rid" where
  "ti_end s = mk_rid (-1) (-1)"

definition ti_reset :: "table_iterator \<Rightarrow> table_iterator" where
  "ti_reset s = s\<lparr>ti_now := mk_rid (-1) (-1)\<rparr>"

text \<open>The position of a criterion's column: \<open>coldef_eq\<close> is the comparison of column definitions, which is declared
  and defined nowhere.  A column that is not in the schema leaves the position indeterminate.  A decoded value is an image;
  its address is \<open>val_addr\<close>.\<close>

fun position :: "(column_definition \<Rightarrow> column_definition \<Rightarrow> bool) \<Rightarrow> column_definition list \<Rightarrow> column_definition \<Rightarrow> nat option" where
  "position ceq [] c = None"
| "position ceq (d # ds) c = (if ceq d c then Some 0 else map_option Suc (position ceq ds c))"

fun fit_all :: "(column_definition \<Rightarrow> column_definition \<Rightarrow> bool) \<Rightarrow> heap \<Rightarrow> (byte list \<Rightarrow> key) \<Rightarrow> schema \<Rightarrow> byte list list \<Rightarrow>
    criterion list \<Rightarrow> bool \<Rightarrow> bool res" where
  "fit_all ceq h val_addr s vct [] r = Inr r"
| "fit_all ceq h val_addr s vct (c # cs) r = (case position ceq (col_defs s) (cri_coldef c) of
      None \<Rightarrow> Inl Undefined_behaviour
    | Some p \<Rightarrow> if p < length vct
        then bindR (eval h c (val_addr (vct ! p))) (\<lambda>b. fit_all ceq h val_addr s vct cs (r \<and> b))
        else Inl Undefined_behaviour)"

text \<open>The memory at a null pointer is the empty list.\<close>

definition ti_fit :: "(column_definition \<Rightarrow> column_definition \<Rightarrow> bool) \<Rightarrow> heap \<Rightarrow> (byte list \<Rightarrow> key) \<Rightarrow> schema \<Rightarrow> byte list \<Rightarrow>
    criterion list \<Rightarrow> bool res" where
  "ti_fit ceq h val_addr s data cs = bindR (decode data s) (\<lambda>vct. fit_all ceq h val_addr s vct cs True)"

text \<open>\<open>while (!fit(t, ..)) now_ = ...\<close>: the tuple is read once, before the loop.\<close>

partial_function (option) fit_loop :: "bool res \<Rightarrow> int \<Rightarrow> int \<Rightarrow> rid \<Rightarrow> rid res option" where
  "fit_loop ok cnt next now = (case ok of
      Inl e \<Rightarrow> Some (Inl e)
    | Inr fits \<Rightarrow> if fits then Some (Inr now) else fit_loop ok cnt next
        (if rid_slot now < cnt - 1 then mk_rid (rid_page now) (rid_slot now + 1) else mk_rid next 0))"

text \<open>The pair \<open>t\<close> starts as a null pointer, as in \<open>get_record\<close>.  \<open>None\<close>: the call does not return.\<close>

definition ti_next :: "(column_definition \<Rightarrow> column_definition \<Rightarrow> bool) \<Rightarrow> heap \<Rightarrow> (byte list \<Rightarrow> key) \<Rightarrow> (int \<Rightarrow> int) \<Rightarrow> table_format \<Rightarrow>
    table_iterator \<Rightarrow> fh_state \<Rightarrow> (rid res \<times> table_iterator \<times> fh_state) option" where
  "ti_next ceq h val_addr slot_addr raw s st =
     (case bindE (get_this_page (rid_page (ti_now s))) (\<lambda>ph.
           bindE (on_format slot_addr raw ph (getE t_hdr)) (\<lambda>d.
           bindE (on_format slot_addr raw ph (liftE (tf_get (rid_slot (ti_now s) mod 2 ^ 16)))) (\<lambda>t.
           seqE (guardE (t = None \<or> t = Some []) Undefined_behaviour) (retE d)))) st of
        (Inl e, st') \<Rightarrow> Some (Inl e, s, st')
      | (Inr d, st') \<Rightarrow>
          (case fit_loop (ti_fit ceq h val_addr (th_schema (ti_handle s)) [] (ti_criterions s)) (t_count d) (t_next_free d) (ti_now s) of
             None \<Rightarrow> None
           | Some (Inl e) \<Rightarrow> Some (Inl e, s, st')
           | Some (Inr r) \<Rightarrow> Some (Inr r, s\<lparr>ti_now := r\<rparr>, st')))"

section \<open>Facts\<close>

lemma on_tree_run: "m (it_tree s) = (r, it_tree s) \<Longrightarrow> on_tree m s = (r, s)"
  by (simp add: on_tree_def)

lemma node_size_leaf: "nodes t a = Some x \<Longrightarrow> nd_kind x = Leaf_node \<Longrightarrow> node_size a t = (Inr (count (hdr (fmt x))), t)"
  by (simp add: node_size_def bindE_run [OF node_at_run] run_simps)

lemma node_key_run: "nodes t a = Some x \<Longrightarrow> node_key_at a i t = (key_at i (fmt x), t)"
  by (simp add: node_key_at_def on_fmt_read)

text \<open>In an ordinary leaf the inner loop finds the first entry, from the start position on, that the criterion accepts.\<close>

lemma scan_leaf_first:
  fixes x :: bnode
  assumes x: "nodes (it_tree s) a = Some x" "nd_kind x = Leaf_node"
    and c: "count (hdr (fmt x)) = c" "c < 2 ^ 31" and j: "0 \<le> j" "j < c" "nat (c - 1 - j) < n"
    and ks: "\<And>i. j \<le> i \<Longrightarrow> i < c - 1 \<Longrightarrow> key_at i (fmt x) = Inr (ks i) \<and> eval h (it_cri s) (ks i) = Inr (P i)"
    and fo: "\<not> found_one s"
  shows "\<exists>s'. scan_leaf n h a j s = (Inr (map_option (mk_rid (rid_page (page_id x))) (find P [j..c - 2])), s')
    \<and> it_tree s' = it_tree s \<and> (found_one s' \<longleftrightarrow> (\<exists>i. j \<le> i \<and> i < c - 1 \<and> P i))"
  using j ks fo x(1)
proof (induction n arbitrary: j s)
  case (Suc n)
  have sz: "on_tree (node_size a) s = (Inr c, s)" if "nodes (it_tree s) a = Some x" for s
    using that x(2) c(1) by (simp add: on_tree_run node_size_leaf)
  show ?case
  proof (cases "j < c - 1")
    case False
    then have "j = c - 1" using Suc.prems(2) by simp
    then show ?thesis using Suc.prems sz [OF Suc.prems(6)] by (auto simp: bindE_run run_simps)
  next
    case True
    let ?s = "s\<lparr>it_now := mk_rid (rid_page (it_now s)) j\<rparr>"
    have m: "j mod 18446744073709551616 < (c - 1) mod 18446744073709551616" using True Suc.prems(1) c(2) by simp
    have k: "on_tree (node_key_at a j) ?s = (Inr (ks j), ?s)"
      using Suc.prems(4) [of j] True Suc.prems(6) by (simp add: on_tree_run node_key_run)
    have e: "eval h (it_cri s) (ks j) = Inr (P j)" using Suc.prems(4) [of j] True by simp
    have t32: "to_int32 j = j" using True Suc.prems(1) c(2) by (simp add: to_int32_id)
    have up: "[j..c - 2] = j # [j + 1..c - 2]" using True by (simp add: upto_rec1)
    note step = t32 bindE_run [of "on_tree (node_size a)", OF sz [OF Suc.prems(6)]] m run_simps bindE_run [of "on_tree (node_key_at a j)", OF k] e
    show ?thesis
    proof (cases "P j")
      case p: True
      have n: "on_tree (node_at a) (?s\<lparr>found_one := True\<rparr>) = (Inr x, ?s\<lparr>found_one := True\<rparr>)"
        using Suc.prems(6) by (simp add: on_tree_run node_at_run)
      show ?thesis using p True by (auto simp: step up bindE_run [of "on_tree (node_at a)", OF n])
    next
      case False
      have IH: "\<exists>s'. scan_leaf n h a (j + 1) ?s = (Inr (map_option (mk_rid (rid_page (page_id x))) (find P [j + 1..c - 2])), s')
        \<and> it_tree s' = it_tree ?s \<and> (found_one s' \<longleftrightarrow> (\<exists>i. j + 1 \<le> i \<and> i < c - 1 \<and> P i))"
        using Suc.prems True by (intro Suc.IH) auto
      have ex: "(\<exists>i. j + 1 \<le> i \<and> i < c - 1 \<and> P i) = (\<exists>i. j \<le> i \<and> i < c - 1 \<and> P i)"
        using False by (metis add1_zle_eq order_le_less)
      show ?thesis using IH False Suc.prems(5) by (simp add: step up ex)
    qed
  qed
qed simp

lemma use_ptr_keeps [keeps_rules]: "keepsE I (use_ptr p)"
  by (auto simp: use_ptr_def keepsE_def eff_defs split: pointer.splits)

lemma on_tree_keeps: "(\<And>s t. I (s\<lparr>it_tree := t\<rparr>) = I s) \<Longrightarrow> keepsE I (on_tree m)"
  by (auto simp: keepsE_def on_tree_def split: prod.splits)

text \<open>After its construction an iterator is marked as having no next leaf, and its start points to a node.\<close>

definition fresh_scan :: "criterion \<Rightarrow> index_iterator \<Rightarrow> bool" where
  "fresh_scan cri s \<longleftrightarrow> next_is_null s \<and> it_cri s = cri \<and> (\<not> is_greater cri \<and> \<not> is_less cri \<longrightarrow> it_start s = Garbage)"

lemma scan_ends_keeps: "keepsE (fresh_scan cri) (scan_ends gtp raw)"
  unfolding keepsE_def scan_ends_def on_tree_def
  by (auto simp: eff_defs Let_def fresh_scan_def split: prod.splits sum.splits)

lemma scan_start_keeps: "keepsE (fresh_scan cri) (scan_start desc)"
  unfolding scan_start_def ptr_page_def
  by (intro keeps_rules on_tree_keeps keepsE_mod) (auto simp: fresh_scan_def)

lemma scan_start_ptr: "scan_start desc s = (Inr u, s') \<Longrightarrow> it_start s \<noteq> Garbage"
  by (auto simp: scan_start_def bindE_Inr run_simps ptr_page_def use_ptr_def split: pointer.splits)

lemma mk_index_iterator_run:
  assumes "mk_index_iterator gtp raw t cri desc = (Inr (), s)"
  shows "next_is_null s \<and> (is_greater cri \<or> is_less cri)"
proof -
  obtain u s1 where s1: "scan_ends gtp raw (blank_iterator raw t cri desc) = (Inr u, s1)" and r: "scan_start desc s1 = (Inr (), s)"
    using assms by (auto simp: mk_index_iterator_def seqE_Inr)
  have "fresh_scan cri (blank_iterator raw t cri desc)" by (simp add: blank_iterator_def fresh_scan_def)
  then have I1: "fresh_scan cri s1" by (rule keepsE_step [OF scan_ends_keeps s1])
  have "fresh_scan cri s" using I1 by (rule keepsE_step [OF scan_start_keeps r])
  then show ?thesis using I1 scan_start_ptr [OF r] by (auto simp: fresh_scan_def)
qed

lemma ti_fit_null: "ti_fit ceq h va s [] cs = Inl Undefined_behaviour"
  by (simp add: ti_fit_def decode_def)

lemma fit_loop_error: "fit_loop (Inl e) cnt next now = Some (Inl e)"
  by (subst fit_loop.simps) simp

lemma ti_next_error: "\<exists>e st'. ti_next ceq h va sa raw s st = Some (Inl e, s, st')"
  unfolding ti_next_def by (auto simp: ti_fit_null fit_loop_error split: prod.splits sum.splits)

section \<open>The properties\<close>

text \<open>C33: scans find nothing.  Whenever an index iterator can be constructed, \<open>next\<close> returns the end \<open>{-1, -1}\<close> without
  looking at any entry, however many entries fit, and the iterator stays so, because \<open>next_is_null_\<close> starts as
  true; for \<open>=\<close> and \<open>!=\<close> the constructor itself is undefined.  \<open>next\<close> of a table iterator never returns a record
  identifier: the tuple it tests is a null pointer.\<close>

theorem scans_find_nothing:
  "(case mk_index_iterator gtp raw t cri desc of
      (Inl e, s) \<Rightarrow> True
    | (Inr u, s) \<Rightarrow> cri_type cri \<noteq> EQUAL \<and> cri_type cri \<noteq> NOT_EQUAL \<and>
        it_next gtp h raw s = Some (Inr (it_end s), s\<lparr>it_current := it_start s\<rparr>) \<and>
        it_next gtp h raw (s\<lparr>it_current := it_start s\<rparr>) = Some (Inr (it_end s), s\<lparr>it_current := it_start s\<rparr>)) \<and>
   (\<exists>e st'. ti_next ceq h va sa fraw ts st = Some (Inl e, ts, st'))"
proof (rule conjI [OF _ ti_next_error])
  have "next_is_null s \<and> (is_greater cri \<or> is_less cri)" if "mk_index_iterator gtp raw t cri desc = (Inr u, s)" for u s
    using that mk_index_iterator_run [of gtp raw t cri desc s] by simp
  then show "case mk_index_iterator gtp raw t cri desc of
      (Inl e, s) \<Rightarrow> True
    | (Inr u, s) \<Rightarrow> cri_type cri \<noteq> EQUAL \<and> cri_type cri \<noteq> NOT_EQUAL \<and>
        it_next gtp h raw s = Some (Inr (it_end s), s\<lparr>it_current := it_start s\<rparr>) \<and>
        it_next gtp h raw (s\<lparr>it_current := it_start s\<rparr>) = Some (Inr (it_end s), s\<lparr>it_current := it_start s\<rparr>)"
    by (auto simp: is_greater_def is_less_def it_next_def it_end_def scan_rounds.simps split: prod.splits sum.splits)
qed

text \<open>The constructor does succeed: over the one-leaf tree of \<open>find_in_single_leaf_tree\<close> an ascending scan for the
  keys up to 100 stands at entry 0 of the leaf, which it never returns.\<close>

lemma scan_demo: "\<exists>s. mk_index_iterator gtp leaf_demo (tree_demo\<lparr>index_header := (index_header tree_demo)\<lparr>ih_height := 1\<rparr>, height := 1\<rparr>) (crit_demo LESS_EQUAL) False
   = (Inr (), s) \<and> it_begin s = mk_rid (root_page (index_header tree_demo)) 0"
  by (simp add: mk_index_iterator_def scan_start_def scan_ends_def is_greater_def is_less_def crit_demo_def blank_iterator_def
      find_smallest_leaf_node_def find_leaf_node_def descend_def on_tree_def mk_b_plus_tree_def ptr_of_def eff_defs ptr_page_def
      use_ptr_def node_at_def mk_leaf_node_def it_begin_def mk_rid_def Let_def)

end
