(* ===== verification/Poller.thy ===== *)
theory Poller
  imports Prelude
begin

text \<open>
  \<^verbatim>\<open>network/channel.{h,cc}\<close> and the kqueue poller of \<^verbatim>\<open>network/poller.{h,cc}\<close>: the channels of the reactor and
  one round of event dispatch.

  Channels live in a heap (\<open>chans\<close>); a deleted channel is \<open>None\<close> in it.  The kernel queue is the map \<open>kq\<close> from
  descriptor and filter to the channel given with the registration.  \<open>kevent\<close> applies its changes in order: adding a
  filter always succeeds; deleting one that is not registered is an error, and with no room for an event report the
  call ends there.  Closing a descriptor drops its filters.  The values of \<open>READ_EVENT\<close> and \<open>WRITE_EVENT\<close> depend on
  the platform and are the argument \<open>ev\<close>.  A handler of a channel is a computation on the poller, given by \<open>hs\<close>;
  \<open>trace\<close> records the handlers called and the channels closed.
\<close>

section \<open>The state\<close>

datatype filt = EVFILT_READ | EVFILT_WRITE

record chan =
  ch_fd :: int
  ch_events :: "16 word"

record pevent =
  udata :: "nat option"
  ev_eof :: bool

datatype action = Handled_read nat | Handled_write nat | Closed nat

record poller =
  last_active :: int
  channels :: "nat set"
  events :: "pevent list"
  kq :: "int \<times> filt \<rightharpoonup> nat"
  chans :: "nat \<Rightarrow> chan option"
  trace :: "action list"

type_synonym 'a pl = "(poller, 'a) eff"
type_synonym flags = "16 word \<times> 16 word"

text \<open>\<open>EPOLLIN\<close> and \<open>EPOLLOUT\<close>; \<open>EVFILT_READ\<close> and \<open>EVFILT_WRITE\<close>.\<close>

definition linux_flags :: flags where "linux_flags = (1, 4)"
definition apple_flags :: flags where "apple_flags = (-1, -2)"

definition chan_at :: "nat \<Rightarrow> chan pl" where
  "chan_at c = liftE (\<lambda>p. case chans p c of None \<Rightarrow> Inl Undefined_behaviour | Some x \<Rightarrow> Inr x)"

definition upd_chan :: "nat \<Rightarrow> (chan \<Rightarrow> chan) \<Rightarrow> unit pl" where
  "upd_chan c f = bindE (chan_at c) (\<lambda>x. modE (\<lambda>p. p\<lparr>chans := (chans p)(c \<mapsto> f x)\<rparr>))"

section \<open>The kernel queue\<close>

datatype change = EV_ADD int filt nat | EV_DELETE int filt

fun kevent :: "change list \<Rightarrow> (int \<times> filt \<rightharpoonup> nat) \<Rightarrow> (int \<times> filt \<rightharpoonup> nat)" where
  "kevent [] k = k"
| "kevent (EV_ADD fd f c # cs) k = kevent cs (k((fd, f) \<mapsto> c))"
| "kevent (EV_DELETE fd f # cs) k = (if k (fd, f) = None then k else kevent cs (k((fd, f) := None)))"

section \<open>The poller\<close>

definition read_enabled :: "flags \<Rightarrow> chan \<Rightarrow> bool" where
  "read_enabled ev x \<longleftrightarrow> ch_events x AND fst ev \<noteq> 0"

definition write_enabled :: "flags \<Rightarrow> chan \<Rightarrow> bool" where
  "write_enabled ev x \<longleftrightarrow> ch_events x AND snd ev \<noteq> 0"

definition add_channel :: "flags \<Rightarrow> nat \<Rightarrow> unit pl" where
  "add_channel ev c = bindE (chan_at c) (\<lambda>x.
     let cs = (if read_enabled ev x then [EV_ADD (ch_fd x) EVFILT_READ c] else []) @
              (if write_enabled ev x then [EV_ADD (ch_fd x) EVFILT_WRITE c] else []) in
     modE (\<lambda>p. p\<lparr>kq := kevent cs (kq p), channels := insert c (channels p)\<rparr>))"

definition update_channel :: "flags \<Rightarrow> nat \<Rightarrow> unit pl" where
  "update_channel ev c = bindE (chan_at c) (\<lambda>x.
     let cs = [if read_enabled ev x then EV_ADD (ch_fd x) EVFILT_READ c else EV_DELETE (ch_fd x) EVFILT_READ,
               if write_enabled ev x then EV_ADD (ch_fd x) EVFILT_WRITE c else EV_DELETE (ch_fd x) EVFILT_WRITE] in
     modE (\<lambda>p. p\<lparr>kq := kevent cs (kq p)\<rparr>))"

text \<open>\<open>for (int i = last_active_; i >= 0; i--)\<close>: forget the first event of the channel.  Reading past the events of the
  round reads what an earlier round left in the array, so \<open>events\<close> is the whole array.\<close>

fun forget :: "nat \<Rightarrow> nat \<Rightarrow> pevent list \<Rightarrow> pevent list res" where
  "forget c 0 es = (if es = [] then Inl Undefined_behaviour
     else Inr (if udata (es ! 0) = Some c then es[0 := (es ! 0)\<lparr>udata := None\<rparr>] else es))"
| "forget c (Suc n) es = (if Suc n \<ge> length es then Inl Undefined_behaviour
     else if udata (es ! Suc n) = Some c then Inr (es[Suc n := (es ! Suc n)\<lparr>udata := None\<rparr>])
     else forget c n es)"

definition remove_channel :: "nat \<Rightarrow> unit pl" where
  "remove_channel c =
     seqE (modE (\<lambda>p. p\<lparr>channels := channels p - {c}\<rparr>)) (
     bindE (liftE (\<lambda>p. if last_active p < 0 then Inr (events p) else forget c (nat (last_active p)) (events p))) (\<lambda>es.
     modE (\<lambda>p. p\<lparr>events := es\<rparr>)))"

section \<open>Channels\<close>

text \<open>The constructor does not set \<open>events_\<close>.\<close>

definition mk_channel :: "16 word \<Rightarrow> int \<Rightarrow> chan" where
  "mk_channel raw fd = \<lparr>ch_fd = fd, ch_events = raw\<rparr>"

definition enable_read :: "flags \<Rightarrow> nat \<Rightarrow> bool \<Rightarrow> unit pl" where
  "enable_read ev c on =
     seqE (upd_chan c (\<lambda>x. x\<lparr>ch_events := (if on then ch_events x OR fst ev else ch_events x AND NOT (fst ev))\<rparr>))
          (update_channel ev c)"

definition enable_write :: "flags \<Rightarrow> nat \<Rightarrow> bool \<Rightarrow> unit pl" where
  "enable_write ev c on =
     seqE (upd_chan c (\<lambda>x. x\<lparr>ch_events := (if on then ch_events x OR snd ev else ch_events x AND NOT (snd ev))\<rparr>))
          (update_channel ev c)"

definition ch_close :: "nat \<Rightarrow> unit pl" where
  "ch_close c = bindE (chan_at c) (\<lambda>x.
     whenE (ch_fd x \<ge> 0) (
       seqE (remove_channel c) (
       seqE (modE (\<lambda>p. p\<lparr>kq := (\<lambda>(fd, f). if fd = ch_fd x then None else kq p (fd, f)), trace := trace p @ [Closed c]\<rparr>))
            (upd_chan c (\<lambda>x. x\<lparr>ch_fd := -1\<rparr>)))))"

section \<open>One round\<close>

text \<open>\<open>while (--last_active_ >= 0)\<close>: the events are handled from the last to the first.  \<open>hs c r\<close> is the read
  (\<open>r\<close>) or write handler of channel \<open>c\<close>.\<close>

definition handle_event :: "flags \<Rightarrow> (nat \<Rightarrow> bool \<Rightarrow> unit pl) \<Rightarrow> pevent \<Rightarrow> unit pl" where
  "handle_event ev hs e = (case udata e of None \<Rightarrow> retE ()
     | Some c \<Rightarrow> bindE (chan_at c) (\<lambda>x.
         if ev_eof e \<or> read_enabled ev x then seqE (modE (\<lambda>p. p\<lparr>trace := trace p @ [Handled_read c]\<rparr>)) (hs c True)
         else whenE (\<not> ev_eof e \<and> write_enabled ev x)
           (seqE (modE (\<lambda>p. p\<lparr>trace := trace p @ [Handled_write c]\<rparr>)) (hs c False))))"

fun dispatch :: "nat \<Rightarrow> flags \<Rightarrow> (nat \<Rightarrow> bool \<Rightarrow> unit pl) \<Rightarrow> unit pl" where
  "dispatch 0 ev hs = modE (\<lambda>p. p\<lparr>last_active := -1\<rparr>)"
| "dispatch (Suc n) ev hs =
     seqE (modE (\<lambda>p. p\<lparr>last_active := int n\<rparr>)) (
     bindE (getE (\<lambda>p. events p ! n)) (\<lambda>e. seqE (handle_event ev hs e) (dispatch n ev hs)))"

text \<open>The kernel reports the events \<open>new\<close>, at most \<open>MAX_EVENTS\<close> of them.\<close>

definition loop_once :: "pevent list \<Rightarrow> flags \<Rightarrow> (nat \<Rightarrow> bool \<Rightarrow> unit pl) \<Rightarrow> unit pl" where
  "loop_once new ev hs =
     seqE (modE (\<lambda>p. p\<lparr>events := new @ drop (length new) (events p)\<rparr>)) (dispatch (length new) ev hs)"

section \<open>Closing during a round\<close>

fun close_all :: "nat list \<Rightarrow> unit pl" where
  "close_all [] = retE ()"
| "close_all (c # cs) = seqE (ch_close c) (close_all cs)"

text \<open>No handler of a channel is called after the channel was closed.\<close>

definition quiet :: "action list \<Rightarrow> bool" where
  "quiet t \<longleftrightarrow> (\<forall>i j c. i < j \<and> j < length t \<and> t ! i = Closed c \<longrightarrow> t ! j \<noteq> Handled_read c \<and> t ! j \<noteq> Handled_write c)"

lemma quiet_snoc:
  "quiet (t @ [a]) \<longleftrightarrow> quiet t \<and> (\<forall>c. Closed c \<in> set t \<longrightarrow> a \<noteq> Handled_read c \<and> a \<noteq> Handled_write c)"
proof
  assume q: "quiet (t @ [a])"
  have "quiet t" unfolding quiet_def
  proof (intro allI impI)
    fix i j c assume ij: "i < j \<and> j < length t \<and> t ! i = Closed c"
    then show "t ! j \<noteq> Handled_read c \<and> t ! j \<noteq> Handled_write c"
      using q [unfolded quiet_def, rule_format, of i j c] by (simp add: nth_append)
  qed
  moreover have "a \<noteq> Handled_read c \<and> a \<noteq> Handled_write c" if "Closed c \<in> set t" for c
  proof -
    obtain i where "i < length t" "t ! i = Closed c" using \<open>Closed c \<in> set t\<close> by (meson in_set_conv_nth)
    then show ?thesis using q [unfolded quiet_def, rule_format, of i "length t" c] by (simp add: nth_append)
  qed
  ultimately show "quiet t \<and> (\<forall>c. Closed c \<in> set t \<longrightarrow> a \<noteq> Handled_read c \<and> a \<noteq> Handled_write c)" by blast
next
  assume r: "quiet t \<and> (\<forall>c. Closed c \<in> set t \<longrightarrow> a \<noteq> Handled_read c \<and> a \<noteq> Handled_write c)"
  then show "quiet (t @ [a])" unfolding quiet_def
    by (auto simp: nth_append less_Suc_eq) (metis nth_mem)+
qed

text \<open>No channel occurs twice among the first \<open>n\<close> events.\<close>

definition single :: "nat \<Rightarrow> pevent list \<Rightarrow> bool" where
  "single n es \<longleftrightarrow> (\<forall>i j c. i < n \<and> j < n \<and> udata (es ! i) = Some c \<and> udata (es ! j) = Some c \<longrightarrow> i = j)"

lemma singleD: "single n es \<Longrightarrow> i < n \<Longrightarrow> j < n \<Longrightarrow> udata (es ! i) = Some c \<Longrightarrow> udata (es ! j) = Some c \<Longrightarrow> i = j"
  unfolding single_def by blast

lemma forget_run:
  assumes "n < length es" "single (Suc n) es"
  shows "\<exists>es'. forget c n es = Inr es' \<and> length es' = length es \<and>
    (\<forall>k \<le> n. udata (es' ! k) = (if udata (es ! k) = Some c then None else udata (es ! k)))"
  using assms
proof (induction n)
  case 0
  then show ?case by auto
next
  case (Suc n)
  have s: "single (Suc n) es" using Suc.prems(2) by (auto simp: single_def)
  show ?case
  proof (cases "udata (es ! Suc n) = Some c")
    case True
    have "udata (es ! k) \<noteq> Some c" if "k < Suc n" for k
      using singleD [OF Suc.prems(2), of k "Suc n" c] that True by auto
    then show ?thesis using True Suc.prems(1) by (auto simp: nth_list_update le_Suc_eq)
  next
    case False
    obtain es' where es': "forget c n es = Inr es'" "length es' = length es"
        "\<forall>k \<le> n. udata (es' ! k) = (if udata (es ! k) = Some c then None else udata (es ! k))"
      using Suc.IH [OF _ s] Suc.prems(1) by auto
    have "udata (es' ! Suc n) = udata (es ! Suc n)"
    proof -
      have "es' ! k = es ! k" if "forget c m es = Inr es'" "m < k" for m k
        using that by (induction m) (auto split: if_splits)
      then show ?thesis using es'(1) by force
    qed
    then show ?thesis using es' False Suc.prems(1) by (auto simp: le_Suc_eq)
  qed
qed

text \<open>The state while event \<open>n\<close> is being handled.\<close>

definition round_at :: "nat \<Rightarrow> poller \<Rightarrow> bool" where
  "round_at n p \<longleftrightarrow> last_active p = int n \<and> n < length (events p) \<and> single (Suc n) (events p) \<and> quiet (trace p) \<and>
     (\<forall>k < n. \<forall>c. udata (events p ! k) = Some c \<longrightarrow> Closed c \<notin> set (trace p))"

lemma round_atI:
  assumes "round_at n p" "last_active p' = last_active p" "events p' = events p" "trace p' = trace p"
  shows "round_at n p'"
  using assms by (simp add: round_at_def)

lemma upd_chan_round: "keepsE (round_at n) (upd_chan c f)"
  unfolding upd_chan_def chan_at_def by (intro keeps_rules keepsE_mod) (auto simp: round_at_def)

lemma remove_channel_run:
  assumes "round_at n p"
  obtains p' where "remove_channel c p = (Inr (), p')" "round_at n p'" "trace p' = trace p"
    "\<And>k. k < n \<Longrightarrow> udata (events p' ! k) \<noteq> Some c"
proof -
  have r: "last_active p = int n" "n < length (events p)" "single (Suc n) (events p)" using assms by (auto simp: round_at_def)
  obtain es where es: "forget c n (events p) = Inr es" "length es = length (events p)"
      "\<forall>k \<le> n. udata (es ! k) = (if udata (events p ! k) = Some c then None else udata (events p ! k))"
    using forget_run [OF r(2,3)] by blast
  have s: "single (Suc n) es" using r(3) es(3) unfolding single_def less_Suc_eq_le by (metis option.distinct(1))
  have l: "udata (es ! k) = Some d \<Longrightarrow> k < n \<Longrightarrow> Closed d \<notin> set (trace p)" for k d
    using es(3) assms unfolding round_at_def by (metis less_imp_le option.distinct(1))
  have run: "remove_channel c p = (Inr (), p\<lparr>channels := channels p - {c}, events := es\<rparr>)"
    using r(1) es(1) by (simp add: remove_channel_def run_simps)
  have "round_at n (p\<lparr>channels := channels p - {c}, events := es\<rparr>)" using assms es(2) s l by (auto simp: round_at_def)
  moreover have "udata (es ! k) \<noteq> Some c" if "k < n" for k using es(3) that by simp
  ultimately show thesis using that [OF run] by simp
qed

lemma ch_close_round: "keepsE (round_at n) (ch_close c)"
  unfolding keepsE_def
proof (intro allI impI)
  fix p assume p: "round_at n p"
  show "round_at n (snd (ch_close c p))"
  proof (cases "\<exists>x. chans p c = Some x \<and> 0 \<le> ch_fd x")
    case False
    then show ?thesis using p
      by (auto simp: ch_close_def chan_at_def run_simps whenE_def retE_def split: option.splits)
  next
    case True
    then obtain x where x: "chans p c = Some x" "0 \<le> ch_fd x" by blast
    obtain p1 where p1: "remove_channel c p = (Inr (), p1)" "round_at n p1" "trace p1 = trace p"
      "\<And>k. k < n \<Longrightarrow> udata (events p1 ! k) \<noteq> Some c" using remove_channel_run [OF p] by blast
    let ?p2 = "p1\<lparr>kq := (\<lambda>(fd, f). if fd = ch_fd x then None else kq p1 (fd, f)), trace := trace p1 @ [Closed c]\<rparr>"
    have "quiet (trace p1 @ [Closed c])" using p1(2) by (simp add: quiet_snoc round_at_def)
    then have "round_at n ?p2" using p1(2,4) by (auto simp: round_at_def)
    then have "round_at n (snd (upd_chan c (\<lambda>x. x\<lparr>ch_fd := -1\<rparr>) ?p2))" using upd_chan_round by (auto simp: keepsE_def)
    moreover have "ch_close c p = upd_chan c (\<lambda>x. x\<lparr>ch_fd := -1\<rparr>) ?p2"
      using x by (simp add: ch_close_def chan_at_def run_simps whenE_def seqE_run [of "remove_channel c", OF p1(1)])
    ultimately show ?thesis by simp
  qed
qed

lemma close_all_round: "keepsE (round_at n) (close_all cs)"
  by (induction cs) (simp_all add: keeps_rules ch_close_round)

text \<open>Between two events.\<close>

definition round_before :: "nat \<Rightarrow> poller \<Rightarrow> bool" where
  "round_before n p \<longleftrightarrow> n \<le> length (events p) \<and> single n (events p) \<and> quiet (trace p) \<and>
     (\<forall>k < n. \<forall>c. udata (events p ! k) = Some c \<longrightarrow> Closed c \<notin> set (trace p))"

lemma dispatch_quiet:
  assumes "round_before n p"
  shows "quiet (trace (snd (dispatch n ev (\<lambda>c r. close_all (l c r)) p)))"
  using assms
proof (induction n arbitrary: p)
  case 0
  then show ?case by (simp add: modE_def round_before_def)
next
  case (Suc n)
  let ?hs = "\<lambda>c r. close_all (l c r)"
  let ?p = "p\<lparr>last_active := int n\<rparr>"
  let ?body = "handle_event ev ?hs"
  have at: "round_at n ?p" using Suc.prems unfolding round_at_def round_before_def by simp (metis less_Suc_eq)
  have log: "round_at n (?p\<lparr>trace := trace p @ [a]\<rparr>)"
    if "udata (events p ! n) = Some c" "a = Handled_read c \<or> a = Handled_write c" for a c
  proof -
    have "Closed c \<notin> set (trace p)" using Suc.prems that(1) unfolding round_before_def by blast
    then show ?thesis using at that(2) by (auto simp: round_at_def quiet_snoc)
  qed
  have body: "round_at n (snd (?body (events p ! n) ?p))"
    using log at close_all_round [of n] unfolding keepsE_def
    by (auto simp: handle_event_def chan_at_def run_simps whenE_def split: option.splits)
  have next_ok: "round_before n q" if "round_at n q" for q
    using that unfolding round_at_def round_before_def single_def by auto
  have q: "quiet (trace (snd (?body (events p ! n) ?p)))" using body by (simp add: round_at_def)
  obtain r q where rq: "?body (events p ! n) ?p = (r, q)" by fastforce
  then have "round_before n q" using next_ok body by simp
  then show ?case using Suc.IH [of q] rq q
    by (cases r) (simp_all add: run_simps seqE_run [of "?body (events p ! n)"] seqE_fail [of "?body (events p ! n)"])
qed

section \<open>Destruction\<close>

text \<open>\<open>while (channels_.size()) (*channels_.begin())->close()\<close>: the loop of the destructors, for a poller with the set \<open>cs\<close> of
  channels and the operation \<open>cl\<close>.  It does not end when \<open>close\<close> leaves a channel in the set.\<close>

partial_function (option) drain :: "('s \<Rightarrow> nat set) \<Rightarrow> (nat \<Rightarrow> ('s, unit) eff) \<Rightarrow> 's \<Rightarrow> (unit res \<times> 's) option" where
  "drain cs cl s = (if cs s = {} then Some (Inr (), s)
     else case cl (Min (cs s)) s of (r, s') \<Rightarrow> (case r of Inl e \<Rightarrow> Some (Inl e, s') | Inr u \<Rightarrow> drain cs cl s'))"

definition kq_destroy :: "poller \<Rightarrow> (unit res \<times> poller) option" where
  "kq_destroy = drain channels ch_close"

text \<open>What the loop needs: closing an open channel succeeds, takes it out of the set and leaves the other channels alone.\<close>

locale channel_set =
  fixes cs :: "'s \<Rightarrow> nat set" and cl :: "nat \<Rightarrow> ('s, unit) eff" and opened :: "'s \<Rightarrow> nat \<Rightarrow> bool" and ready :: "'s \<Rightarrow> bool"
  assumes close_one: "ready s \<Longrightarrow> opened s c \<Longrightarrow>
    \<exists>s'. cl c s = (Inr (), s') \<and> ready s' \<and> cs s' = cs s - {c} \<and> (\<forall>d. opened s' d \<longleftrightarrow> d \<noteq> c \<and> opened s d)"
begin

lemma drain_ends:
  assumes "finite (cs s)" "ready s" "\<And>c. c \<in> cs s \<Longrightarrow> opened s c"
  shows "\<exists>s'. drain cs cl s = Some (Inr (), s') \<and> cs s' = {} \<and> (\<forall>d. opened s' d \<longleftrightarrow> d \<notin> cs s \<and> opened s d)"
  using assms
proof (induction "card (cs s)" arbitrary: s)
  case 0
  then show ?case by (simp add: drain.simps)
next
  case (Suc n)
  then have ne: "cs s \<noteq> {}" by auto
  let ?c = "Min (cs s)"
  have c: "?c \<in> cs s" using Suc.prems(1) ne by simp
  obtain s1 where s1: "cl ?c s = (Inr (), s1)" "ready s1" "cs s1 = cs s - {?c}" "\<And>d. opened s1 d \<longleftrightarrow> d \<noteq> ?c \<and> opened s d"
    using close_one [OF Suc.prems(2) Suc.prems(3) [OF c]] by blast
  have "\<exists>s'. drain cs cl s1 = Some (Inr (), s') \<and> cs s' = {} \<and> (\<forall>d. opened s' d \<longleftrightarrow> d \<notin> cs s1 \<and> opened s1 d)"
    by (rule Suc.hyps(1)) (use Suc.hyps(2) Suc.prems s1 c in auto)
  then show ?case using s1 ne c by (subst drain.simps) auto
qed

end

definition chan_open :: "poller \<Rightarrow> nat \<Rightarrow> bool" where
  "chan_open p c \<longleftrightarrow> (\<exists>x. chans p c = Some x \<and> 0 \<le> ch_fd x)"

interpretation kqs: channel_set channels ch_close chan_open "\<lambda>p. last_active p < 0"
proof
  fix p c assume "last_active p < 0" "chan_open p c"
  then obtain x where x: "chans p c = Some x" "0 \<le> ch_fd x" by (auto simp: chan_open_def)
  obtain p' where p': "ch_close c p = (Inr (), p')" "channels p' = channels p - {c}" "last_active p' = last_active p"
    "chans p' = (chans p)(c \<mapsto> x\<lparr>ch_fd := -1\<rparr>)"
    using x \<open>last_active p < 0\<close> by (simp add: ch_close_def remove_channel_def upd_chan_def chan_at_def eff_defs)
  then have "chan_open p' d \<longleftrightarrow> d \<noteq> c \<and> chan_open p d" for d by (auto simp: chan_open_def)
  then show "\<exists>p'. ch_close c p = (Inr (), p') \<and> last_active p' < 0 \<and> channels p' = channels p - {c} \<and>
      (\<forall>d. chan_open p' d \<longleftrightarrow> d \<noteq> c \<and> chan_open p d)" using p' \<open>last_active p < 0\<close> by auto
qed

text \<open>Between two rounds the destructor of the poller ends and closes exactly the channels of its set, provided they are open.\<close>

lemma kq_destroy_ends:
  assumes "finite (channels p)" "last_active p < 0" "\<And>c. c \<in> channels p \<Longrightarrow> chan_open p c"
  shows "\<exists>p'. kq_destroy p = Some (Inr (), p') \<and> channels p' = {} \<and> (\<forall>d. chan_open p' d \<longleftrightarrow> d \<notin> channels p \<and> chan_open p d)"
  unfolding kq_destroy_def by (rule kqs.drain_ends) (use assms in auto)

section \<open>The properties\<close>


definition poller_demo :: poller where
  "poller_demo = \<lparr>last_active = -1, channels = {}, events = replicate 4 \<lparr>udata = None, ev_eof = False\<rparr>, kq = Map.empty,
     chans = [0 \<mapsto> \<lparr>ch_fd = 5, ch_events = 1\<rparr>, 1 \<mapsto> \<lparr>ch_fd = 6, ch_events = 1\<rparr>], trace = []\<rparr>"

definition both_events :: "pevent list" where
  "both_events = [\<lparr>udata = Some 0, ev_eof = False\<rparr>, \<lparr>udata = Some 1, ev_eof = False\<rparr>]"

text \<open>The handler of channel 1 closes both channels; the event of channel 0 is dropped.\<close>

lemma demo_round:
  "trace (snd (loop_once both_events linux_flags (\<lambda>c r. close_all [0, 1]) poller_demo)) = [Handled_read 1, Closed 0, Closed 1]"
  by (simp add: loop_once_def handle_event_def both_events_def poller_demo_def linux_flags_def run_simps chan_at_def upd_chan_def read_enabled_def
      ch_close_def whenE_def remove_channel_def numeral_nat seqE_def bindE_def modE_def liftE_def retE_def)


text \<open>With a read and a write event of the same channel in a round, only one of them is erased.\<close>

lemma closed_channel_used_again:
  "trace (snd (loop_once (replicate 2 \<lparr>udata = Some 0, ev_eof = False\<rparr>) linux_flags (\<lambda>c r. close_all [0]) poller_demo)) =
     [Handled_read 0, Closed 0, Handled_read 0]"
  by (simp add: loop_once_def handle_event_def poller_demo_def linux_flags_def run_simps chan_at_def upd_chan_def read_enabled_def
      ch_close_def whenE_def remove_channel_def numeral_nat seqE_def bindE_def modE_def liftE_def retE_def)

text \<open>The event flags.  With the bit masks of epoll, reading and writing are switched independently.  The filter numbers of
  kqueue are no masks: enabling one filter enables the other.\<close>

lemma mask_facts:
  fixes e :: "16 word"
  shows "(e OR 1) AND 1 \<noteq> 0" "(e AND NOT 1) AND 1 = 0" "(e OR 1) AND 4 = e AND 4" "(e AND NOT 1) AND 4 = e AND 4"
proof -
  have "bit ((e OR 1) AND 1) 0" by (simp add: bit_simps)
  then show "(e OR 1) AND 1 \<noteq> 0" by auto
  show "(e AND NOT 1) AND 1 = 0" by (simp add: and.assoc)
  have "(1 :: 16 word) AND 4 = 0" by simp
  then show "(e OR 1) AND 4 = e AND 4" by (simp add: bit.conj_disj_distrib2)
  have "NOT 1 AND 4 = (4 :: 16 word)" by simp
  then show "(e AND NOT 1) AND 4 = e AND 4" by (simp add: and.assoc)
qed

lemma linux_flags_independent:
  assumes "chans p c = Some x"
  shows "\<exists>p' x'. enable_read linux_flags c on p = (Inr (), p') \<and> chans p' c = Some x' \<and>
    read_enabled linux_flags x' = on \<and> write_enabled linux_flags x' = write_enabled linux_flags x"
  using assms
  by (auto simp: enable_read_def update_channel_def upd_chan_def chan_at_def run_simps Let_def seqE_def bindE_def liftE_def modE_def
      read_enabled_def write_enabled_def linux_flags_def mask_facts [simplified])

lemma apple_flags_confused: "write_enabled apple_flags (x\<lparr>ch_events := ch_events x OR fst apple_flags\<rparr>)"
  by (simp add: write_enabled_def apple_flags_def)

end
