(* ===== verification/Epoll.thy ===== *)
theory Epoll
  imports Poller
begin

text \<open>
  The epoll poller of \<^verbatim>\<open>network/poller.{h,cc}\<close>, the variant for Linux, with the operations of \<^verbatim>\<open>network/channel.cc\<close> on it.
  The kernel keeps a set of descriptors, each with a mask of events and the channel given with the registration; \<open>epoll_ctl\<close>
  refuses to add a descriptor twice and to modify or delete one that is not in the set, and no caller looks at its result.
  \<open>event\<close> in \<open>update_channel\<close> and \<open>remove_channel\<close>, which is declared nowhere, is read as \<open>ev\<close>, and \<open>channel_\<close> as
  \<open>channels_\<close>.
\<close>

section \<open>The model\<close>

record epevent =
  ep_ptr :: "nat option"
  ep_mask :: "32 word"

record epoller =
  ep_last :: int
  ep_channels :: "nat set"
  ep_events :: "epevent list"
  ep_set :: "int \<rightharpoonup> 32 word \<times> nat"
  ep_chans :: "nat \<Rightarrow> chan option"
  ep_trace :: "action list"

type_synonym 'a ep = "(epoller, 'a) eff"

definition ep_chan_at :: "nat \<Rightarrow> chan ep" where
  "ep_chan_at c = liftE (\<lambda>p. case ep_chans p c of None \<Rightarrow> Inl Undefined_behaviour | Some x \<Rightarrow> Inr x)"

datatype ctl = CTL_ADD | CTL_MOD | CTL_DEL

definition epoll_ctl :: "ctl \<Rightarrow> int \<Rightarrow> 32 word \<times> nat \<Rightarrow> (int \<rightharpoonup> 32 word \<times> nat) \<Rightarrow> (int \<rightharpoonup> 32 word \<times> nat)" where
  "epoll_ctl op fd e m = (if fd < 0 then m else case op of
      CTL_ADD \<Rightarrow> if m fd = None then m(fd \<mapsto> e) else m
    | CTL_MOD \<Rightarrow> if m fd = None then m else m(fd \<mapsto> e)
    | CTL_DEL \<Rightarrow> m(fd := None))"

text \<open>\<open>ev.events = chan->events()\<close> converts a \<open>short\<close> to \<open>uint32_t\<close>.\<close>

definition ep_do :: "ctl \<Rightarrow> nat \<Rightarrow> unit ep" where
  "ep_do op c = bindE (ep_chan_at c) (\<lambda>x. modE (\<lambda>p. p\<lparr>ep_set := epoll_ctl op (ch_fd x) (scast (ch_events x), c) (ep_set p)\<rparr>))"

definition ep_add_channel :: "nat \<Rightarrow> unit ep" where
  "ep_add_channel c = seqE (ep_do CTL_ADD c) (modE (\<lambda>p. p\<lparr>ep_channels := insert c (ep_channels p)\<rparr>))"

definition ep_update_channel :: "nat \<Rightarrow> unit ep" where
  "ep_update_channel c = ep_do CTL_MOD c"

definition ep_remove_channel :: "nat \<Rightarrow> unit ep" where
  "ep_remove_channel c = seqE (ep_do CTL_DEL c) (modE (\<lambda>p. p\<lparr>ep_channels := ep_channels p - {c}\<rparr>))"

definition ep_upd_chan :: "nat \<Rightarrow> (chan \<Rightarrow> chan) \<Rightarrow> unit ep" where
  "ep_upd_chan c f = bindE (ep_chan_at c) (\<lambda>x. modE (\<lambda>p. p\<lparr>ep_chans := (ep_chans p)(c \<mapsto> f x)\<rparr>))"

text \<open>\<open>channel::enable_read\<close>, \<open>enable_write\<close> and \<open>close\<close> over this poller.\<close>

definition ep_enable :: "bool \<Rightarrow> nat \<Rightarrow> bool \<Rightarrow> unit ep" where
  "ep_enable rd c on = (let m = (if rd then fst linux_flags else snd linux_flags) in
     seqE (ep_upd_chan c (\<lambda>x. x\<lparr>ch_events := (if on then ch_events x OR m else ch_events x AND NOT m)\<rparr>))
          (ep_update_channel c))"

definition ep_close :: "nat \<Rightarrow> unit ep" where
  "ep_close c = bindE (ep_chan_at c) (\<lambda>x.
     whenE (ch_fd x \<ge> 0) (
       seqE (ep_remove_channel c) (
       seqE (modE (\<lambda>p. p\<lparr>ep_trace := ep_trace p @ [Closed c]\<rparr>))
            (ep_upd_chan c (\<lambda>x. x\<lparr>ch_fd := -1\<rparr>)))))"

text \<open>\<open>POLLIN | POLLERR\<close> is 9 and \<open>POLLOUT\<close> 4.\<close>

definition ep_handle :: "(nat \<Rightarrow> bool \<Rightarrow> unit ep) \<Rightarrow> epevent \<Rightarrow> unit ep" where
  "ep_handle hs e = (case ep_ptr e of None \<Rightarrow> retE ()
     | Some c \<Rightarrow> bindE (ep_chan_at c) (\<lambda>_.
         if ep_mask e AND 9 \<noteq> 0 then seqE (modE (\<lambda>p. p\<lparr>ep_trace := ep_trace p @ [Handled_read c]\<rparr>)) (hs c True)
         else whenE (ep_mask e AND 4 \<noteq> 0) (seqE (modE (\<lambda>p. p\<lparr>ep_trace := ep_trace p @ [Handled_write c]\<rparr>)) (hs c False))))"

fun ep_dispatch :: "nat \<Rightarrow> (nat \<Rightarrow> bool \<Rightarrow> unit ep) \<Rightarrow> unit ep" where
  "ep_dispatch 0 hs = modE (\<lambda>p. p\<lparr>ep_last := -1\<rparr>)"
| "ep_dispatch (Suc n) hs =
     seqE (modE (\<lambda>p. p\<lparr>ep_last := int n\<rparr>)) (
     bindE (getE (\<lambda>p. ep_events p ! n)) (\<lambda>e. seqE (ep_handle hs e) (ep_dispatch n hs)))"

definition ep_loop_once :: "epevent list \<Rightarrow> (nat \<Rightarrow> bool \<Rightarrow> unit ep) \<Rightarrow> unit ep" where
  "ep_loop_once new hs =
     seqE (modE (\<lambda>p. p\<lparr>ep_events := new @ drop (length new) (ep_events p)\<rparr>)) (ep_dispatch (length new) hs)"

section \<open>Destruction\<close>

definition ep_destroy :: "epoller \<Rightarrow> (unit res \<times> epoller) option" where
  "ep_destroy = drain ep_channels ep_close"

definition ep_open :: "epoller \<Rightarrow> nat \<Rightarrow> bool" where
  "ep_open p c \<longleftrightarrow> (\<exists>x. ep_chans p c = Some x \<and> 0 \<le> ch_fd x)"

interpretation eps: channel_set ep_channels ep_close ep_open "\<lambda>_. True"
proof
  fix p c assume "ep_open p c"
  then obtain x where x: "ep_chans p c = Some x" "0 \<le> ch_fd x" by (auto simp: ep_open_def)
  obtain p' where p': "ep_close c p = (Inr (), p')" "ep_channels p' = ep_channels p - {c}"
    "ep_chans p' = (ep_chans p)(c \<mapsto> x\<lparr>ch_fd := -1\<rparr>)"
    using x by (simp add: ep_close_def ep_remove_channel_def ep_do_def ep_upd_chan_def ep_chan_at_def eff_defs)
  then have "ep_open p' d \<longleftrightarrow> d \<noteq> c \<and> ep_open p d" for d by (auto simp: ep_open_def)
  then show "\<exists>p'. ep_close c p = (Inr (), p') \<and> True \<and> ep_channels p' = ep_channels p - {c} \<and>
      (\<forall>d. ep_open p' d \<longleftrightarrow> d \<noteq> c \<and> ep_open p d)" using p' by auto
qed

lemma ep_destroy_ends:
  assumes "finite (ep_channels p)" "\<And>c. c \<in> ep_channels p \<Longrightarrow> ep_open p c"
  shows "\<exists>p'. ep_destroy p = Some (Inr (), p') \<and> ep_channels p' = {} \<and> (\<forall>d. ep_open p' d \<longleftrightarrow> d \<notin> ep_channels p \<and> ep_open p d)"
  unfolding ep_destroy_def by (rule eps.drain_ends) (use assms in auto)

section \<open>Registration\<close>

text \<open>What the program does with channels: no caller of \<open>add_channel\<close> exists.\<close>

datatype ch_call = New_channel nat chan | Enable bool nat bool | Close nat

definition ch_do :: "ch_call \<Rightarrow> unit ep" where
  "ch_do k = (case k of
      New_channel c x \<Rightarrow> modE (\<lambda>p. p\<lparr>ep_chans := (ep_chans p)(c \<mapsto> x)\<rparr>)
    | Enable rd c on \<Rightarrow> ep_enable rd c on
    | Close c \<Rightarrow> ep_close c)"

fun ch_dos :: "ch_call list \<Rightarrow> epoller \<Rightarrow> epoller" where
  "ch_dos [] p = p"
| "ch_dos (k # ks) p = ch_dos ks (snd (ch_do k p))"

definition unwatched :: "epoller \<Rightarrow> bool" where
  "unwatched p \<longleftrightarrow> ep_set p = Map.empty"

lemma ep_do_keeps [keeps_rules]: "op \<noteq> CTL_ADD \<Longrightarrow> keepsE unwatched (ep_do op c)"
  by (cases op) (auto simp: keepsE_def ep_do_def ep_chan_at_def eff_defs unwatched_def epoll_ctl_def split: option.splits)

lemma ep_upd_chan_keeps [keeps_rules]: "keepsE unwatched (ep_upd_chan c f)"
  by (auto simp: keepsE_def ep_upd_chan_def ep_chan_at_def eff_defs unwatched_def split: option.splits)

lemma ch_do_keeps: "keepsE unwatched (ch_do k)"
proof (cases k)
  case (New_channel c x)
  then show ?thesis by (simp add: ch_do_def keepsE_def modE_def unwatched_def)
next
  case (Enable rd c on)
  then show ?thesis by (simp add: ch_do_def ep_enable_def Let_def ep_update_channel_def keepsE_seq ep_do_keeps ep_upd_chan_keeps)
next
  case (Close c)
  have "keepsE unwatched (modE (\<lambda>p. p\<lparr>ep_trace := ep_trace p @ [Closed c]\<rparr>))"
    "keepsE unwatched (modE (\<lambda>p. p\<lparr>ep_channels := ep_channels p - {c}\<rparr>))" by (simp_all add: keepsE_def modE_def unwatched_def)
  then show ?thesis using Close
    by (simp add: ch_do_def ep_close_def ep_remove_channel_def ep_chan_at_def keepsE_bind keepsE_basic keepsE_when keepsE_seq ep_do_keeps ep_upd_chan_keeps)
qed

text \<open>On Linux no channel is ever watched.  \<open>on_read\<close> and \<open>on_write\<close> only modify the registration of a descriptor, which the
  kernel refuses for one that was never added, and the program never calls \<open>add_channel\<close>: whatever channels it makes, enables
  and closes, the kernel's set stays empty, so no event is reported for any of them.\<close>

theorem linux_never_watches:
  assumes "ep_set p = Map.empty"
  shows "ep_set (ch_dos ks p) = Map.empty"
proof -
  have "unwatched (ch_dos ks p)" if "unwatched p" for p
    using that by (induction ks arbitrary: p) (use ch_do_keeps in \<open>auto simp: keepsE_def\<close>)
  then show ?thesis using assms by (simp add: unwatched_def)
qed

definition ep_demo :: epoller where
  "ep_demo = \<lparr>ep_last = 0, ep_channels = {}, ep_events = [], ep_set = Map.empty, ep_chans = \<lambda>_. None, ep_trace = []\<rparr>"

definition chan_calls :: "ch_call list" where
  "chan_calls = [New_channel 1 (mk_channel 0 5), Enable True 1 True]"

theorem linux_never_watches_witness:
  "ep_set (ch_dos chan_calls ep_demo) 5 = None \<and> map_option ch_events (ep_chans (ch_dos chan_calls ep_demo) 1) = Some 1"
proof
  show "ep_set (ch_dos chan_calls ep_demo) 5 = None" using linux_never_watches [of ep_demo chan_calls] by (simp add: ep_demo_def)
  show "map_option ch_events (ep_chans (ch_dos chan_calls ep_demo) 1) = Some 1"
    by (simp add: ep_demo_def chan_calls_def ch_do_def ep_enable_def ep_upd_chan_def ep_chan_at_def ep_update_channel_def ep_do_def
        linux_flags_def mk_channel_def eff_defs Let_def)
qed

text \<open>With \<open>add_channel\<close> called first, the same calls do watch the descriptor.\<close>

lemma added_channel_watched:
  "ep_set (snd (ep_add_channel 1 (ch_dos chan_calls ep_demo))) 5 = Some (1, 1)"
  by (simp add: ep_demo_def chan_calls_def ch_do_def ep_enable_def ep_upd_chan_def ep_chan_at_def ep_update_channel_def ep_do_def
      ep_add_channel_def linux_flags_def mk_channel_def eff_defs Let_def epoll_ctl_def)

text \<open>Unlike the kqueue poller, this one does not forget the pending events of a channel that is closed: a handler that closes
  another channel does not keep that channel's handler from being called.\<close>

definition two_events :: "epevent list" where
  "two_events = [\<lparr>ep_ptr = Some 1, ep_mask = 1\<rparr>, \<lparr>ep_ptr = Some 2, ep_mask = 1\<rparr>]"

lemma closed_channel_handled:
  "ep_trace (snd (ep_loop_once two_events (\<lambda>c _. if c = 2 then ep_close 1 else retE ())
     (ep_demo\<lparr>ep_chans := [1 \<mapsto> mk_channel 1 5, 2 \<mapsto> mk_channel 1 6]\<rparr>))) = [Handled_read 2, Closed 1, Handled_read 1]"
  by (simp add: two_events_def ep_loop_once_def ep_handle_def ep_close_def ep_remove_channel_def ep_do_def ep_upd_chan_def ep_chan_at_def
      ep_demo_def mk_channel_def eff_defs numeral_2_eq_2)

end
