(* ===== verification/Ring_Buffer.thy ===== *)
theory Ring_Buffer
  imports Prelude
begin

text \<open>
  \<^verbatim>\<open>network/buffer.{h,cc}\<close>: the circular byte buffer of a connection.  \<open>size_t\<close> values are natural
  numbers below \<open>2 ^ 64\<close> with the wrap-around of sums and differences written out.
  \<open>buf_\<close> is the block it points to, or \<open>None\<close> when the pointer has been destroyed.
  Each operation runs under the buffer's mutex, so the model gives its effect as one step.
\<close>

section \<open>The model\<close>

definition uadd :: "nat \<Rightarrow> nat \<Rightarrow> nat" where
  "uadd a b = (a + b) mod 2 ^ 64"

definition usub :: "nat \<Rightarrow> nat \<Rightarrow> nat" where
  "usub a b = (a + 2 ^ 64 - b) mod 2 ^ 64"

record ring =
  rb_buf :: "byte list option"
  rb_full :: bool
  rb_head :: nat
  rb_tail :: nat
  max_size :: nat

type_synonym 'a rb = "(ring, 'a) eff"

definition DEFAULT_BUFFER_SIZE :: nat where
  "DEFAULT_BUFFER_SIZE = 0xFFFF"

text \<open>\<open>memset(&buf_, 0, max_size_)\<close> clears the pointer member and what follows it, not the block.\<close>

definition mk_buffer :: "nat \<Rightarrow> ring res" where
  "mk_buffer n =
     (if 8 < n then Inl Undefined_behaviour
      else Inr \<lparr>rb_buf = (if n = 0 then Some [] else None), rb_full = False, rb_head = 0, rb_tail = 0,
                max_size = n\<rparr>)"

text \<open>\<open>(a + s) % max_size_\<close> in \<open>size_t\<close>; a zero divisor is undefined.\<close>

definition wrap :: "nat \<Rightarrow> nat \<Rightarrow> nat res" where
  "wrap a m = (if m = 0 then Inl Undefined_behaviour else Inr (a mod m))"

definition advance_get :: "nat \<Rightarrow> unit rb" where
  "advance_get s = bindE (liftE (\<lambda>r. wrap (uadd (rb_tail r) s) (max_size r))) (\<lambda>t. modE (\<lambda>r. r\<lparr>rb_tail := t\<rparr>))"

definition advance_put :: "nat \<Rightarrow> unit rb" where
  "advance_put s = bindE (liftE (\<lambda>r. wrap (uadd (rb_head r) s) (max_size r))) (\<lambda>h. modE (\<lambda>r. r\<lparr>rb_head := h\<rparr>))"

definition rb_empty :: "ring \<Rightarrow> bool" where
  "rb_empty r \<longleftrightarrow> \<not> rb_full r \<and> rb_head r = rb_tail r"

definition full :: "ring \<Rightarrow> bool" where
  "full r = rb_full r"

definition capacity :: "ring \<Rightarrow> nat" where
  "capacity r = max_size r"

definition rb_size :: "ring \<Rightarrow> nat" where
  "rb_size r = (if rb_full r then max_size r
     else if rb_head r \<ge> rb_tail r then rb_head r - rb_tail r
     else usub (max_size r) (rb_tail r - rb_head r))"

text \<open>Reads and writes of the block, with the bounds of the block.\<close>

definition read_mem :: "nat \<Rightarrow> nat \<Rightarrow> byte list rb" where
  "read_mem off len = liftE (\<lambda>r. case rb_buf r of None \<Rightarrow> Inl Undefined_behaviour
     | Some b \<Rightarrow> if off + len \<le> length b then Inr (take len (drop off b)) else Inl Undefined_behaviour)"

definition write_mem :: "nat \<Rightarrow> byte list \<Rightarrow> unit rb" where
  "write_mem off s = bindE (getE rb_buf) (\<lambda>m. case m of None \<Rightarrow> throwE Undefined_behaviour
     | Some b \<Rightarrow> if off + length s \<le> length b
         then modE (\<lambda>r. r\<lparr>rb_buf := Some (take off b @ s @ drop (off + length s) b)\<rparr>)
         else throwE Undefined_behaviour)"

definition rb_put :: "byte \<Rightarrow> unit rb" where
  "rb_put c = bindE (getE rb_head) (\<lambda>h.
     seqE (write_mem h [c]) (
     bindE (getE rb_full) (\<lambda>f.
     seqE (whenE f (advance_get 1)) (
     seqE (advance_put 1)
          (modE (\<lambda>r. r\<lparr>rb_full := (rb_head r = rb_tail r)\<rparr>))))))"

definition rb_put_bytes :: "byte list \<Rightarrow> unit rb" where
  "rb_put_bytes s = bindE (getE rb_head) (\<lambda>h. seqE (write_mem h s) (advance_put (length s)))"

definition rb_get :: "byte rb" where
  "rb_get = bindE (getE (\<lambda>r. r)) (\<lambda>r.
     if rb_empty r then retE 0
     else bindE (read_mem (rb_tail r) 1) (\<lambda>v.
       seqE (modE (\<lambda>r. r\<lparr>rb_full := False\<rparr>)) (seqE (advance_get 1) (retE (hd v)))))"

text \<open>\<open>get(s, len)\<close> leaves the destination alone when there is not enough data.\<close>

definition rb_get_bytes :: "nat \<Rightarrow> byte list option rb" where
  "rb_get_bytes len = bindE (getE (\<lambda>r. r)) (\<lambda>r.
     if rb_size r < len then retE None
     else seqE (modE (\<lambda>r. r\<lparr>rb_full := False\<rparr>)) (
       bindE (read_mem (rb_tail r) len) (\<lambda>v. seqE (advance_get len) (retE (Some v)))))"

definition unget :: "nat \<Rightarrow> unit rb" where
  "unget s = bindE (getE (\<lambda>r. r)) (\<lambda>r.
     if full r \<or> rb_size r < s then retE ()
     else bindE (liftE (\<lambda>r. wrap (usub (rb_tail r) s) (max_size r))) (\<lambda>t. modE (\<lambda>r. r\<lparr>rb_tail := t\<rparr>)))"

definition rb_reset :: "unit rb" where
  "rb_reset = modE (\<lambda>r. r\<lparr>rb_head := rb_tail r, rb_full := False\<rparr>)"

section \<open>The buffer as a bounded queue\<close>

definition rb_inv :: "ring \<Rightarrow> bool" where
  "rb_inv r \<longleftrightarrow> (\<exists>b. rb_buf r = Some b \<and> length b = max_size r) \<and> 0 < max_size r \<and> max_size r < 2 ^ 63
     \<and> rb_head r < max_size r \<and> rb_tail r < max_size r \<and> (rb_full r \<longrightarrow> rb_head r = rb_tail r)"

definition rb_content :: "ring \<Rightarrow> byte list" where
  "rb_content r = map (\<lambda>k. the (rb_buf r) ! ((rb_tail r + k) mod max_size r)) [0..<rb_size r]"

lemma rb_invE:
  assumes "rb_inv r"
  obtains b where "rb_buf r = Some b" "length b = max_size r" "0 < max_size r" "max_size r < 2 ^ 63"
    "rb_head r < max_size r" "rb_tail r < max_size r" "rb_full r \<Longrightarrow> rb_head r = rb_tail r"
  using assms by (auto simp: rb_inv_def)

lemma usub_le: "b \<le> a \<Longrightarrow> a < 2 ^ 64 \<Longrightarrow> usub a b = a - b"
proof -
  assume ab: "b \<le> a" "a < 2 ^ 64"
  then have "a + 2 ^ 64 - b = (a - b) + 2 ^ 64" by simp
  then have "usub a b = ((a - b) + 2 ^ 64) mod 2 ^ 64" by (simp only: usub_def)
  also have "\<dots> = (a - b) mod 2 ^ 64" by (rule mod_add_self2)
  also have "\<dots> = a - b" using ab by (intro mod_less) linarith
  finally show ?thesis .
qed

lemma rb_size_eq:
  assumes "rb_inv r"
  shows "rb_size r = (if rb_full r then max_size r else (rb_head r + max_size r - rb_tail r) mod max_size r)"
  using assms
proof (cases rule: rb_invE)
  case (1 b)
  have "usub (max_size r) (rb_tail r - rb_head r) = rb_head r + max_size r - rb_tail r" if "rb_head r < rb_tail r"
    using 1 that usub_le [of "rb_tail r - rb_head r" "max_size r"] by simp
  moreover have "(rb_head r + max_size r - rb_tail r) mod max_size r = rb_head r - rb_tail r" if "rb_tail r \<le> rb_head r"
  proof -
    have "rb_head r + max_size r - rb_tail r = (rb_head r - rb_tail r) + max_size r" using that by simp
    then have "(rb_head r + max_size r - rb_tail r) mod max_size r = ((rb_head r - rb_tail r) + max_size r) mod max_size r"
      by (simp only:)
    also have "\<dots> = (rb_head r - rb_tail r) mod max_size r" by (rule mod_add_self2)
    also have "\<dots> = rb_head r - rb_tail r" using 1 by (intro mod_less) linarith
    finally show ?thesis .
  qed
  ultimately show ?thesis using 1 by (auto simp: rb_size_def)
qed

lemma rb_size_le: "rb_inv r \<Longrightarrow> rb_size r \<le> max_size r"
  by (auto simp: rb_size_eq rb_inv_def less_imp_le)

lemma rb_head_eq:
  assumes "rb_inv r"
  shows "rb_head r = (rb_tail r + rb_size r) mod max_size r"
  using assms
proof (cases rule: rb_invE)
  case (1 b)
  have "(rb_tail r + (rb_head r + max_size r - rb_tail r) mod max_size r) mod max_size r
      = (rb_tail r + (rb_head r + max_size r - rb_tail r)) mod max_size r" by (simp add: mod_simps)
  then show ?thesis using 1 assms by (auto simp: rb_size_eq)
qed

lemma wrap_uadd:
  assumes "a < m" "s \<le> m" "m < 2 ^ 63"
  shows "wrap (uadd a s) m = Inr ((a + s) mod m)"
  using assms by (simp add: wrap_def uadd_def)

lemma mod_add_less:
  fixes t k j m :: nat
  assumes "(t + k) mod m = (t + j) mod m" "k < m" "j < m"
  shows "k = j"
  using assms
proof (induction k j rule: linorder_wlog)
  case (le k j)
  have "m dvd (t + j) - (t + k)" using le mod_eq_dvd_iff_nat [of "t + k" "t + j" m] by simp
  then have "m dvd j - k" by simp
  then show ?case using le dvd_imp_le [of m "j - k"] by linarith
qed simp

lemma write_mem_one: "rb_buf r = Some b \<Longrightarrow> h < length b \<Longrightarrow> write_mem h [c] r = (Inr (), r\<lparr>rb_buf := Some (b[h := c])\<rparr>)"
  by (simp add: write_mem_def bindE_get modE_def upd_conv_take_nth_drop)

text \<open>Putting a byte: appended, and the oldest byte overwritten when the buffer was full.\<close>

definition q_put :: "nat \<Rightarrow> byte \<Rightarrow> byte list \<Rightarrow> byte list" where
  "q_put n c q = (if length q < n then q @ [c] else tl q @ [c])"

lemma rb_put_refines:
  assumes "rb_inv r"
  shows "\<exists>r'. rb_put c r = (Inr (), r') \<and> rb_inv r' \<and> max_size r' = max_size r
    \<and> rb_content r' = q_put (max_size r) c (rb_content r)"
  using assms
proof (cases rule: rb_invE)
  case (1 b)
  let ?m = "max_size r" and ?h = "rb_head r" and ?t = "rb_tail r" and ?n = "rb_size r"
  let ?t' = "if rb_full r then (?t + 1) mod ?m else ?t" and ?h' = "(?h + 1) mod ?m"
  let ?r = "r\<lparr>rb_buf := Some (b[?h := c]), rb_tail := ?t', rb_head := ?h', rb_full := (?h' = ?t')\<rparr>"
  have run: "rb_put c r = (Inr (), ?r)"
    using 1 wrap_uadd [of ?t ?m 1] wrap_uadd [of ?h ?m 1]
    by (simp add: rb_put_def bindE_get seqE_def bindE_def write_mem_one advance_get_def advance_put_def liftE_def
        whenE_def modE_def retE_def getE_def)
  have lt: "?h' < ?m" "?t' < ?m" using 1 by auto
  have inv: "rb_inv ?r" using 1 lt by (simp add: rb_inv_def)
  have nle: "?n \<le> ?m" using rb_size_le [OF assms] .
  have hd: "?h = (?t + ?n) mod ?m" using rb_head_eq [OF assms] .
  show ?thesis
  proof (cases "rb_full r")
    case True
    then have n: "?n = ?m" by (simp add: rb_size_def)
    have ht: "?h = ?t" using 1 True by blast
    then have n': "rb_size ?r = ?m" using True by (simp add: rb_size_def)
    have nth: "rb_content ?r ! k = q_put ?m c (rb_content r) ! k" if k: "k < ?m" for k
    proof (cases "k = ?m - 1")
      case True
      have "((?t + 1) mod ?m + (?m - 1)) mod ?m = (?t + 1 + (?m - 1)) mod ?m" by (rule mod_add_left_eq)
      then have "((?t + 1) mod ?m + k) mod ?m = ?t" using 1 True by simp
      then show ?thesis using True n n' 1 ht \<open>rb_full r\<close> by (simp add: rb_content_def q_put_def nth_append)
    next
      case False
      then have k1: "k + 1 < ?m" using k by simp
      have e: "((?t + 1) mod ?m + k) mod ?m = (?t + (k + 1)) mod ?m" by (simp add: mod_simps ac_simps)
      have "(?t + (k + 1)) mod ?m \<noteq> (?t + 0) mod ?m" using mod_add_less [of ?t "k + 1" ?m 0] k1 1 by auto
      then have "(?t + (k + 1)) mod ?m \<noteq> ?h" using ht 1 by simp
      moreover have "k < ?m - Suc 0" using k1 by simp
      ultimately show ?thesis using e k1 n n' 1 ht \<open>rb_full r\<close>
        by (simp add: rb_content_def q_put_def nth_append nth_tl)
    qed
    have "rb_content ?r = q_put ?m c (rb_content r)"
      by (rule nth_equalityI) (use nth n n' 1(3) in \<open>auto simp: rb_content_def q_put_def\<close>)
    then show ?thesis using run inv by auto
  next
    case False
    have nlt: "?n < ?m" using 1 False assms by (auto simp: rb_size_eq)
    have h': "?h' = (?t + (?n + 1)) mod ?m" using hd by (simp add: mod_simps ac_simps)
    have n': "rb_size ?r = ?n + 1"
    proof (cases "?n + 1 = ?m")
      case True
      then have "?h' = ?t" using h' 1 by simp
      then show ?thesis using True False by (simp add: rb_size_def)
    next
      case ne: False
      then have "?n + 1 < ?m" using nlt by simp
      then have neq: "?h' \<noteq> ?t" using h' mod_add_less [of ?t "?n + 1" ?m 0] 1 by auto
      have "rb_size ?r = (?h' + ?m - ?t) mod ?m" using rb_size_eq [OF inv] neq False by simp
      also have "\<dots> = ?n + 1"
      proof -
        have "(?h' + ?m - ?t) mod ?m = ((?h' + (?m - ?t)) mod ?m)" using 1 by simp
        also have "\<dots> = (?t + (?n + 1) + (?m - ?t)) mod ?m" unfolding h' by (simp add: mod_simps)
        also have "?t + (?n + 1) + (?m - ?t) = (?n + 1) + ?m" using 1 by simp
        also have "((?n + 1) + ?m) mod ?m = (?n + 1) mod ?m" by (rule mod_add_self2)
        also have "\<dots> = ?n + 1" using \<open>?n + 1 < ?m\<close> by (rule mod_less)
        finally show ?thesis .
      qed
      finally show ?thesis .
    qed
    have nth: "rb_content ?r ! k = q_put ?m c (rb_content r) ! k" if k: "k < ?n + 1" for k
    proof (cases "k = ?n")
      case True
      then show ?thesis using hd n' nlt 1 False by (simp add: rb_content_def q_put_def nth_append)
    next
      case ne: False
      then have "(?t + k) mod ?m \<noteq> ?h" using mod_add_less [of ?t k ?m ?n] hd k nlt by auto
      then show ?thesis using n' ne k nlt 1 False by (simp add: rb_content_def q_put_def nth_append)
    qed
    have "rb_content ?r = q_put ?m c (rb_content r)"
      by (rule nth_equalityI) (use nth n' nlt in \<open>auto simp: rb_content_def q_put_def\<close>)
    then show ?thesis using run inv by auto
  qed
qed

text \<open>Getting a byte: the oldest one, removed.\<close>

lemma rb_content_Nil: "rb_inv r \<Longrightarrow> rb_content r = [] \<longleftrightarrow> rb_empty r"
  by (auto simp: rb_content_def rb_empty_def rb_size_def usub_le elim!: rb_invE)

lemma rb_size_get:
  assumes inv: "rb_inv r" and ne: "\<not> rb_empty r"
  defines "r' \<equiv> r\<lparr>rb_full := False, rb_tail := (rb_tail r + 1) mod max_size r\<rparr>"
  shows "rb_inv r' \<and> rb_size r = rb_size r' + 1"
  using inv
proof (cases rule: rb_invE)
  case (1 b)
  let ?m = "max_size r" and ?h = "rb_head r" and ?t = "rb_tail r" and ?n = "rb_size r"
  have inv': "rb_inv r'" using 1 by (simp add: rb_inv_def r'_def)
  have n0: "?n \<noteq> 0" using rb_content_Nil [OF inv] ne by (simp add: rb_content_def)
  have nm: "?n \<le> ?m" using rb_size_le [OF inv] .
  have lt: "(?t + 1) mod ?m < ?m" using 1 by simp
  have "rb_size r' = (?h + ?m - (?t + 1) mod ?m) mod ?m" using rb_size_eq [OF inv'] by (simp add: r'_def)
  also have "?h + ?m - (?t + 1) mod ?m = ?h + (?m - (?t + 1) mod ?m)" using lt by simp
  also have "\<dots> mod ?m = ((?t + ?n) mod ?m + (?m - (?t + 1) mod ?m)) mod ?m" using rb_head_eq [OF inv] by simp
  also have "\<dots> = (?n - 1 + (?t + 1) + (?m - (?t + 1) mod ?m)) mod ?m" using n0 by (simp add: mod_simps ac_simps)
  also have "\<dots> = (?n - 1 + ((?t + 1) mod ?m + (?m - (?t + 1) mod ?m))) mod ?m"
    by (metis (no_types, lifting) add.assoc mod_add_left_eq mod_add_right_eq)
  also have "\<dots> = (?n - 1 + ?m) mod ?m" using lt by simp
  also have "\<dots> = (?n - 1) mod ?m" by (rule mod_add_self2)
  also have "\<dots> = ?n - 1" using n0 nm 1 by (intro mod_less) linarith
  finally show ?thesis using inv' n0 by simp
qed

lemma rb_get_refines:
  assumes inv: "rb_inv r" and ne: "rb_content r \<noteq> []"
  shows "\<exists>r'. rb_get r = (Inr (hd (rb_content r)), r') \<and> rb_inv r' \<and> max_size r' = max_size r
    \<and> rb_content r' = tl (rb_content r)"
  using inv
proof (cases rule: rb_invE)
  case (1 b)
  let ?m = "max_size r" and ?t = "rb_tail r"
  let ?r = "r\<lparr>rb_full := False, rb_tail := (?t + 1) mod ?m\<rparr>"
  have ne': "\<not> rb_empty r" using ne rb_content_Nil [OF inv] by simp
  have sz: "rb_inv ?r" "rb_size r = rb_size ?r + 1" using rb_size_get [OF inv ne'] by auto
  have up: "[0..<rb_size r] = 0 # map Suc [0..<rb_size ?r]"
    using sz(2) by (simp add: upt_conv_Cons map_Suc_upt del: upt_Suc)
  have hd: "hd (rb_content r) = b ! ?t" using 1 by (simp add: rb_content_def up)
  have tl: "tl (rb_content r) = rb_content ?r" by (simp add: rb_content_def up mod_simps comp_def)
  have "rb_get r = (Inr (b ! ?t), ?r)"
    using 1 ne' wrap_uadd [of ?t ?m 1]
    by (simp add: rb_get_def bindE_get seqE_def bindE_def read_mem_def advance_get_def liftE_def modE_def retE_def
        getE_def hd_drop_conv_nth take_Suc)
  then show ?thesis using sz hd tl by auto
qed

lemma rb_get_empty: "rb_inv r \<Longrightarrow> rb_content r = [] \<Longrightarrow> rb_get r = (Inr 0, r)"
  by (simp add: rb_content_Nil rb_get_def bindE_get retE_def)

text \<open>The contract of a bounded queue that overwrites its oldest element when full.\<close>

locale bounded_queue =
  fixes put :: "'a \<Rightarrow> ('s, unit) eff" and get :: "('s, 'a) eff"
    and inv :: "'s \<Rightarrow> bool" and content :: "'s \<Rightarrow> 'a list" and cap :: "'s \<Rightarrow> nat"
  assumes put_ok: "inv s \<Longrightarrow> \<exists>s'. put c s = (Inr (), s') \<and> inv s' \<and> cap s' = cap s \<and>
      content s' = (if length (content s) < cap s then content s @ [c] else tl (content s) @ [c])"
    and get_ok: "inv s \<Longrightarrow> content s \<noteq> [] \<Longrightarrow> \<exists>s'. get s = (Inr (hd (content s)), s') \<and> inv s' \<and> cap s' = cap s \<and>
      content s' = tl (content s)"
    and bounded: "inv s \<Longrightarrow> length (content s) \<le> cap s"
begin

fun put_all :: "'a list \<Rightarrow> ('s, unit) eff" where
  "put_all [] = retE ()"
| "put_all (c # cs) = seqE (put c) (put_all cs)"

fun get_n :: "nat \<Rightarrow> ('s, 'a list) eff" where
  "get_n 0 = retE []"
| "get_n (Suc n) = bindE get (\<lambda>c. bindE (get_n n) (\<lambda>cs. retE (c # cs)))"

lemma put_all_ok:
  assumes "inv s"
  shows "\<exists>s'. put_all cs s = (Inr (), s') \<and> inv s' \<and> cap s' = cap s \<and>
    content s' = drop (length (content s) + length cs - cap s) (content s @ cs)"
  using assms
proof (induction cs arbitrary: s)
  case Nil
  then show ?case using bounded by (simp add: retE_def)
next
  case (Cons c cs)
  obtain s1 where 1: "put c s = (Inr (), s1)" "inv s1" "cap s1 = cap s"
    "content s1 = (if length (content s) < cap s then content s @ [c] else tl (content s) @ [c])"
    using put_ok [OF Cons.prems] by blast
  have le: "length (content s) \<le> cap s" "length (content s1) \<le> cap s"
    using bounded Cons.prems 1 by fastforce+
  obtain s2 where 2: "put_all cs s1 = (Inr (), s2)" "inv s2" "cap s2 = cap s"
    "content s2 = drop (length (content s1) + length cs - cap s) (content s1 @ cs)"
    using Cons.IH [OF 1(2)] 1(3) by auto
  have "content s2 = drop (length (content s) + length (c # cs) - cap s) (content s @ c # cs)"
  proof (cases "length (content s) < cap s")
    case True
    then show ?thesis using 1 2 by simp
  next
    case False
    then have eq: "length (content s) = cap s" using le by simp
    show ?thesis
    proof (cases "content s")
      case Nil
      then show ?thesis using 1 2 le False by simp
    next
      case (Cons a as)
      then show ?thesis using 1 2 eq by (simp flip: eq)
    qed
  qed
  then show ?case using 1 2 by (auto simp: seqE_def bindE_def)
qed

lemma get_n_ok:
  assumes "inv s" "n \<le> length (content s)"
  shows "\<exists>s'. get_n n s = (Inr (take n (content s)), s') \<and> inv s' \<and> content s' = drop n (content s)"
  using assms
proof (induction n arbitrary: s)
  case 0
  then show ?case by (simp add: retE_def)
next
  case (Suc n)
  obtain s1 where 1: "get s = (Inr (hd (content s)), s1)" "inv s1" "content s1 = tl (content s)"
    using get_ok [OF Suc.prems(1)] Suc.prems(2) by fastforce
  have "n \<le> length (content s1)" using Suc.prems 1 by simp
  from Suc.IH [OF 1(2) this] obtain s2 where 2: "get_n n s1 = (Inr (take n (content s1)), s2)" "inv s2"
    "content s2 = drop n (content s1)" by blast
  have "content s \<noteq> []" using Suc.prems by auto
  then have "hd (content s) # take n (tl (content s)) = take (Suc n) (content s)" by (cases "content s") auto
  then show ?case using 1 2 by (auto simp: bindE_def retE_def drop_Suc)
qed

theorem fifo:
  assumes "inv s" "content s = []" "length cs \<le> cap s"
  shows "\<exists>s'. seqE (put_all cs) (get_n (length cs)) s = (Inr cs, s') \<and> inv s' \<and> content s' = []"
proof -
  obtain s1 where 1: "put_all cs s = (Inr (), s1)" "inv s1" "content s1 = cs"
    using put_all_ok [OF assms(1), of cs] assms by auto
  then obtain s2 where "get_n (length cs) s1 = (Inr cs, s2)" "inv s2" "content s2 = []"
    using get_n_ok [OF 1(2), of "length cs"] by auto
  then show ?thesis using 1 by (simp add: seqE_def bindE_def)
qed

end

lemma length_rb_content [simp]: "length (rb_content r) = rb_size r"
  by (simp add: rb_content_def)

interpretation rbq: bounded_queue rb_put rb_get rb_inv rb_content capacity
proof
  fix s c assume "rb_inv s"
  then show "\<exists>s'. rb_put c s = (Inr (), s') \<and> rb_inv s' \<and> capacity s' = capacity s \<and>
      rb_content s' = (if length (rb_content s) < capacity s then rb_content s @ [c] else tl (rb_content s) @ [c])"
    using rb_put_refines [of s c] by (simp add: q_put_def capacity_def)
next
  fix s assume "rb_inv s" "rb_content s \<noteq> []"
  then show "\<exists>s'. rb_get s = (Inr (hd (rb_content s)), s') \<and> rb_inv s' \<and> capacity s' = capacity s \<and>
      rb_content s' = tl (rb_content s)"
    using rb_get_refines by (simp add: capacity_def)
next
  fix s assume "rb_inv s"
  then show "length (rb_content s) \<le> capacity s" using rb_size_le by (simp add: capacity_def)
qed

section \<open>The properties\<close>

primrec rb_put_all :: "byte list \<Rightarrow> unit rb" where
  "rb_put_all [] = retE ()"
| "rb_put_all (c # cs) = seqE (rb_put c) (rb_put_all cs)"

lemma rb_put_all_eq: "rb_put_all cs = rbq.put_all cs"
  by (induction cs) auto

text \<open>A buffer of three bytes, empty and half way round its block.\<close>

definition ring3 :: ring where
  "ring3 = \<lparr>rb_buf = Some [7, 8, 9], rb_full = False, rb_head = 2, rb_tail = 2, max_size = 3\<rparr>"

lemma ring3_inv: "rb_inv ring3" "rb_content ring3 = []" "capacity ring3 = 3"
  by (simp_all add: ring3_def rb_inv_def rb_content_def rb_size_def capacity_def)



text \<open>The buffer always holds the most recent data: after a sequence of single-byte puts into an empty buffer of
  capacity \<open>n\<close> it holds, in order, the last \<open>n\<close> bytes put.\<close>

theorem ring_buffer_keeps_latest:
  assumes "rb_inv r" "rb_content r = []"
  shows "\<exists>r'. rb_put_all cs r = (Inr (), r') \<and> rb_inv r' \<and> rb_content r' = drop (length cs - capacity r) cs"
  using rbq.put_all_ok [OF assms(1), of cs] assms(2) by (auto simp: rb_put_all_eq)

theorem ring_buffer_keeps_latest_witness:
  "rb_inv ring3 \<and> rb_content ring3 = [] \<and>
   (\<exists>r'. rb_put_all [1, 2, 3, 4, 5] ring3 = (Inr (), r') \<and> rb_content r' = [3, 4, 5])"
  using ring_buffer_keeps_latest [OF ring3_inv(1,2), of "[1, 2, 3, 4, 5]"] ring3_inv by auto

text \<open>The bulk \<open>put\<close> never sets \<open>full_\<close>: filling an empty buffer, whose indices are at the start of the
  block, with exactly its capacity in bytes leaves a buffer that reports itself empty and of size zero, so all the data
  is lost.\<close>

theorem bulk_put_of_capacity_loses_data:
  assumes "rb_inv r" "rb_empty r" "rb_head r = 0" "length s = capacity r"
  shows "\<exists>r'. rb_put_bytes s r = (Inr (), r') \<and> rb_buf r' = Some s \<and> rb_empty r' \<and> rb_size r' = 0"
  using assms(1)
proof (cases rule: rb_invE)
  case (1 b)
  then show ?thesis using assms wrap_uadd [of 0 "max_size r" "max_size r"]
    by (simp add: rb_put_bytes_def write_mem_def advance_put_def bindE_get seqE_def bindE_def liftE_def modE_def
        getE_def capacity_def rb_empty_def rb_size_def)
qed

theorem bulk_put_of_capacity_loses_data_witness:
  "\<exists>r'. rb_put_bytes [1, 2, 3] (ring3\<lparr>rb_head := 0, rb_tail := 0\<rparr>) = (Inr (), r') \<and> rb_empty r'"
  using bulk_put_of_capacity_loses_data [of "ring3\<lparr>rb_head := 0, rb_tail := 0\<rparr>" "[1, 2, 3]"]
  by (auto simp: ring3_def rb_inv_def rb_empty_def capacity_def)

end
