(* ===== verification/Thread_Pool.thy ===== *)
theory Thread_Pool
  imports Prelude
begin

text \<open>
  \<^verbatim>\<open>network/thread_pool.{h,cc}\<close>: a pool of worker threads that share a FIFO queue of tasks.

  The threads interleave, so the pool is a step relation.  The atomic steps are the critical sections of the
  code: the wait-and-pop of a worker, the push of \<open>enqueue\<close>, the store to \<open>working_\<close> in the
  destructor, and, outside the mutex, the notifications of the condition variable, the end of a task and a
  spurious wake-up.  A worker is at the test of \<open>condition_.wait\<close> (\<open>Checking\<close>), asleep in it
  (\<open>Blocked\<close>), running a task, or has returned.  \<open>notifies\<close> and \<open>notify_all\<close> are the notifications
  that a thread has still to send; \<open>submitted\<close> and \<open>started\<close> record history for the theorems and no
  step reads them.
\<close>

section \<open>The model\<close>

datatype 'a worker = Checking | Blocked | Running 'a | Exited

record 'a pool =
  tp_working :: bool
  tasks :: "'a list"
  workers :: "'a worker list"
  notifies :: nat
  notify_all :: bool
  submitted :: "'a list"
  started :: "'a list"

definition mk_thread_pool :: "nat \<Rightarrow> 'a pool" where
  "mk_thread_pool threads = \<lparr>tp_working = True, tasks = [], workers = replicate threads Checking,
     notifies = 0, notify_all = False, submitted = [], started = []\<rparr>"

text \<open>The critical section of \<open>enqueue\<close>; \<open>notify_one\<close> is still to come.\<close>

definition enqueue :: "'a \<Rightarrow> ('a pool, unit) eff" where
  "enqueue t = bindE (getE tp_working) (\<lambda>w.
     seqE (guardE w Std_exception)
       (modE (\<lambda>p. p\<lparr>tasks := tasks p @ [t], submitted := submitted p @ [t], notifies := Suc (notifies p)\<rparr>)))"

text \<open>The body of a worker's loop up to the end of its critical section: sleep when the predicate of the wait is
  false, return when the pool has stopped and nothing is left, otherwise take the front task.\<close>

definition worker_check :: "nat \<Rightarrow> 'a pool \<Rightarrow> 'a pool" where
  "worker_check i p =
     (if tp_working p \<and> tasks p = [] then p\<lparr>workers := (workers p)[i := Blocked]\<rparr>
      else case tasks p of
        [] \<Rightarrow> p\<lparr>workers := (workers p)[i := Exited]\<rparr>
      | t # ts \<Rightarrow> p\<lparr>tasks := ts, workers := (workers p)[i := Running t], started := started p @ [t]\<rparr>)"

definition set_worker :: "nat \<Rightarrow> 'a worker \<Rightarrow> 'a pool \<Rightarrow> 'a pool" where
  "set_worker i w p = p\<lparr>workers := (workers p)[i := w]\<rparr>"

definition wake :: "'a worker \<Rightarrow> 'a worker" where
  "wake w = (case w of Blocked \<Rightarrow> Checking | _ \<Rightarrow> w)"

definition stop_pool :: "'a pool \<Rightarrow> 'a pool" where
  "stop_pool p = p\<lparr>tp_working := False, notify_all := True\<rparr>"

definition wake_all :: "'a pool \<Rightarrow> 'a pool" where
  "wake_all p = p\<lparr>workers := map wake (workers p), notify_all := False\<rparr>"

text \<open>The destructor returns once it has joined every worker.\<close>

definition joined :: "'a pool \<Rightarrow> bool" where
  "joined p \<longleftrightarrow> \<not> tp_working p \<and> (\<forall>w \<in> set (workers p). w = Exited)"

text \<open>The steps of the workers, which no client has to trigger, and those of the clients.\<close>

inductive pool_step :: "'a pool \<Rightarrow> 'a pool \<Rightarrow> bool" where
  check: "i < length (workers p) \<Longrightarrow> workers p ! i = Checking \<Longrightarrow> pool_step p (worker_check i p)"
| finish: "i < length (workers p) \<Longrightarrow> workers p ! i = Running t \<Longrightarrow> pool_step p (set_worker i Checking p)"
| one: "notifies p = Suc n \<Longrightarrow> i < length (workers p) \<Longrightarrow> workers p ! i = Blocked \<Longrightarrow>
    pool_step p (set_worker i Checking (p\<lparr>notifies := n\<rparr>))"
| none: "notifies p = Suc n \<Longrightarrow> Blocked \<notin> set (workers p) \<Longrightarrow> pool_step p (p\<lparr>notifies := n\<rparr>)"
| all: "notify_all p \<Longrightarrow> pool_step p (wake_all p)"

inductive pool_env :: "'a pool \<Rightarrow> 'a pool \<Rightarrow> bool" where
  enqueue: "enqueue t p = (Inr (), p') \<Longrightarrow> pool_env p p'"
| stop: "tp_working p \<Longrightarrow> pool_env p (stop_pool p)"
| spurious: "i < length (workers p) \<Longrightarrow> workers p ! i = Blocked \<Longrightarrow> pool_env p (set_worker i Checking p)"

inductive pool_reachable :: "nat \<Rightarrow> 'a pool \<Rightarrow> bool" for threads where
  init: "pool_reachable threads (mk_thread_pool threads)"
| step: "pool_reachable threads p \<Longrightarrow> pool_step p p' \<Longrightarrow> pool_reachable threads p'"
| env: "pool_reachable threads p \<Longrightarrow> pool_env p p' \<Longrightarrow> pool_reachable threads p'"

inductive_cases pool_stepE: "pool_step p p'"
inductive_cases pool_envE: "pool_env p p'"

section \<open>The invariant\<close>

definition awake :: "'a worker \<Rightarrow> bool" where
  "awake w \<longleftrightarrow> (case w of Checking \<Rightarrow> True | Running _ \<Rightarrow> True | _ \<Rightarrow> False)"

definition pool_inv :: "nat \<Rightarrow> 'a pool \<Rightarrow> bool" where
  "pool_inv n p \<longleftrightarrow> length (workers p) = n
     \<and> submitted p = started p @ tasks p
     \<and> (tp_working p \<longrightarrow> Exited \<notin> set (workers p) \<and> \<not> notify_all p)
     \<and> (Exited \<in> set (workers p) \<longrightarrow> tasks p = [])
     \<and> (\<not> tp_working p \<longrightarrow> notify_all p \<or> Blocked \<notin> set (workers p))
     \<and> (tasks p \<noteq> [] \<longrightarrow> n = 0 \<or> 0 < notifies p \<or> notify_all p \<or> (\<exists>w \<in> set (workers p). awake w))"

lemma enqueue_eq: "enqueue t p = (if tp_working p then (Inr (), p\<lparr>tasks := tasks p @ [t],
    submitted := submitted p @ [t], notifies := Suc (notifies p)\<rparr>) else (Inl Std_exception, p))"
  by (simp add: enqueue_def bindE_get seqE_guard modE_def)

lemma awake_simps [simp]: "awake Checking" "awake (Running t)" "\<not> awake Blocked" "\<not> awake Exited"
  by (simp_all add: awake_def)

lemma wake_simps [simp]: "wake Blocked = Checking" "wake Checking = Checking" "wake (Running t) = Running t"
  "wake Exited = Exited" "wake w = Exited \<longleftrightarrow> w = Exited" "Exited = wake w \<longleftrightarrow> w = Exited" "wake w \<noteq> Blocked"
  "Blocked \<noteq> wake w"
  by (auto simp: wake_def split: worker.splits)

lemma not_awake: "\<not> awake w \<longleftrightarrow> w = Blocked \<or> w = Exited"
  by (cases w) auto

lemma in_set_update: "x \<in> set (ws[i := w]) \<Longrightarrow> x = w \<or> x \<in> set ws"
  using set_update_subset_insert [of ws i w] by auto

lemma pool_inv_set_awake:
  assumes "pool_inv n p" "i < length (workers p)" "w \<noteq> Blocked" "w \<noteq> Exited"
  shows "pool_inv n (set_worker i w (p\<lparr>notifies := k\<rparr>))"
proof -
  have "w \<in> set ((workers p)[i := w])" using assms(2) by (rule set_update_memI)
  moreover have "awake w" using assms not_awake by blast
  ultimately have "\<exists>x \<in> set ((workers p)[i := w]). awake x" by blast
  then show ?thesis
    using assms by (auto simp: pool_inv_def set_worker_def dest!: in_set_update)
qed

lemma pool_inv_check:
  assumes inv: "pool_inv n p" and i: "i < length (workers p)" "workers p ! i = Checking"
  shows "pool_inv n (worker_check i p)"
proof -
  have mem: "w \<in> set ((workers p)[i := w])" for w using i(1) by (rule set_update_memI)
  consider "tp_working p" "tasks p = []" | "\<not> tp_working p" "tasks p = []"
    | t ts where "tasks p = t # ts" by (cases "tasks p") auto
  then show ?thesis
  proof cases
    case 3
    have "\<exists>w \<in> set ((workers p)[i := Running t]). awake w" using mem by force
    then show ?thesis using inv 3 i by (auto simp: pool_inv_def worker_check_def dest!: in_set_update)
  qed (use inv i in \<open>auto simp: pool_inv_def worker_check_def dest!: in_set_update\<close>)
qed

lemma pool_inv_step: "pool_inv n p \<Longrightarrow> pool_step p p' \<Longrightarrow> pool_inv n p'"
proof (erule pool_stepE)
  fix i assume "pool_inv n p" "p' = worker_check i p" "i < length (workers p)" "workers p ! i = Checking"
  then show ?thesis using pool_inv_check by blast
next
  fix i t assume "pool_inv n p" "p' = set_worker i Checking p" "i < length (workers p)" "workers p ! i = Running t"
  then show ?thesis using pool_inv_set_awake [of n p i Checking "notifies p"] by simp
next
  fix k i assume "pool_inv n p" "p' = set_worker i Checking (p\<lparr>notifies := k\<rparr>)" "i < length (workers p)"
  then show ?thesis using pool_inv_set_awake [of n p i Checking k] by simp
next
  fix k assume inv: "pool_inv n p" and p': "p' = p\<lparr>notifies := k\<rparr>" and nb: "Blocked \<notin> set (workers p)"
  have "\<exists>w \<in> set (workers p). awake w" if "n \<noteq> 0" "tasks p \<noteq> []"
  proof -
    have "workers p \<noteq> []" "Exited \<notin> set (workers p)" using inv that by (auto simp: pool_inv_def)
    then show ?thesis using nb by (metis last_in_set not_awake)
  qed
  then show ?thesis using inv nb by (auto simp: pool_inv_def p')
next
  assume inv: "pool_inv n p" and p': "p' = wake_all p" and "notify_all p"
  have "\<exists>w \<in> set (workers p'). awake w" if "n \<noteq> 0" "tasks p \<noteq> []"
  proof -
    have "workers p' \<noteq> []" "Exited \<notin> set (workers p')" "Blocked \<notin> set (workers p')"
      using inv that by (auto simp: pool_inv_def p' wake_all_def)
    then show ?thesis by (metis last_in_set not_awake)
  qed
  then show ?thesis using inv \<open>notify_all p\<close> by (auto simp: pool_inv_def p' wake_all_def)
qed

lemma pool_inv_env: "pool_inv n p \<Longrightarrow> pool_env p p' \<Longrightarrow> pool_inv n p'"
proof (erule pool_envE)
  fix t assume "pool_inv n p" "enqueue t p = (Inr (), p')"
  then show ?thesis by (auto simp: enqueue_eq pool_inv_def split: if_splits)
next
  assume "pool_inv n p" "p' = stop_pool p"
  then show ?thesis by (auto simp: pool_inv_def stop_pool_def)
next
  fix i assume "pool_inv n p" "p' = set_worker i Checking p" "i < length (workers p)"
  then show ?thesis using pool_inv_set_awake [of n p i Checking "notifies p"] by simp
qed

lemma pool_inv_reachable: "pool_reachable n p \<Longrightarrow> pool_inv n p"
proof (induction rule: pool_reachable.induct)
  case init
  show ?case by (simp add: pool_inv_def mk_thread_pool_def)
qed (blast intro: pool_inv_step pool_inv_env)+

section \<open>Shutdown\<close>

definition tp_step :: "'a pool \<Rightarrow> 'a pool \<Rightarrow> bool" where
  "tp_step p p' \<longleftrightarrow> pool_step p p' \<or> pool_env p p'"

fun weight :: "'a worker \<Rightarrow> nat" where
  "weight Exited = 0"
| "weight Checking = 1"
| "weight (Running _) = 2"
| "weight Blocked = 3"

definition work_left :: "'a pool \<Rightarrow> nat" where
  "work_left p = 3 * length (tasks p) + sum_list (map weight (workers p)) + notifies p + (if notify_all p then 1 else 0)"

lemma sum_weight_update:
  "i < length ws \<Longrightarrow> sum_list (map weight (ws[i := w])) + weight (ws ! i) = sum_list (map weight ws) + weight w"
proof (induction ws arbitrary: i)
  case (Cons a ws)
  then show ?case by (cases i) auto
qed simp

lemma sum_weight_wake: "sum_list (map weight (map wake ws)) \<le> sum_list (map weight ws)"
proof (induction ws)
  case (Cons a ws)
  then show ?case by (cases a) auto
qed simp

lemma work_left_step:
  assumes "\<not> tp_working p" "tp_step p p'"
  shows "work_left p' < work_left p" and "\<not> tp_working p'" and "submitted p' = submitted p"
    and "length (workers p') = length (workers p)"
proof -
  have "work_left p' < work_left p \<and> \<not> tp_working p' \<and> submitted p' = submitted p \<and>
      length (workers p') = length (workers p)"
    using assms(2) unfolding tp_step_def
  proof (elim disjE pool_stepE pool_envE)
    fix i assume p': "p' = worker_check i p" and i: "i < length (workers p)" "workers p ! i = Checking"
    show ?thesis
    proof (cases "tasks p")
      case Nil
      then show ?thesis using sum_weight_update [OF i(1), of Exited] i assms(1)
        by (simp add: p' worker_check_def work_left_def)
    next
      case (Cons t ts)
      then show ?thesis using sum_weight_update [OF i(1), of "Running t"] i assms(1)
        by (simp add: p' worker_check_def work_left_def)
    qed
  next
    fix i t assume "p' = set_worker i Checking p" and i: "i < length (workers p)" "workers p ! i = Running t"
    then show ?thesis using sum_weight_update [OF i(1), of Checking] assms(1) by (simp add: set_worker_def work_left_def)
  next
    fix n i assume "p' = set_worker i Checking (p\<lparr>notifies := n\<rparr>)" "notifies p = Suc n"
      and i: "i < length (workers p)" "workers p ! i = Blocked"
    then show ?thesis using sum_weight_update [OF i(1), of Checking] assms(1) by (simp add: set_worker_def work_left_def)
  next
    assume "p' = wake_all p" "notify_all p"
    then show ?thesis using sum_weight_wake [of "workers p"] assms(1) by (simp add: wake_all_def work_left_def)
  next
    fix i assume "p' = set_worker i Checking p" and i: "i < length (workers p)" "workers p ! i = Blocked"
    then show ?thesis using sum_weight_update [OF i(1), of Checking] assms(1) by (simp add: set_worker_def work_left_def)
  qed (use assms(1) in \<open>auto simp: work_left_def enqueue_eq\<close>)
  then show "work_left p' < work_left p" "\<not> tp_working p'" "submitted p' = submitted p"
    "length (workers p') = length (workers p)" by auto
qed

lemma stopped_progress:
  assumes "pool_inv n p" "\<not> tp_working p" "\<not> joined p"
  shows "\<exists>p'. pool_step p p'"
proof -
  obtain w where "w \<in> set (workers p)" "w \<noteq> Exited" using assms by (auto simp: joined_def)
  then obtain i where i: "i < length (workers p)" "workers p ! i = w" by (auto simp: in_set_conv_nth)
  show ?thesis
  proof (cases w)
    case Blocked
    then have "notify_all p" using assms \<open>w \<in> set (workers p)\<close> by (auto simp: pool_inv_def)
    then show ?thesis by (blast intro: pool_step.all)
  qed (use i \<open>w \<noteq> Exited\<close> in \<open>auto intro: pool_step.intros\<close>)
qed

lemma stopped_reach:
  assumes "tp_step\<^sup>*\<^sup>* p p'" "pool_inv n p" "\<not> tp_working p"
  shows "pool_inv n p' \<and> \<not> tp_working p' \<and> submitted p' = submitted p"
  using assms
proof (induction rule: rtranclp_induct)
  case (step p1 p2)
  then show ?case using work_left_step [of p1 p2] pool_inv_step [of n p1 p2] pool_inv_env [of n p1 p2]
    by (auto simp: tp_step_def)
qed simp

lemma no_infinite_stopped_run:
  assumes "\<And>i. tp_step (f i) (f (Suc i))" "\<not> tp_working (f 0)"
  shows False
proof -
  have stopped: "\<not> tp_working (f i)" for i
    by (induction i) (use assms work_left_step(2) in blast)+
  have "work_left (f i) + i \<le> work_left (f 0)" for i
  proof (induction i)
    case (Suc i)
    then show ?case using work_left_step(1) [OF stopped assms(1), of i] by simp
  qed simp
  from this [of "Suc (work_left (f 0))"] show False by simp
qed

section \<open>The properties\<close>

lemma reachable_stop: "pool_reachable n p \<Longrightarrow> tp_working p \<Longrightarrow> pool_reachable n (stop_pool p)"
  by (blast intro: pool_reachable.env pool_env.stop)

lemma reachable_enqueue: "pool_reachable n p \<Longrightarrow> tp_working p \<Longrightarrow> pool_reachable n (snd (enqueue t p))"
  by (rule pool_reachable.env [of n p]) (auto simp: enqueue_eq intro: pool_env.enqueue)

definition pool_demo :: "nat pool" where
  "pool_demo = stop_pool (snd (enqueue 8 (snd (enqueue 7 (mk_thread_pool 2)))))"

lemma pool_demo_reachable: "pool_reachable 2 pool_demo" "\<not> tp_working pool_demo"
  unfolding pool_demo_def
  by (intro reachable_stop reachable_enqueue pool_reachable.init;
      simp add: enqueue_eq mk_thread_pool_def stop_pool_def)
    (simp add: stop_pool_def)

text \<open>C14: in every reachable state of a thread pool, whatever the interleaving, the tasks taken by the workers are a
  prefix of the tasks submitted and the queue is the rest, in order of submission; and when a task is waiting in a
  pool that has workers, no wake-up is lost: a worker is awake or a notification is under way.\<close>

theorem thread_pool_fifo_no_lost_wakeup:
  assumes "pool_reachable n p"
  shows "submitted p = started p @ tasks p \<and>
    (tasks p = [] \<or> n = 0 \<or> 0 < notifies p \<or> notify_all p \<or> (\<exists>w \<in> set (workers p). awake w))"
  using pool_inv_reachable [OF assms] by (auto simp: pool_inv_def)

theorem thread_pool_fifo_no_lost_wakeup_witness:
  "pool_reachable 2 pool_demo \<and> submitted pool_demo = started pool_demo @ tasks pool_demo \<and> tasks pool_demo = [7, 8]"
  using thread_pool_fifo_no_lost_wakeup [OF pool_demo_reachable(1)] pool_demo_reachable
  by (simp add: pool_demo_def enqueue_eq mk_thread_pool_def stop_pool_def)

text \<open>C13: once the destructor has cleared \<open>working_\<close>, every run of the pool ends, whatever the interleaving and the
  spurious wake-ups; it can only end with all workers joined, and then, if the pool has a worker, every task
  ever submitted has been started.\<close>

theorem thread_pool_shutdown:
  assumes "pool_reachable n p" "\<not> tp_working p"
  shows "\<not> (\<exists>f. f 0 = p \<and> (\<forall>i. tp_step (f i) (f (Suc i)))) \<and>
    (\<forall>p'. tp_step\<^sup>*\<^sup>* p p' \<and> \<not> (\<exists>q. tp_step p' q) \<longrightarrow> joined p' \<and> (0 < n \<longrightarrow> started p' = submitted p))"
proof -
  have inv: "pool_inv n p" using pool_inv_reachable [OF assms(1)] .
  have "joined p' \<and> (0 < n \<longrightarrow> started p' = submitted p)" if run: "tp_step\<^sup>*\<^sup>* p p'" and stuck: "\<not> (\<exists>q. tp_step p' q)" for p'
  proof -
    have p': "pool_inv n p'" "\<not> tp_working p'" "submitted p' = submitted p"
      using stopped_reach [OF run inv assms(2)] by auto
    then have j: "joined p'" using stopped_progress stuck by (auto simp: tp_step_def)
    then have "Exited \<in> set (workers p')" if "0 < n"
      using that p'(1) by (cases "workers p'") (auto simp: joined_def pool_inv_def)
    then show ?thesis using j p' by (auto simp: pool_inv_def)
  qed
  moreover have "\<not> (\<exists>f. f 0 = p \<and> (\<forall>i. tp_step (f i) (f (Suc i))))"
    using no_infinite_stopped_run assms(2) by blast
  ultimately show ?thesis by blast
qed

theorem thread_pool_shutdown_witness:
  "pool_reachable 2 pool_demo \<and> \<not> tp_working pool_demo \<and>
   \<not> (\<exists>f. f 0 = pool_demo \<and> (\<forall>i. tp_step (f i) (f (Suc i))))"
  using thread_pool_shutdown [OF pool_demo_reachable] pool_demo_reachable by blast

end
