(* ===== verification/Dispatcher.thy ===== *)
theory Dispatcher
  imports Thread_Pool
begin

text \<open>
  \<^verbatim>\<open>network/dispatcher.{h,cc}\<close>: the timers of the reactor.  A timer is due at a time point in
  milliseconds; due timers are handed to the thread pool.  A repeatable timer is a node of
  \<open>repeatable_timers_\<close> plus an entry of \<open>timers_\<close> whose closure holds a pointer to that node: the
  pointer is the node's key here, and dangles once the node is erased.

  \<open>std::map\<close> iterates in key order, so the maps are association lists in key order.  Each reading of the
  clock is an argument \<open>now\<close>.  \<open>int64_t\<close> arithmetic outside \<open>std::atomic\<close> overflows into
  undefined behaviour; the atomic \<open>time_seq_\<close> wraps; storing an \<open>int64_t\<close> into an \<open>int\<close> keeps the low
  32 bits.
\<close>

section \<open>Ordered maps\<close>

type_synonym timer_id = "int \<times> int"

definition tid_less :: "timer_id \<Rightarrow> timer_id \<Rightarrow> bool" where
  "tid_less a b \<longleftrightarrow> fst a < fst b \<or> fst a = fst b \<and> snd a < snd b"

text \<open>\<open>m[k] = v\<close>, \<open>m.insert({k, v})\<close> (which keeps an element already there) and \<open>m.erase(m.find(k))\<close>.\<close>

fun om_assign :: "timer_id \<Rightarrow> 'v \<Rightarrow> (timer_id \<times> 'v) list \<Rightarrow> (timer_id \<times> 'v) list" where
  "om_assign k v [] = [(k, v)]"
| "om_assign k v ((k', v') # m) =
     (if k = k' then (k, v) # m else if tid_less k k' then (k, v) # (k', v') # m else (k', v') # om_assign k v m)"

definition om_insert :: "timer_id \<Rightarrow> 'v \<Rightarrow> (timer_id \<times> 'v) list \<Rightarrow> (timer_id \<times> 'v) list" where
  "om_insert k v m = (case map_of m k of None \<Rightarrow> om_assign k v m | Some _ \<Rightarrow> m)"

definition om_erase :: "timer_id \<Rightarrow> (timer_id \<times> 'v) list \<Rightarrow> (timer_id \<times> 'v) list" where
  "om_erase k m = filter (\<lambda>e. fst e \<noteq> k) m"

section \<open>The model\<close>

datatype 'a dtask = User 'a | Repeat timer_id | Moved

record 'a repeatable_task =
  rt_at :: int
  rt_interval :: int
  rt_timer_id :: timer_id
  rt_callback :: 'a

record 'a dispatcher =
  d_working :: bool
  wake_up :: nat
  time_seq :: int
  next_timeout :: int
  timers :: "(timer_id \<times> 'a dtask) list"
  repeatable_timers :: "(timer_id \<times> 'a repeatable_task) list"
  pool :: "'a dtask pool"

type_synonym ('a, 'b) disp = "('a dispatcher, 'b) eff"

definition MAX_TIMEOUTS :: int where
  "MAX_TIMEOUTS = 2 ^ 30"

definition DEFAULT_TIMEOUTS :: int where
  "DEFAULT_TIMEOUTS = 10000"

definition c_int64 :: "int \<Rightarrow> int res" where
  "c_int64 i = (if - (2 ^ 63) \<le> i \<and> i < 2 ^ 63 then Inr i else Inl Undefined_behaviour)"

definition to_int64 :: "int \<Rightarrow> int" where
  "to_int64 i = sint (word_of_int i :: 64 word)"

definition mk_dispatcher :: "nat \<Rightarrow> 'a dispatcher" where
  "mk_dispatcher threads = \<lparr>d_working = True, wake_up = 0, time_seq = 0, next_timeout = MAX_TIMEOUTS, timers = [],
     repeatable_timers = [], pool = mk_thread_pool threads\<rparr>"

definition update_next_timeout :: "int \<Rightarrow> ('a, unit) disp" where
  "update_next_timeout now = bindE (getE timers) (\<lambda>ts. case ts of
       [] \<Rightarrow> modE (\<lambda>d. d\<lparr>next_timeout := MAX_TIMEOUTS\<rparr>)
     | (tid, _) # _ \<Rightarrow> bindE (liftE (\<lambda>_. c_int64 (fst tid - now))) (\<lambda>diff.
         let nt = to_int32 diff in modE (\<lambda>d. d\<lparr>next_timeout := (if nt \<le> 0 then 0 else nt)\<rparr>)))"

text \<open>\<open>++time_seq_\<close>.\<close>

definition next_seq :: "('a, int) disp" where
  "next_seq = seqE (modE (\<lambda>d. d\<lparr>time_seq := to_int64 (time_seq d + 1)\<rparr>)) (getE time_seq)"

text \<open>\<open>repeat\<close> ends with the call of the callback: the value is the callback to run.\<close>

definition repeat :: "timer_id \<Rightarrow> int \<Rightarrow> ('a, 'a) disp" where
  "repeat key now = bindE (getE (\<lambda>d. map_of (repeatable_timers d) key)) (\<lambda>n. case n of
      None \<Rightarrow> throwE Undefined_behaviour
    | Some rt \<Rightarrow> bindE (liftE (\<lambda>_. c_int64 (rt_at rt + rt_interval rt))) (\<lambda>at. bindE next_seq (\<lambda>sq.
        seqE (modE (\<lambda>d. d\<lparr>repeatable_timers :=
                om_assign key (rt\<lparr>rt_at := at, rt_timer_id := (at, sq)\<rparr>) (repeatable_timers d),
              timers := om_assign (at, sq) (Repeat key) (timers d)\<rparr>)) (
        seqE (update_next_timeout now) (retE (rt_callback rt))))))"

definition run_at :: "int \<Rightarrow> 'a \<Rightarrow> int \<Rightarrow> int \<Rightarrow> ('a, timer_id) disp" where
  "run_at tp t interval now = bindE (getE d_working) (\<lambda>w.
     if \<not> w then retE (0, 0)
     else if interval \<noteq> 0 then
       bindE (liftE (\<lambda>_. c_int64 (- tp))) (\<lambda>neg. bindE next_seq (\<lambda>s1. bindE next_seq (\<lambda>s2.
         seqE (modE (\<lambda>d. d\<lparr>repeatable_timers := om_assign (neg, s1)
                 \<lparr>rt_at = tp, rt_interval = interval, rt_timer_id = (tp, s2), rt_callback = t\<rparr> (repeatable_timers d),
               timers := om_assign (tp, s2) (Repeat (neg, s1)) (timers d)\<rparr>)) (
         seqE (update_next_timeout now) (retE (neg, s1))))))
     else bindE next_seq (\<lambda>sq.
         seqE (modE (\<lambda>d. d\<lparr>timers := om_insert (tp, sq) (User t) (timers d)\<rparr>)) (
         seqE (update_next_timeout now) (retE (tp, sq)))))"

definition run_after :: "int \<Rightarrow> 'a \<Rightarrow> int \<Rightarrow> int \<Rightarrow> ('a, timer_id) disp" where
  "run_after ms t now now' = bindE (liftE (\<lambda>_. c_int64 (now + ms))) (\<lambda>tp. run_at tp t 0 now')"

definition run_every :: "int \<Rightarrow> int \<Rightarrow> 'a \<Rightarrow> int \<Rightarrow> int \<Rightarrow> ('a, timer_id) disp" where
  "run_every ms interval t now now' = bindE (liftE (\<lambda>_. c_int64 (now + ms))) (\<lambda>tp. run_at tp t interval now')"

text \<open>A negative time marks a repeatable timer.  \<open>find\<close> of an absent one gives \<open>end()\<close>, which
  \<open>p->second\<close> dereferences.\<close>

definition cancel :: "timer_id \<Rightarrow> ('a, bool) disp" where
  "cancel tid = bindE (getE (\<lambda>d. d)) (\<lambda>d.
     if fst tid < 0 then
       (case map_of (repeatable_timers d) tid of
          None \<Rightarrow> throwE Undefined_behaviour
        | Some rt \<Rightarrow> seqE (modE (\<lambda>d. d\<lparr>timers := om_erase (rt_timer_id rt) (timers d),
              repeatable_timers := om_erase tid (repeatable_timers d)\<rparr>)) (retE True))
     else
       (case map_of (timers d) tid of
          None \<Rightarrow> retE False
        | Some _ \<Rightarrow> seqE (modE (\<lambda>d. d\<lparr>timers := om_erase tid (timers d)\<rparr>)) (retE True)))"

definition wakeup :: "('a, unit) disp" where
  "wakeup = modE (\<lambda>d. d\<lparr>wake_up := Suc (wake_up d)\<rparr>)"

definition d_exit :: "('a, unit) disp" where
  "d_exit = seqE (modE (\<lambda>d. d\<lparr>d_working := False\<rparr>)) wakeup"

text \<open>\<open>thread_pool_->enqueue\<close> of the front timer; the call moves the closure out of the map before it can throw.\<close>

definition hand_over :: "'a dtask \<Rightarrow> ('a, unit) disp" where
  "hand_over t d = (case enqueue t (pool d) of
      (Inr u, p) \<Rightarrow> (Inr u, d\<lparr>pool := p\<rparr>)
    | (Inl e, p) \<Rightarrow> (Inl e, d\<lparr>pool := p, timers := (case timers d of [] \<Rightarrow> [] | (k, _) # ts \<Rightarrow> (k, Moved) # ts)\<rparr>))"

fun fire_loop :: "int \<Rightarrow> (timer_id \<times> 'a dtask) list \<Rightarrow> ('a, unit) disp" where
  "fire_loop now [] = retE ()"
| "fire_loop now ((tid, t) # ts) =
     (if tid_less tid (now, MAX_TIMEOUTS)
      then seqE (hand_over t) (seqE (modE (\<lambda>d. d\<lparr>timers := ts\<rparr>)) (fire_loop now ts))
      else retE ())"

definition handle_timeout :: "int \<Rightarrow> int \<Rightarrow> ('a, unit) disp" where
  "handle_timeout now now' = bindE (getE timers) (\<lambda>ts. seqE (fire_loop now ts) (update_next_timeout now'))"

section \<open>Ordered maps: lemmas\<close>

abbreviation om_sorted :: "(timer_id \<times> 'v) list \<Rightarrow> bool" where
  "om_sorted m \<equiv> sorted_wrt tid_less (map fst m)"

lemma tid_less_trans: "tid_less a b \<Longrightarrow> tid_less b c \<Longrightarrow> tid_less a c"
  by (auto simp: tid_less_def)

lemma tid_less_irrefl [simp]: "\<not> tid_less a a"
  by (simp add: tid_less_def)

lemma tid_less_linear: "a \<noteq> b \<Longrightarrow> \<not> tid_less a b \<Longrightarrow> tid_less b a"
  by (auto simp: tid_less_def prod_eq_iff)

lemma om_sorted_distinct: "om_sorted m \<Longrightarrow> distinct (map fst m)"
proof (induction m)
  case (Cons e m)
  then show ?case by (auto simp: image_iff)
qed simp

lemma keys_om_assign: "fst ` set (om_assign k v m) = insert k (fst ` set m)"
  by (induction k v m rule: om_assign.induct) auto

lemma map_of_om_assign: "om_sorted m \<Longrightarrow> map_of (om_assign k v m) = (map_of m)(k \<mapsto> v)"
proof (induction k v m rule: om_assign.induct)
  case (2 k v k' v' m)
  then show ?case by (auto simp: fun_eq_iff)
qed simp

lemma om_sorted_assign: "om_sorted m \<Longrightarrow> om_sorted (om_assign k v m)"
proof (induction k v m rule: om_assign.induct)
  case (2 k v k' v' m)
  consider "k = k'" | "k \<noteq> k'" "tid_less k k'" | "k \<noteq> k'" "\<not> tid_less k k'" by blast
  then show ?case
  proof cases
    case 2
    then show ?thesis using "2.prems" by (auto intro: tid_less_trans)
  next
    case 3
    then have "tid_less k' k" by (rule tid_less_linear)
    moreover have "om_sorted (om_assign k v m)" using 3 2 by simp
    moreover have "tid_less k' (fst x)" if "x \<in> set (om_assign k v m)" for x
    proof -
      have "fst x \<in> insert k (fst ` set m)" using that keys_om_assign [of k v m] by blast
      then show ?thesis using \<open>tid_less k' k\<close> "2.prems" by auto
    qed
    ultimately show ?thesis using 3 by simp
  qed (use "2.prems" in simp)
qed simp

lemma om_sorted_insert: "om_sorted m \<Longrightarrow> om_sorted (om_insert k v m)"
  by (simp add: om_insert_def om_sorted_assign split: option.split)

lemma om_sorted_erase: "om_sorted m \<Longrightarrow> om_sorted (om_erase k m)"
  by (simp add: om_erase_def sorted_wrt_map sorted_wrt_filter)

lemma om_erase_absent: "map_of m k = None \<Longrightarrow> om_erase k m = m"
  by (auto simp: om_erase_def map_of_eq_None_iff intro!: filter_True)

lemma om_erase_assign: "map_of m k = None \<Longrightarrow> om_erase k (om_assign k v m) = m"
proof (induction k v m rule: om_assign.induct)
  case (2 k v k' v' m)
  then show ?case using om_erase_absent [of m k] by (auto simp: om_erase_def split: if_splits)
qed (simp add: om_erase_def)

lemma sorted_takeWhile_filter:
  "om_sorted m \<Longrightarrow> takeWhile (\<lambda>e. tid_less (fst e) b) m = filter (\<lambda>e. tid_less (fst e) b) m \<and>
     dropWhile (\<lambda>e. tid_less (fst e) b) m = filter (\<lambda>e. \<not> tid_less (fst e) b) m"
proof (induction m)
  case (Cons e m)
  show ?case
  proof (cases "tid_less (fst e) b")
    case False
    then have "\<not> tid_less (fst x) b" if "x \<in> set m" for x
      using Cons.prems that tid_less_trans [of "fst e" "fst x" b] by auto
    then show ?thesis using False by (auto simp: filter_empty_conv intro!: filter_True [symmetric])
  qed (use Cons in simp)
qed simp

section \<open>Firing timers\<close>

definition due :: "int \<Rightarrow> (timer_id \<times> 'a dtask) \<Rightarrow> bool" where
  "due now e \<longleftrightarrow> tid_less (fst e) (now, MAX_TIMEOUTS)"

text \<open>What a run of the loop does to a pool that accepts tasks.\<close>

definition push_all :: "'a list \<Rightarrow> 'a pool \<Rightarrow> 'a pool" where
  "push_all ts p = p\<lparr>tasks := tasks p @ ts, submitted := submitted p @ ts, notifies := notifies p + length ts\<rparr>"

lemma push_all_Nil [simp]: "push_all [] p = p"
  by (simp add: push_all_def)

lemma push_all_Cons: "push_all ts (push_all [t] p) = push_all (t # ts) p"
  by (simp add: push_all_def)

lemma tp_working_push_all [simp]: "tp_working (push_all ts p) = tp_working p"
  by (simp add: push_all_def)

lemma hand_over_working: "tp_working (pool d) \<Longrightarrow> hand_over t d = (Inr (), d\<lparr>pool := push_all [t] (pool d)\<rparr>)"
  by (simp add: hand_over_def enqueue_eq push_all_def)

lemma fire_loop_eq:
  assumes "tp_working (pool d)" "timers d = ts"
  shows "fire_loop now ts d = (Inr (), d\<lparr>pool := push_all (map snd (takeWhile (due now) ts)) (pool d),
    timers := dropWhile (due now) ts\<rparr>)"
  using assms
proof (induction ts arbitrary: d)
  case Nil
  then show ?case by (simp add: retE_def)
next
  case (Cons e ts)
  obtain tid t where e: "e = (tid, t)" by fastforce
  show ?case
  proof (cases "due now e")
    case True
    let ?d = "d\<lparr>pool := push_all [t] (pool d), timers := ts\<rparr>"
    have "fire_loop now (e # ts) d = fire_loop now ts ?d"
      using True Cons.prems by (simp add: e due_def seqE_def bindE_def hand_over_working modE_def)
    also have "\<dots> = (Inr (), ?d\<lparr>pool := push_all (map snd (takeWhile (due now) ts)) (pool ?d),
        timers := dropWhile (due now) ts\<rparr>)"
      by (rule Cons.IH) (use Cons.prems in simp_all)
    also have "\<dots> = (Inr (), d\<lparr>pool := push_all (map snd (takeWhile (due now) (e # ts))) (pool d),
        timers := dropWhile (due now) (e # ts)\<rparr>)"
      using True by (simp add: e push_all_Cons)
    finally show ?thesis .
  next
    case False
    then show ?thesis using Cons.prems by (simp add: e due_def retE_def)
  qed
qed

definition earliest :: "int \<Rightarrow> (timer_id \<times> 'v) list \<Rightarrow> int" where
  "earliest now ts = (case ts of [] \<Rightarrow> MAX_TIMEOUTS | (tid, _) # _ \<Rightarrow> max 0 (fst tid - now))"

text \<open>Times within 24 days of the clock, where the \<open>int\<close> that holds the next timeout is wide enough.\<close>

definition near :: "int \<Rightarrow> (timer_id \<times> 'v) list \<Rightarrow> bool" where
  "near now ts \<longleftrightarrow> (\<forall>e \<in> set ts. - (2 ^ 31) \<le> fst (fst e) - now \<and> fst (fst e) - now < 2 ^ 31)"

lemma update_next_timeout_eq:
  assumes "near now (timers d)"
  shows "update_next_timeout now d = (Inr (), d\<lparr>next_timeout := earliest now (timers d)\<rparr>)"
proof (cases "timers d")
  case (Cons e ts)
  then have "- (2 ^ 31) \<le> fst (fst e) - now" "fst (fst e) - now < 2 ^ 31" using assms by (auto simp: near_def)
  then show ?thesis using Cons to_int32_id [of "fst (fst e) - now"]
    by (cases e) (auto simp: update_next_timeout_def getE_def bindE_def liftE_def c_int64_def modE_def earliest_def Let_def)
qed (simp add: update_next_timeout_def bindE_get modE_def earliest_def)

lemma near_filter: "near now ts \<Longrightarrow> near now (filter P ts)"
  by (simp add: near_def)

lemma due_filter: "om_sorted ts \<Longrightarrow> takeWhile (due now) ts = filter (due now) ts \<and>
    dropWhile (due now) ts = filter (\<lambda>e. \<not> due now e) ts"
  using sorted_takeWhile_filter [of ts "(now, MAX_TIMEOUTS)"] by (simp add: due_def [abs_def])

section \<open>Well-formed dispatchers\<close>

definition disp_inv :: "'a dispatcher \<Rightarrow> bool" where
  "disp_inv d \<longleftrightarrow> om_sorted (timers d) \<and> om_sorted (repeatable_timers d)
     \<and> 0 \<le> time_seq d \<and> (\<forall>e \<in> set (timers d). snd (fst e) \<le> time_seq d)
     \<and> (\<forall>e \<in> set (repeatable_timers d). snd (fst e) \<le> time_seq d)"

lemma disp_inv_init: "disp_inv (mk_dispatcher n)"
  by (simp add: disp_inv_def mk_dispatcher_def)

lemma to_int64_id: "0 \<le> i \<Longrightarrow> i < 2 ^ 63 \<Longrightarrow> to_int64 i = i"
  by (simp add: to_int64_def signed_take_bit_int_eq_self_iff sint_sbintrunc')

lemma next_seq_eq: "0 \<le> time_seq d \<Longrightarrow> time_seq d < 2 ^ 62 \<Longrightarrow>
    next_seq d = (Inr (time_seq d + 1), d\<lparr>time_seq := time_seq d + 1\<rparr>)"
  by (simp add: next_seq_def seqE_def bindE_def modE_def getE_def to_int64_id)

lemma wpE_next_seq: "0 \<le> time_seq d \<Longrightarrow> time_seq d < 2 ^ 62 \<Longrightarrow>
    wpE next_seq Q R d = Q (time_seq d + 1) (d\<lparr>time_seq := time_seq d + 1\<rparr>)"
  by (simp add: wpE_def next_seq_eq)

lemma wpE_update: "wpE (update_next_timeout now) Q R d \<longleftrightarrow>
   (case update_next_timeout now d of (Inr x, d') \<Rightarrow> Q x d' | (Inl e, d') \<Rightarrow> R e d')"
  by (simp add: wpE_def)

lemma update_next_timeout_only: "\<exists>r k. update_next_timeout now d = (r, d\<lparr>next_timeout := k\<rparr>)"
proof (cases "timers d")
  case Nil
  then show ?thesis by (auto simp: update_next_timeout_def bindE_get modE_def)
next
  case (Cons e ts)
  have "\<exists>k. d = d\<lparr>next_timeout := k\<rparr>" by (rule exI [of _ "next_timeout d"]) simp
  then show ?thesis using Cons
    by (cases e) (auto simp: update_next_timeout_def getE_def bindE_def liftE_def modE_def Let_def c_int64_def)
qed

lemma disp_inv_next_timeout [simp]: "disp_inv (d\<lparr>next_timeout := k\<rparr>) = disp_inv d"
  by (simp add: disp_inv_def)

lemma update_next_timeout_inv: "disp_inv d \<Longrightarrow> disp_inv (snd (update_next_timeout now d))"
  using update_next_timeout_only [of now d] by auto

lemma disp_inv_assign_timer:
  assumes "disp_inv d" "sq = time_seq d + 1" "n = sq"
  shows "disp_inv (d\<lparr>time_seq := n, timers := om_assign (tp, sq) t (timers d)\<rparr>)"
proof -
  have "snd (fst e) \<le> n" if "e \<in> set (om_assign (tp, sq) t (timers d))" for e
  proof -
    have "fst e \<in> insert (tp, sq) (fst ` set (timers d))" using that keys_om_assign [of "(tp, sq)" t "timers d"] by blast
    then show ?thesis using assms by (fastforce simp: disp_inv_def)
  qed
  then show ?thesis using assms by (fastforce simp: disp_inv_def om_sorted_assign)
qed

lemma disp_inv_assign_repeatable:
  assumes "disp_inv d" "snd k \<le> time_seq d"
  shows "disp_inv (d\<lparr>repeatable_timers := om_assign k rt (repeatable_timers d)\<rparr>)"
proof -
  have "snd (fst e) \<le> time_seq d" if "e \<in> set (om_assign k rt (repeatable_timers d))" for e
  proof -
    have "fst e \<in> insert k (fst ` set (repeatable_timers d))" using that keys_om_assign [of k rt "repeatable_timers d"] by blast
    then show ?thesis using assms by (fastforce simp: disp_inv_def)
  qed
  then show ?thesis using assms by (simp add: disp_inv_def om_sorted_assign)
qed

lemma fresh_timer: "disp_inv d \<Longrightarrow> map_of (timers d) (tp, time_seq d + 1) = None"
  by (force simp: disp_inv_def map_of_eq_None_iff)

lemma fresh_repeatable: "disp_inv d \<Longrightarrow> map_of (repeatable_timers d) (tp, time_seq d + 1) = None"
  by (force simp: disp_inv_def map_of_eq_None_iff)

lemma disp_inv_seq: "disp_inv d \<Longrightarrow> disp_inv (d\<lparr>time_seq := time_seq d + 1\<rparr>)"
  by (fastforce simp: disp_inv_def)

text \<open>The states that scheduling a one-shot and a repeatable timer lead to, before the next timeout is computed.\<close>

definition with_timer :: "int \<Rightarrow> 'a \<Rightarrow> 'a dispatcher \<Rightarrow> 'a dispatcher" where
  "with_timer tp t d = d\<lparr>time_seq := time_seq d + 1, timers := om_assign (tp, time_seq d + 1) (User t) (timers d)\<rparr>"

definition with_repeatable :: "int \<Rightarrow> int \<Rightarrow> 'a \<Rightarrow> 'a dispatcher \<Rightarrow> 'a dispatcher" where
  "with_repeatable tp interval t d = d\<lparr>time_seq := time_seq d + 2,
     repeatable_timers := om_assign (- tp, time_seq d + 1)
       \<lparr>rt_at = tp, rt_interval = interval, rt_timer_id = (tp, time_seq d + 2), rt_callback = t\<rparr> (repeatable_timers d),
     timers := om_assign (tp, time_seq d + 2) (Repeat (- tp, time_seq d + 1)) (timers d)\<rparr>"

lemma disp_inv_with_timer: "disp_inv d \<Longrightarrow> disp_inv (with_timer tp t d)"
  unfolding with_timer_def by (rule disp_inv_assign_timer) simp_all

lemma disp_inv_with_repeatable: "disp_inv d \<Longrightarrow> disp_inv (with_repeatable tp interval t d)"
proof -
  assume inv: "disp_inv d"
  let ?d1 = "d\<lparr>time_seq := time_seq d + 1\<rparr>"
  let ?d2 = "?d1\<lparr>repeatable_timers := om_assign (- tp, time_seq d + 1)
       \<lparr>rt_at = tp, rt_interval = interval, rt_timer_id = (tp, time_seq d + 2), rt_callback = t\<rparr> (repeatable_timers ?d1)\<rparr>"
  have "disp_inv ?d2" using disp_inv_assign_repeatable [OF disp_inv_seq [OF inv], of "(- tp, time_seq d + 1)"] by simp
  then have "disp_inv (?d2\<lparr>time_seq := time_seq d + 2,
      timers := om_assign (tp, time_seq d + 2) (Repeat (- tp, time_seq d + 1)) (timers ?d2)\<rparr>)"
    by (rule disp_inv_assign_timer) simp_all
  moreover have "?d2\<lparr>time_seq := time_seq d + 2,
      timers := om_assign (tp, time_seq d + 2) (Repeat (- tp, time_seq d + 1)) (timers ?d2)\<rparr>
    = with_repeatable tp interval t d" by (simp add: with_repeatable_def)
  ultimately show ?thesis by (simp only:)
qed

lemma run_at_once_eq:
  assumes "disp_inv d" "d_working d" "time_seq d < 2 ^ 62"
  shows "run_at tp t 0 now d =
    seqE (update_next_timeout now) (retE (tp, time_seq d + 1)) (with_timer tp t d)"
  using assms fresh_timer [OF assms(1), of tp]
  by (simp add: run_at_def with_timer_def om_insert_def disp_inv_def bindE_run [OF next_seq_eq] run_simps)

lemma run_at_repeat_eq:
  assumes "disp_inv d" "d_working d" "time_seq d < 2 ^ 62 - 1" "- (2 ^ 63) < tp" "tp < 2 ^ 63" "interval \<noteq> 0"
  shows "run_at tp t interval now d =
    seqE (update_next_timeout now) (retE (- tp, time_seq d + 1)) (with_repeatable tp interval t d)"
  using assms
  by (simp add: run_at_def with_repeatable_def disp_inv_def bindE_run [OF next_seq_eq] run_simps c_int64_def
      add.commute)

lemma seq_update_run:
  assumes "seqE (update_next_timeout now) (retE x) d = (Inr y, d')"
  shows "y = x \<and> (\<exists>k. d' = d\<lparr>next_timeout := k\<rparr>)"
  using assms update_next_timeout_only [of now d]
  by (auto simp: seqE_def bindE_def retE_def split: sum.splits)

lemma seq_update_state: "\<exists>r k. seqE (update_next_timeout now) (retE x) d = (r, d\<lparr>next_timeout := k\<rparr>)"
proof -
  obtain r k where "update_next_timeout now d = (r, d\<lparr>next_timeout := k\<rparr>)" using update_next_timeout_only by blast
  then show ?thesis by (cases r) (auto simp: seqE_def bindE_def retE_def)
qed

lemma cancel_once_eq:
  assumes "0 \<le> fst tid" "map_of (timers d) tid = Some t"
  shows "cancel tid d = (Inr True, d\<lparr>timers := om_erase tid (timers d)\<rparr>)"
  using assms by (simp add: cancel_def run_simps)

lemma cancel_repeat_eq:
  assumes "fst tid < 0" "map_of (repeatable_timers d) tid = Some rt"
  shows "cancel tid d = (Inr True, d\<lparr>timers := om_erase (rt_timer_id rt) (timers d),
    repeatable_timers := om_erase tid (repeatable_timers d)\<rparr>)"
  using assms by (simp add: cancel_def run_simps)

lemma disp_inv_erase: "disp_inv d \<Longrightarrow> disp_inv (d\<lparr>timers := om_erase a (timers d)\<rparr>)"
  "disp_inv d \<Longrightarrow> disp_inv (d\<lparr>timers := om_erase a (timers d), repeatable_timers := om_erase b (repeatable_timers d)\<rparr>)"
  by (auto simp: disp_inv_def om_sorted_erase) (auto simp: om_erase_def)

lemma disp_inv_cancel: "disp_inv d \<Longrightarrow> disp_inv (snd (cancel tid d))"
  by (auto simp: cancel_def run_simps disp_inv_erase split: option.split)

lemma disp_inv_run_at:
  assumes "disp_inv d" "time_seq d < 2 ^ 62 - 1" "- (2 ^ 63) < tp" "tp < 2 ^ 63"
  shows "disp_inv (snd (run_at tp t interval now d))"
proof -
  consider "\<not> d_working d" | "d_working d" "interval = 0" | "d_working d" "interval \<noteq> 0" by blast
  then show ?thesis
  proof cases
    case 2
    then show ?thesis
      using run_at_once_eq [OF assms(1) 2(1), of tp t now] assms disp_inv_with_timer [OF assms(1), of tp t]
        seq_update_state [of now "(tp, time_seq d + 1)" "with_timer tp t d"] by auto
  next
    case 3
    then show ?thesis
      using run_at_repeat_eq [OF assms(1) 3(1) assms(2-4) 3(2), of t now] disp_inv_with_repeatable [OF assms(1), of tp interval t]
        seq_update_state [of now "(- tp, time_seq d + 1)" "with_repeatable tp interval t d"] by auto
  qed (use assms in \<open>simp add: run_at_def bindE_get retE_def\<close>)
qed

lemma disp_inv_repeat:
  assumes inv: "disp_inv d" and sq: "time_seq d < 2 ^ 62"
  shows "disp_inv (snd (repeat key now d))"
proof (cases "map_of (repeatable_timers d) key")
  case None
  then show ?thesis using inv by (simp add: repeat_def bindE_get throwE_def)
next
  case (Some rt)
  let ?at = "rt_at rt + rt_interval rt" and ?sq = "time_seq d + 1"
  let ?rt = "rt\<lparr>rt_at := ?at, rt_timer_id := (?at, ?sq)\<rparr>"
  let ?d1 = "d\<lparr>repeatable_timers := om_assign key ?rt (repeatable_timers d)\<rparr>"
  let ?d2 = "?d1\<lparr>time_seq := ?sq, timers := om_assign (?at, ?sq) (Repeat key) (timers ?d1)\<rparr>"
  have "snd key \<le> time_seq d" using map_of_SomeD [OF Some] inv by (auto simp: disp_inv_def)
  then have "disp_inv ?d1" by (rule disp_inv_assign_repeatable [OF inv])
  then have inv2: "disp_inv ?d2" by (rule disp_inv_assign_timer) simp_all
  show ?thesis
  proof (cases "c_int64 ?at")
    case (Inl e)
    then show ?thesis using Some inv by (simp add: repeat_def run_simps)
  next
    case (Inr a)
    then have a: "a = ?at" by (simp add: c_int64_def split: if_splits)
    have d2: "?d2 = d\<lparr>time_seq := ?sq, repeatable_timers := om_assign key ?rt (repeatable_timers d),
        timers := om_assign (?at, ?sq) (Repeat key) (timers d)\<rparr>" by simp
    have "repeat key now d = seqE (update_next_timeout now) (retE (rt_callback rt)) ?d2"
      unfolding d2 using Some Inr inv sq
      by (simp add: a repeat_def bindE_run [OF next_seq_eq] disp_inv_def run_simps)
    then show ?thesis using inv2 seq_update_state [of now "rt_callback rt" ?d2] by auto
  qed
qed

lemma disp_inv_hand_over: "disp_inv d \<Longrightarrow> disp_inv (snd (hand_over t d))"
  by (cases "timers d") (auto simp: hand_over_def enqueue_eq disp_inv_def)

lemma disp_inv_fire:
  assumes "disp_inv d" "tp_working (pool d)"
  shows "disp_inv (d\<lparr>pool := p, timers := dropWhile (due now) (timers d)\<rparr>)"
  using assms due_filter [of "timers d" now] by (auto simp: disp_inv_def sorted_wrt_map sorted_wrt_filter)

lemma handle_timeout_eq:
  assumes "tp_working (pool d)"
  shows "handle_timeout now now' d = update_next_timeout now'
    (d\<lparr>pool := push_all (map snd (takeWhile (due now) (timers d))) (pool d), timers := dropWhile (due now) (timers d)\<rparr>)"
  using seqE_run [of "fire_loop now (timers d)" d, OF fire_loop_eq [OF assms refl]]
  by (simp add: handle_timeout_def run_simps)

lemma disp_inv_handle_timeout:
  assumes "disp_inv d" "tp_working (pool d)"
  shows "disp_inv (snd (handle_timeout now now' d))"
  using update_next_timeout_inv [OF disp_inv_fire [OF assms]] by (simp add: handle_timeout_eq [OF assms(2)])

section \<open>The properties\<close>

definition disp_demo :: "nat dispatcher" where
  "disp_demo = snd (run_at 100 1 0 50 (snd (run_at 70 2 10 50 (snd (run_at 60 3 0 50 (mk_dispatcher 1))))))"

lemma disp_demo_eq: "disp_demo = \<lparr>d_working = True, wake_up = 0, time_seq = 4, next_timeout = 10,
    timers = [((60, 1), User 3), ((70, 3), Repeat (- 70, 2)), ((100, 4), User 1)],
    repeatable_timers = [((- 70, 2), \<lparr>rt_at = 70, rt_interval = 10, rt_timer_id = (70, 3), rt_callback = 2\<rparr>)],
    pool = mk_thread_pool 1\<rparr>"
  by (simp add: disp_demo_def mk_dispatcher_def run_at_def run_simps next_seq_def bindE_def [of "seqE _ _"] om_insert_def
      c_int64_def to_int64_id tid_less_def update_next_timeout_def seqE_def bindE_def to_int32_id Let_def)

lemma disp_demo_inv: "disp_inv disp_demo" "tp_working (pool disp_demo)" "near 80 (timers disp_demo)"
  by (simp_all add: disp_demo_eq disp_inv_def tid_less_def mk_thread_pool_def near_def)

text \<open>C15: \<open>handle_timeout\<close> hands every due timer to the thread pool, in order of their time points and, among
  equal ones, of their sequence numbers; it keeps exactly the timers that are not due, and sets the next timeout to
  the time left until the earliest of them, zero if that time has passed.\<close>

theorem timers_fire_in_order:
  assumes "disp_inv d" "tp_working (pool d)" "near now' (timers d)"
  shows "handle_timeout now now' d =
    (Inr (), d\<lparr>pool := push_all (map snd (filter (due now) (timers d))) (pool d),
       timers := filter (\<lambda>e. \<not> due now e) (timers d),
       next_timeout := earliest now' (filter (\<lambda>e. \<not> due now e) (timers d))\<rparr>)"
proof -
  have "om_sorted (timers d)" using assms by (simp add: disp_inv_def)
  then show ?thesis
    using due_filter [of "timers d" now] near_filter [OF assms(3), of "\<lambda>e. \<not> due now e"]
    by (simp add: handle_timeout_eq [OF assms(2)] update_next_timeout_eq)
qed

theorem timers_fire_in_order_witness:
  "disp_inv disp_demo \<and> fst (handle_timeout 80 80 disp_demo) = Inr () \<and>
   tasks (pool (snd (handle_timeout 80 80 disp_demo))) = [User 3, Repeat (- 70, 2)]"
  using timers_fire_in_order [OF disp_demo_inv, of 80] disp_demo_inv
  by (simp add: disp_demo_eq due_def tid_less_def MAX_TIMEOUTS_def push_all_def mk_thread_pool_def)



text \<open>C17: cancelling a timer undoes scheduling it.  For a one-shot timer at a time point \<open>tp \<ge> 0\<close> and for a
  repeatable one at \<open>tp > 0\<close>, \<open>cancel\<close> of the identifier that \<open>run_at\<close> returned succeeds and leaves
  both timer maps as they were before.\<close>

theorem cancel_undoes_run_at:
  assumes "disp_inv d" "d_working d" "time_seq d < 2 ^ 62 - 1" "0 \<le> tp" "tp < 2 ^ 63" "interval \<noteq> 0 \<Longrightarrow> 0 < tp"
    and run: "run_at tp t interval now d = (Inr tid, d1)"
  shows "\<exists>d2. cancel tid d1 = (Inr True, d2) \<and> timers d2 = timers d \<and> repeatable_timers d2 = repeatable_timers d"
proof (cases "interval = 0")
  case True
  have "seqE (update_next_timeout now) (retE (tp, time_seq d + 1)) (with_timer tp t d) = (Inr tid, d1)"
    using run run_at_once_eq [OF assms(1,2)] True assms(3) by simp
  from seq_update_run [OF this] obtain k where d1: "tid = (tp, time_seq d + 1)" "d1 = (with_timer tp t d)\<lparr>next_timeout := k\<rparr>"
    by blast
  have "map_of (timers d1) tid = Some (User t)"
    using assms(1) by (simp add: d1 with_timer_def map_of_om_assign disp_inv_def)
  then show ?thesis using cancel_once_eq [of tid d1] assms(4) fresh_timer [OF assms(1), of tp]
    by (simp add: d1 with_timer_def om_erase_assign)
next
  case False
  have "seqE (update_next_timeout now) (retE (- tp, time_seq d + 1)) (with_repeatable tp interval t d) = (Inr tid, d1)"
    using run run_at_repeat_eq [OF assms(1,2,3) _ assms(5) False] assms(4) by simp
  from seq_update_run [OF this] obtain k where
    d1: "tid = (- tp, time_seq d + 1)" "d1 = (with_repeatable tp interval t d)\<lparr>next_timeout := k\<rparr>" by blast
  have "map_of (repeatable_timers d1) tid =
      Some \<lparr>rt_at = tp, rt_interval = interval, rt_timer_id = (tp, time_seq d + 2), rt_callback = t\<rparr>"
    using assms(1) by (simp add: d1 with_repeatable_def map_of_om_assign disp_inv_def)
  moreover have "map_of (timers d) (tp, time_seq d + 2) = None"
    using assms(1) by (force simp: disp_inv_def map_of_eq_None_iff)
  ultimately show ?thesis
    using cancel_repeat_eq [of tid d1] assms(6) False fresh_repeatable [OF assms(1), of "- tp"]
    by (simp add: d1 with_repeatable_def om_erase_assign)
qed

theorem cancel_undoes_run_at_witness:
  "\<exists>d1 d2. run_at 90 7 5 50 disp_demo = (Inr (- 90, 5), d1) \<and> cancel (- 90, 5) d1 = (Inr True, d2) \<and>
     timers d2 = timers disp_demo"
proof -
  have "run_at 90 7 5 50 disp_demo = (Inr (- 90, 5), snd (run_at 90 7 5 50 disp_demo))"
    by (simp add: disp_demo_eq run_at_def run_simps next_seq_def bindE_def [of "seqE _ _"] c_int64_def to_int64_id tid_less_def
        update_next_timeout_def seqE_def bindE_def to_int32_id Let_def)
  from cancel_undoes_run_at [OF disp_demo_inv(1) _ _ _ _ _ this] show ?thesis
    using \<open>run_at 90 7 5 50 disp_demo = _\<close> by (fastforce simp: disp_demo_eq)
qed

text \<open>Cancelling a repeatable timer does not reach a firing of it that \<open>handle_timeout\<close> has already handed to
  the thread pool: when the worker then runs the closure, \<open>repeat\<close> follows a pointer to the erased node.  A second
  \<open>cancel\<close> of the same identifier dereferences \<open>end()\<close> instead of returning \<open>false\<close>.\<close>

theorem cancelled_repeatable_dangles:
  assumes "disp_inv d" "tid = (a, b)" "a < 0" "map_of (repeatable_timers d) tid = Some rt"
  shows "\<exists>d'. cancel tid d = (Inr True, d') \<and> repeat tid now d' = (Inl Undefined_behaviour, d') \<and>
    cancel tid d' = (Inl Undefined_behaviour, d')"
proof -
  have "map_of (om_erase tid (repeatable_timers d)) tid = None" by (auto simp: om_erase_def map_of_eq_None_iff)
  then show ?thesis using cancel_repeat_eq [of tid d rt] assms by (simp add: repeat_def cancel_def run_simps)
qed

theorem cancelled_repeatable_dangles_witness:
  "\<exists>d'. cancel (- 70, 2) disp_demo = (Inr True, d') \<and> repeat (- 70, 2) 80 d' = (Inl Undefined_behaviour, d')"
proof -
  have "map_of (repeatable_timers disp_demo) (- 70, 2) =
      Some \<lparr>rt_at = 70, rt_interval = 10, rt_timer_id = (70, 3), rt_callback = 2\<rparr>" by (simp add: disp_demo_eq)
  from cancelled_repeatable_dangles [OF disp_demo_inv(1) refl _ this, of 80] show ?thesis by auto
qed

text \<open>A timer between \<open>2 ^ 31\<close> and \<open>2 ^ 32\<close> milliseconds ahead, 25 to 49 days, gives a negative \<open>int\<close>, and
  the reactor polls with a zero timeout until the timer is less than \<open>2 ^ 31\<close> away.\<close>

lemma far_timer_polls:
  assumes "timers d = ((tp, sq), t) # ts" "2 ^ 31 \<le> tp - now" "tp - now < 2 ^ 32"
  shows "update_next_timeout now d = (Inr (), d\<lparr>next_timeout := 0\<rparr>)"
proof -
  have "(word_of_int (tp - now) :: 32 word) = word_of_int (tp - now - 2 ^ 32)" by (simp add: word_of_int_eq_iff take_bit_eq_mod mod_simps)
  then have "sint (word_of_int (tp - now) :: 32 word) = sint (word_of_int (tp - now - 2 ^ 32) :: 32 word)" by (rule arg_cong)
  then have "to_int32 (tp - now) = tp - now - 2 ^ 32"
    unfolding to_int32_def by (rule trans) (rule sint_word_of_int32, use assms in \<open>simp add: int_range_def\<close>)
  then show ?thesis using assms by (simp add: update_next_timeout_def run_simps c_int64_def Let_def)
qed

end
