(* ===== verification/Varint.thy ===== *)
theory Varint
  imports Prelude
begin

text \<open>
  \<^verbatim>\<open>network/coding.{h,cc}\<close>: variable-length integers.  \<open>encode_uint\<close> writes to the start of a
  buffer and returns the number of bytes; the model returns the bytes.  The decoder reads from a
  list of bytes; reading past its end, or shifting a 64-bit value by 64 or more, is undefined
  behaviour.
\<close>

section \<open>The model\<close>

function encode_uint :: "64 word \<Rightarrow> byte list" where
  "encode_uint val =
     (let next = ucast (val AND 0x7F); val' = drop_bit 7 val
      in if val' \<noteq> 0 then (next OR 0x80) # encode_uint val' else [next])"
  by pat_completeness auto

termination
proof (relation "measure unat", goal_cases)
  case (2 val)
  then have nz: "val \<noteq> 0" by auto
  have "unat (drop_bit 7 val) = unat val div 128" by (simp add: unat_drop_bit_eq drop_bit_eq_div unat_div_distrib)
  moreover have "0 < unat val" using nz by (simp add: unat_gt_0)
  ultimately show ?case using 2 by simp
qed simp

declare encode_uint.simps [simp del]

fun decode_loop :: "byte list \<Rightarrow> nat \<Rightarrow> nat \<Rightarrow> 64 word \<Rightarrow> (64 word \<times> nat) res" where
  "decode_loop [] i shift val = Inl Undefined_behaviour"
| "decode_loop (b # data) i shift val =
     (if 64 \<le> shift then Inl Undefined_behaviour
      else let val' = val OR push_bit shift (ucast (b AND 0x7F))
           in if b AND 0x80 \<noteq> 0 then decode_loop data (i + 1) (shift + 7) val' else Inr (val', i + 1))"

definition decode_uvarint :: "byte list \<Rightarrow> (64 word \<times> nat) res" where
  "decode_uvarint data = decode_loop data 0 0 0"

definition encode_int :: "64 word \<Rightarrow> byte list" where
  "encode_int val = encode_uint (if val <s 0 then NOT (push_bit 1 val) else push_bit 1 val)"

definition decode_varint :: "byte list \<Rightarrow> (64 word \<times> nat) res" where
  "decode_varint data = bindR (decode_uvarint data) (\<lambda>(uvalue, bytes).
     Inr (if uvalue AND 1 \<noteq> 0 then NOT (drop_bit 1 uvalue) else drop_bit 1 uvalue, bytes))"

section \<open>Round trip\<close>

lemma low_mask: "(0x7F :: 64 word) = mask 7" "(0x7F :: byte) = mask 7"
  by (simp_all add: mask_eq_exp_minus_1)

lemma bit_0x80: "bit (0x80 :: int) n \<longleftrightarrow> n = 7"
  using bit_exp_iff [of 7 n, where 'a = int] by auto

lemma last_byte: "(ucast (w AND 0x7F) :: byte) AND 0x80 = 0" for w :: "64 word"
  unfolding low_mask by (rule bit_word_eqI) (auto simp: bit_simps bit_0x80)

lemma more_byte: "((ucast (w AND 0x7F) :: byte) OR 0x80) AND 0x80 \<noteq> 0" for w :: "64 word"
proof -
  have "bit (((ucast (w AND 0x7F) :: byte) OR 0x80) AND 0x80) 7" unfolding low_mask by (simp add: bit_simps bit_0x80)
  then show ?thesis by auto
qed

lemma low_bits:
  "ucast ((ucast (w AND 0x7F) :: byte) AND 0x7F) = w AND 0x7F"
  "ucast (((ucast (w AND 0x7F) :: byte) OR 0x80) AND 0x7F) = w AND 0x7F" for w :: "64 word"
  unfolding low_mask by (rule bit_word_eqI; auto simp: bit_simps bit_0x80)+

lemma split_word:
  "push_bit n (w AND 0x7F) OR push_bit (n + 7) (drop_bit 7 w) = push_bit n w" for w :: "64 word"
proof (rule bit_word_eqI)
  fix k assume k: "k < LENGTH(64)"
  consider "k < n" | "n \<le> k" "k - n < 7" | "n + 7 \<le> k" by linarith
  then show "bit (push_bit n (w AND 0x7F) OR push_bit (n + 7) (drop_bit 7 w)) k = bit (push_bit n w) k"
    unfolding low_mask using k by cases (auto simp: bit_simps)
qed

lemma decode_encode:
  assumes "unat w * 2 ^ shift < 2 ^ 64" "shift < 64"
  shows "decode_loop (encode_uint w @ rest) i shift val = Inr (val OR push_bit shift w, i + length (encode_uint w))"
  using assms
proof (induction w arbitrary: i shift val rule: encode_uint.induct)
  case (1 w)
  let ?w = "drop_bit 7 w"
  have dw: "unat ?w = unat w div 128" by (simp add: unat_drop_bit_eq drop_bit_eq_div unat_div_distrib)
  show ?case
  proof (cases "?w = 0")
    case True
    have "push_bit shift (w AND 0x7F) = push_bit shift w" using split_word [of shift w] True by simp
    then show ?thesis using True 1(3) by (subst encode_uint.simps, subst (2) encode_uint.simps) (simp add: last_byte low_bits)
  next
    case False
    have le: "unat ?w * 2 ^ (shift + 7) \<le> unat w * 2 ^ shift"
      using dw by (simp add: power_add)
    have "0 < unat ?w" using False by (simp add: unat_gt_0)
    then have "1 * 2 ^ (shift + 7) \<le> unat ?w * 2 ^ (shift + 7)" by (intro mult_le_mono1) simp
    then have "(2::nat) ^ (shift + 7) < 2 ^ 64" using le 1(2) by linarith
    then have s: "shift + 7 < 64" by (rule power_less_imp_less_exp [rotated]) simp
    have "unat ?w * 2 ^ (shift + 7) < 2 ^ 64" using le 1(2) by simp
    note ih = 1(1) [OF refl refl False this s]
    have "(val OR push_bit shift (w AND 0x7F)) OR push_bit (shift + 7) ?w = val OR push_bit shift w"
      using split_word [of shift w] by (simp add: or.assoc)
    then show ?thesis using False 1(3) ih
      by (subst encode_uint.simps, subst (2) encode_uint.simps) (simp add: more_byte low_bits)
  qed
qed

lemma length_encode: "unat w < 2 ^ (7 * n) \<Longrightarrow> 0 < n \<Longrightarrow> length (encode_uint w) \<le> n"
proof (induction w arbitrary: n rule: encode_uint.induct)
  case (1 w)
  let ?w = "drop_bit 7 w"
  have dw: "unat ?w = unat w div 128" by (simp add: unat_drop_bit_eq drop_bit_eq_div unat_div_distrib)
  show ?case
  proof (cases "?w = 0")
    case True
    then show ?thesis using 1(3) by (subst encode_uint.simps) simp
  next
    case False
    then have "1 \<le> unat ?w" by (metis One_nat_def Suc_leI unat_gt_0)
    then have "n \<noteq> 1" using 1(2) dw by auto
    then obtain k where k: "n = Suc k" "0 < k" using 1(3) by (cases n) auto
    have "unat ?w < 2 ^ (7 * k)" using 1(2) dw k(1) by (simp add: power_add less_mult_imp_div_less)
    then have "length (encode_uint ?w) \<le> k" using 1(1) [OF refl refl False] k(2) by blast
    then show ?thesis using False k(1) by (subst encode_uint.simps) simp
  qed
qed

lemma decode_uvarint_encode: "decode_uvarint (encode_uint v @ rest) = Inr (v, length (encode_uint v))"
proof -
  have "unat v < 2 ^ LENGTH(64)" by (rule unsigned_less)
  then have "unat v * 2 ^ 0 < 2 ^ 64" by simp
  from decode_encode [OF this] show ?thesis by (simp add: decode_uvarint_def)
qed

text \<open>The zigzag mapping, for a shift of one place.\<close>

lemma zigzag_shift:
  fixes v :: "64 word" assumes "0 < k" "k < 2"
  shows "bit v 63 \<Longrightarrow> NOT (drop_bit k (NOT (push_bit k v))) = v" "\<not> bit v 63 \<Longrightarrow> drop_bit k (push_bit k v) = v"
proof -
  have k: "k + n - k = n" "64 \<le> k + n \<longleftrightarrow> 63 \<le> n" for n using assms by auto
  show "NOT (drop_bit k (NOT (push_bit k v))) = v" if "bit v 63"
  proof (rule bit_word_eqI)
    fix n assume "n < LENGTH(64)"
    then show "bit (NOT (drop_bit k (NOT (push_bit k v)))) n = bit v n"
      using that k [of n] by (cases "n = 63") (auto simp: bit_simps)
  qed
  show "drop_bit k (push_bit k v) = v" if "\<not> bit v 63"
  proof (rule bit_word_eqI)
    fix n assume "n < LENGTH(64)"
    then show "bit (drop_bit k (push_bit k v)) n = bit v n"
      using that k [of n] by (cases "n = 63") (auto simp: bit_simps)
  qed
qed

lemma zigzag:
  fixes v :: "64 word"
  defines "u \<equiv> (if v <s 0 then NOT (push_bit 1 v) else push_bit 1 v)"
  shows "(if u AND 1 \<noteq> 0 then NOT (drop_bit 1 u) else drop_bit 1 u) = v"
proof -
  have neg: "v <s 0 \<longleftrightarrow> bit v 63" using bit_last_iff [of v] by (simp add: word_sless_alt)
  have b0: "x AND 1 \<noteq> 0 \<longleftrightarrow> bit x 0" for x :: "64 word" by (simp add: and_one_eq bit_0 odd_iff_mod_2_eq_one)
  have "u AND 1 \<noteq> 0 \<longleftrightarrow> bit v 63" unfolding b0 u_def neg by (simp only: bit_not_iff bit_push_bit_iff split: if_split) simp
  then show ?thesis using zigzag_shift [of 1 v] unfolding u_def neg by auto
qed

section \<open>Properties\<close>

text \<open>C10: Decoding what \<open>encode_uint\<close> wrote gives back every 64-bit value and the number of bytes written,
  whatever follows in the buffer.\<close>

theorem varint_roundtrip: "decode_uvarint (encode_uint v @ rest) = Inr (v, length (encode_uint v))"
  by (rule decode_uvarint_encode)

text \<open>C12: An encoded value takes between one and ten bytes: the \<open>char buf[10]\<close> of the callers is never
  overrun.\<close>

theorem varint_length: "1 \<le> length (encode_uint v) \<and> length (encode_uint v) \<le> 10"
proof
  show "1 \<le> length (encode_uint v)" by (subst encode_uint.simps) (simp add: Let_def)
  have "unat v < 2 ^ LENGTH(64)" by (rule unsigned_less)
  then have "unat v < 2 ^ (7 * 10)" by simp
  then show "length (encode_uint v) \<le> 10" by (rule length_encode) simp
qed


end
