(* ===== verification/Rpc_Codec.thy ===== *)
theory Rpc_Codec
  imports Varint Ring_Buffer
begin

text \<open>
  \<^verbatim>\<open>network/rpc/codec.{h,cc}\<close>, \<^verbatim>\<open>consensus/raft/rpc_args.{h,cc}\<close> and
  \<^verbatim>\<open>consensus/raft/log.{h,cc}\<close>: marshalling of RPC arguments through the two buffers of a connection.
  The local arrays of the encoders start with the bytes that the stack held; they are the argument \<open>stk\<close>.
  \<open>b->put(uint16_t(x))\<close> selects the overload for one character, so it stores the low byte of \<open>x\<close>.
\<close>

section \<open>The codec\<close>

record codec =
  read_buf :: ring
  write_buf :: ring

type_synonym 'a cd = "(codec, 'a) eff"

definition on_read_buf :: "'a rb \<Rightarrow> 'a cd" where
  "on_read_buf m c = (case m (read_buf c) of (r, b) \<Rightarrow> (r, c\<lparr>read_buf := b\<rparr>))"

definition on_write_buf :: "'a rb \<Rightarrow> 'a cd" where
  "on_write_buf m c = (case m (write_buf c) of (r, b) \<Rightarrow> (r, c\<lparr>write_buf := b\<rparr>))"

text \<open>The memory from \<open>get_begin()\<close> to the end of the block.\<close>

definition get_begin :: "ring \<Rightarrow> byte list res" where
  "get_begin r = (case rb_buf r of None \<Rightarrow> Inl Undefined_behaviour | Some b \<Rightarrow> Inr (drop (rb_tail r) b))"

definition is_ready :: "codec \<Rightarrow> bool res" where
  "is_ready c = bindR (get_begin (read_buf c)) (\<lambda>data. bindR (decode_varint data) (\<lambda>(v, bytes).
     let len = to_int32 (sint v) in
     bindR (c_int (len + int bytes)) (\<lambda>n.
       if n mod 2 ^ 64 < int (rb_size (read_buf c)) then Inr False else Inr True)))"

definition put_rpc_id :: "64 word \<Rightarrow> unit cd" where
  "put_rpc_id rid = on_write_buf (rb_put_bytes (encode_uint rid))"

definition peek_uvarint :: "(64 word \<times> nat) cd" where
  "peek_uvarint = liftE (\<lambda>c. bindR (get_begin (read_buf c)) decode_uvarint)"

definition get_rpc_id :: "64 word cd" where
  "get_rpc_id = bindE peek_uvarint (\<lambda>(v, _). retE v)"

text \<open>\<open>marshal\<close> and \<open>unmarshal\<close> for an argument type with the given operators.\<close>

definition marshal :: "('t \<Rightarrow> unit cd) \<Rightarrow> 64 word \<Rightarrow> 't \<Rightarrow> unit cd" where
  "marshal put rid args = seqE (put_rpc_id rid) (put args)"

definition unmarshal :: "'t cd \<Rightarrow> (64 word \<times> 't) cd" where
  "unmarshal get = bindE get_rpc_id (\<lambda>rid. bindE get (\<lambda>args. retE (rid, args)))"

section \<open>The argument types\<close>

record log_entry =
  log_index :: "64 word"
  log_term :: "64 word"

record request_vote_args =
  rv_term :: "64 word"
  candidate_id :: "32 word"
  last_log_index :: "64 word"
  last_log_term :: "64 word"

record request_vote_reply =
  rvr_term :: "64 word"
  vote_granted :: "8 word"

record append_entries_args =
  ae_term :: "64 word"
  leader_id :: "8 word"
  prev_log_index :: "64 word"
  prev_log_term :: "64 word"
  leader_commit :: "64 word"
  ae_entries :: "log_entry list"

record append_entries_reply =
  aer_term :: "64 word"
  success :: "8 word"

text \<open>\<open>bytes += encode_uint(buf, v)\<close> for each \<open>v\<close>: every call writes at the start of \<open>buf\<close>.\<close>

definition encode_at_start :: "byte list \<Rightarrow> 64 word \<Rightarrow> byte list" where
  "encode_at_start buf v = encode_uint v @ drop (length (encode_uint v)) buf"

fun encode_fields :: "byte list \<Rightarrow> nat \<Rightarrow> 64 word list \<Rightarrow> byte list \<times> nat" where
  "encode_fields buf bytes [] = (buf, bytes)"
| "encode_fields buf bytes (v # vs) = encode_fields (encode_at_start buf v) (bytes + length (encode_uint v)) vs"

text \<open>\<open>b->put(buf, bytes)\<close> from a local array.\<close>

definition put_array :: "byte list \<Rightarrow> nat \<Rightarrow> unit cd" where
  "put_array buf bytes = (if length buf < bytes then throwE Undefined_behaviour
     else on_write_buf (rb_put_bytes (take bytes buf)))"

definition put_char :: "nat \<Rightarrow> unit cd" where
  "put_char n = on_write_buf (rb_put (of_nat n))"

definition put_request_vote_args :: "byte list \<Rightarrow> request_vote_args \<Rightarrow> unit cd" where
  "put_request_vote_args stk a =
     (case encode_fields (take 40 stk) 0 [rv_term a, ucast (candidate_id a), last_log_index a, last_log_index a] of
        (buf, bytes) \<Rightarrow> seqE (put_char bytes) (put_array buf bytes))"

definition put_request_vote_reply :: "byte list \<Rightarrow> request_vote_reply \<Rightarrow> unit cd" where
  "put_request_vote_reply stk a =
     (case encode_fields (take 20 stk) 0 [rvr_term a, ucast (vote_granted a)] of
        (buf, bytes) \<Rightarrow> seqE (put_char bytes) (put_array buf bytes))"

definition put_append_entries_args :: "byte list \<Rightarrow> byte list \<Rightarrow> append_entries_args \<Rightarrow> unit cd" where
  "put_append_entries_args stk stk2 a =
     (let size = length (ae_entries a) mod 2 ^ 16;
          (buf, bytes) = encode_fields (take 50 stk) 0
            [ae_term a, ucast (leader_id a), prev_log_index a, prev_log_term a, leader_commit a];
          (bbuf, bytes2) = encode_fields (take 1024 stk2) 0
            (concat (map (\<lambda>e. [log_index e, log_term e]) (take size (ae_entries a))))
      in seqE (put_char (bytes + bytes2)) (seqE (put_char size) (seqE (put_array buf bytes) (put_array bbuf bytes2))))"

definition put_append_entries_reply :: "byte list \<Rightarrow> append_entries_reply \<Rightarrow> unit cd" where
  "put_append_entries_reply stk a =
     (case encode_fields (take 20 stk) 0 [aer_term a, ucast (success a)] of
        (buf, bytes) \<Rightarrow> seqE (put_char bytes) (put_array buf bytes))"

definition put_log :: "byte list \<Rightarrow> log_entry \<Rightarrow> unit cd" where
  "put_log stk a =
     (case encode_fields (take 20 stk) 0 [log_index a, log_term a] of
        (buf, bytes) \<Rightarrow> seqE (put_char bytes) (seqE (put_char (bytes div 256)) (put_array buf bytes)))"

text \<open>\<open>reallen\<close> is the constant zero and \<open>bytes\<close> the length of the last varint, so the decoders always step back.\<close>

definition step_back :: "nat \<Rightarrow> unit cd" where
  "step_back bytes = whenE (bytes \<noteq> 0) (on_read_buf (unget (bytes + 2)))"

definition get_request_vote_args :: "request_vote_args cd" where
  "get_request_vote_args =
     seqE (on_read_buf (rb_get_bytes 2)) (
     bindE peek_uvarint (\<lambda>(t, _). bindE peek_uvarint (\<lambda>(c, _). bindE peek_uvarint (\<lambda>(i, _). bindE peek_uvarint (\<lambda>(lt, bytes).
     seqE (step_back bytes)
       (retE \<lparr>rv_term = t, candidate_id = ucast c, last_log_index = i, last_log_term = lt\<rparr>))))))"

definition get_request_vote_reply :: "request_vote_reply cd" where
  "get_request_vote_reply =
     seqE (on_read_buf (rb_get_bytes 2)) (
     bindE peek_uvarint (\<lambda>(t, _). bindE peek_uvarint (\<lambda>(v, bytes).
     seqE (step_back bytes) (retE \<lparr>rvr_term = t, vote_granted = ucast v\<rparr>))))"

text \<open>The entries are not decoded; \<open>args.log_entries\<close> keeps the value it has.\<close>

definition get_append_entries_args :: "log_entry list \<Rightarrow> append_entries_args cd" where
  "get_append_entries_args es =
     seqE (on_read_buf (rb_get_bytes 2)) (
     bindE peek_uvarint (\<lambda>(t, _). bindE peek_uvarint (\<lambda>(l, _). bindE peek_uvarint (\<lambda>(pi, _). bindE peek_uvarint (\<lambda>(pt, _).
     bindE peek_uvarint (\<lambda>(lc, bytes).
     seqE (on_read_buf (rb_get_bytes 2)) (
     seqE (step_back bytes)
       (retE \<lparr>ae_term = t, leader_id = ucast l, prev_log_index = pi, prev_log_term = pt, leader_commit = lc,
              ae_entries = es\<rparr>))))))))"

definition get_append_entries_reply :: "append_entries_reply cd" where
  "get_append_entries_reply =
     seqE (on_read_buf (rb_get_bytes 2)) (
     bindE peek_uvarint (\<lambda>(t, _). bindE peek_uvarint (\<lambda>(v, bytes).
     seqE (step_back bytes) (retE \<lparr>aer_term = t, success = ucast v\<rparr>))))"

text \<open>\<open>char len\<close> is signed.\<close>

definition get_log :: "log_entry cd" where
  "get_log = bindE (on_read_buf rb_get) (\<lambda>len.
     bindE peek_uvarint (\<lambda>(i, _). bindE peek_uvarint (\<lambda>(t, bytes).
     seqE (whenE (int bytes \<noteq> sint len) (on_read_buf (unget (bytes + 2))))
       (retE \<lparr>log_index = i, log_term = t\<rparr>))))"

section \<open>What the encoders and decoders lose\<close>

lemma peek_run: "peek_uvarint c = (Inr (v, n), c') \<Longrightarrow> c' = c"
  by (simp add: peek_uvarint_def liftE_def)

lemma peek_twice:
  assumes "peek_uvarint c = (Inr (v, n), c)"
  shows "bindE peek_uvarint (\<lambda>(a, b). f a b) c = f v n c"
  using assms by (simp add: bindE_def)

lemma length_encode_at_start: "length (encode_uint v) \<le> length buf \<Longrightarrow> length (encode_at_start buf v) = length buf"
  by (simp add: encode_at_start_def)

text \<open>Values below 128 take one byte each, and the last one written is all that is left.\<close>

lemma encode_small: "unat v < 128 \<Longrightarrow> encode_uint v = [ucast v]"
proof -
  assume v: "unat v < 128"
  have "unat (drop_bit 7 v) = 0" using v by (simp add: unat_drop_bit_eq drop_bit_eq_div unat_div_distrib)
  then have "drop_bit 7 v = 0" by (simp only: unat_eq_0)
  moreover have "v AND 0x7F = v"
  proof (rule bit_word_eqI)
    fix n assume "n < LENGTH(64)"
    have "\<not> bit v n" if "7 \<le> n"
    proof -
      have "bit v n = bit (drop_bit 7 v) (n - 7)" using that by (simp add: bit_drop_bit_eq)
      then show ?thesis using \<open>drop_bit 7 v = 0\<close> by simp
    qed
    then show "bit (v AND 0x7F) n = bit v n" unfolding low_mask
      by (cases "7 \<le> n") (auto simp: bit_simps)
  qed
  ultimately show ?thesis by (subst encode_uint.simps) simp
qed

lemma encode_fields_small:
  assumes "vs \<noteq> []" "\<And>v. v \<in> set vs \<Longrightarrow> unat v < 128" "stk \<noteq> []"
  shows "encode_fields stk n vs = (ucast (last vs) # tl stk, n + length vs)"
  using assms
proof (induction vs arbitrary: stk n)
  case (Cons v vs)
  have s: "encode_at_start stk v = ucast v # tl stk"
    using Cons.prems encode_small [of v] by (cases stk) (auto simp: encode_at_start_def)
  show ?case
  proof (cases "vs = []")
    case True
    then show ?thesis using s Cons.prems encode_small [of v] by simp
  next
    case False
    then show ?thesis using Cons.IH [of "encode_at_start stk v"] Cons.prems encode_small [of v] s by simp
  qed
qed simp

text \<open>A decoder reads every field at the same place.\<close>

lemma decoded_fields_equal:
  assumes "get_request_vote_args c = (Inr a, c')"
  shows "rv_term a = last_log_index a \<and> last_log_index a = last_log_term a \<and> candidate_id a = ucast (rv_term a)"
proof -
  obtain x c1 where "on_read_buf (rb_get_bytes 2) c = (Inr x, c1)" and
    run: "bindE peek_uvarint (\<lambda>(t, _). bindE peek_uvarint (\<lambda>(cd, _). bindE peek_uvarint (\<lambda>(i, _).
      bindE peek_uvarint (\<lambda>(lt, bytes). seqE (step_back bytes)
       (retE \<lparr>rv_term = t, candidate_id = ucast cd, last_log_index = i, last_log_term = lt\<rparr>))))) c1 = (Inr a, c')"
    using assms unfolding get_request_vote_args_def seqE_Inr by blast
  then obtain v n where p: "peek_uvarint c1 = (Inr (v, n), c1)"
    by (auto simp: bindE_Inr dest: peek_run)
  have "seqE (step_back n) (retE \<lparr>rv_term = v, candidate_id = ucast v, last_log_index = v, last_log_term = v\<rparr>) c1 = (Inr a, c')"
    using run by (simp add: peek_twice [OF p])
  then show ?thesis by (auto simp: seqE_Inr retE_def)
qed

section \<open>The properties\<close>

definition rv_demo :: "nat \<Rightarrow> request_vote_args" where
  "rv_demo t = \<lparr>rv_term = of_nat t, candidate_id = 3, last_log_index = 5, last_log_term = 1\<rparr>"

text \<open>A vote request is not transmitted.  The encoder writes each field over the previous one and \<open>last_log_index\<close>
  in place of \<open>last_log_term\<close>, so two requests with small fields that agree on \<open>last_log_index\<close> have the same
  encoding whatever their terms and candidates; and whatever the decoder reads, its four fields are one number.\<close>

theorem request_vote_args_not_transmitted:
  assumes "stk \<noteq> []" "last_log_index a = last_log_index b"
    and "unat (rv_term a) < 128" "unat (candidate_id a) < 128" "unat (last_log_index a) < 128"
    and "unat (rv_term b) < 128" "unat (candidate_id b) < 128"
    and "get_request_vote_args c = (Inr d, c')"
  shows "put_request_vote_args stk a = put_request_vote_args stk b \<and>
    rv_term d = last_log_index d \<and> last_log_index d = last_log_term d \<and> candidate_id d = ucast (rv_term d)"
proof -
  have small: "unat (ucast x :: 64 word) < 128" if "unat x < 128" for x :: "32 word"
    using that by (simp add: unsigned_ucast_eq take_bit_eq_mod)
  have stk: "take 40 stk \<noteq> []" using assms(1) by simp
  have enc: "encode_fields (take 40 stk) 0 [rv_term r, ucast (candidate_id r), last_log_index r, last_log_index r]
      = (ucast (last_log_index r) # tl (take 40 stk), 4)"
    if "unat (rv_term r) < 128" "unat (candidate_id r) < 128" "unat (last_log_index r) < 128" for r
  proof -
    let ?vs = "[rv_term r, ucast (candidate_id r), last_log_index r, last_log_index r]"
    have "unat v < 128" if "v \<in> set ?vs" for v using that \<open>unat (rv_term r) < 128\<close> \<open>unat (candidate_id r) < 128\<close>
      \<open>unat (last_log_index r) < 128\<close> small by auto
    from encode_fields_small [of ?vs, OF _ this stk, where n = 0] show ?thesis by (simp del: encode_fields.simps)
  qed
  have "put_request_vote_args stk a = put_request_vote_args stk b"
    unfolding put_request_vote_args_def enc [OF assms(3-5)] enc [OF assms(6,7) assms(5) [unfolded assms(2)]]
    by (simp add: assms(2))
  then show ?thesis using decoded_fields_equal [OF assms(8)] by simp
qed

definition codec_demo :: codec where
  "codec_demo = \<lparr>read_buf = \<lparr>rb_buf = Some [4, 0, 9, 9], rb_full = False, rb_head = 3, rb_tail = 0, max_size = 4\<rparr>,
     write_buf = \<lparr>rb_buf = Some [0, 0, 0, 0], rb_full = False, rb_head = 0, rb_tail = 0, max_size = 4\<rparr>\<rparr>"

theorem request_vote_args_not_transmitted_witness:
  "put_request_vote_args (replicate 40 0) (rv_demo 1) = put_request_vote_args (replicate 40 0) (rv_demo 2) \<and>
   rv_demo 1 \<noteq> rv_demo 2"
proof -
  have "fst (get_request_vote_args codec_demo) = Inr \<lparr>rv_term = 9, candidate_id = 9, last_log_index = 9, last_log_term = 9\<rparr>"
    by (simp add: get_request_vote_args_def codec_demo_def on_read_buf_def rb_get_bytes_def run_simps rb_size_def read_mem_def
        advance_get_def wrap_def uadd_def seqE_def bindE_def peek_uvarint_def get_begin_def decode_uvarint_def step_back_def
        unget_def full_def usub_def whenE_def retE_def)
  then have run: "get_request_vote_args codec_demo =
      (Inr \<lparr>rv_term = 9, candidate_id = 9, last_log_index = 9, last_log_term = 9\<rparr>, snd (get_request_vote_args codec_demo))"
    by (metis prod.collapse)
  have ne: "replicate 40 0 \<noteq> ([] :: byte list)" by simp
  show ?thesis
    using request_vote_args_not_transmitted [OF ne _ _ _ _ _ _ run, of "rv_demo 1" "rv_demo 2"] by (simp add: rv_demo_def)
qed

text \<open>\<open>is_ready\<close> answers \<open>false\<close> exactly when the read buffer holds more than one whole message.\<close>

lemma is_ready_inverted:
  assumes "get_begin (read_buf c) = Inr data" "decode_varint data = Inr (v, bytes)"
    and "0 \<le> sint v" "sint v + int bytes < int (rb_size (read_buf c))" "int (rb_size (read_buf c)) < 2 ^ 31"
  shows "is_ready c = Inr False"
  using assms to_int32_id [of "sint v"] by (auto simp: is_ready_def Let_def c_int_def int_range_def)

end
