(* ===== verification/Raft.thy ===== *)
theory Raft
  imports Dispatcher Rpc_Codec
begin

text \<open>
  \<^verbatim>\<open>consensus/raft/raft_server.{h,cc}\<close>: leader election and log replication.

  The mutex of the server is a field of the state.  Locking it while the same thread holds it never returns:
  \<open>Deadlock\<close>.  A guard releases the mutex when an exception passes; a thread that hangs or has run into undefined
  behaviour keeps it.  Each operation takes an \<open>env\<close>: the readings of the clock and of the random source, of
  which every operation uses at most one timer's worth.  An RPC to a peer appends a message to \<open>outbox\<close> and takes the
  next call number of that connection.  Reading an uninitialised local variable is undefined behaviour.
\<close>

section \<open>The state\<close>

datatype role = follower | candidate | leader

datatype raft_task = Start_vote | Retry_vote "64 word list" | Heartbeat | Cancel_calls "64 word list"

datatype message = Request_vote request_vote_args | Append_entries append_entries_args

record env =
  e_now :: int
  e_now' :: int
  e_random :: int

record raft =
  mutex :: bool
  rs_id :: int
  rs_role :: role
  votes :: int
  current_term :: "64 word"
  voted_for :: int
  log_entries :: "log_entry list"
  commit_index :: "64 word"
  last_applied :: "64 word"
  next_index :: "int list"
  match_index :: "int list"
  peers :: "64 word list"
  outbox :: "(nat \<times> message) list"
  disp :: "raft_task dispatcher"
  timer_id :: timer_id
  election_timer_id :: timer_id
  heartbeat_timer_id :: timer_id

type_synonym 'a rf = "(raft, 'a) eff"

definition TIMEOUT_BASE :: int where "TIMEOUT_BASE = 150"
definition TIMEOUT_TOP :: int where "TIMEOUT_TOP = 300"
definition HEARTBEAT_INTERVAL :: int where "HEARTBEAT_INTERVAL = 30"

text \<open>\<open>role_\<close>, \<open>votes_\<close> and the timer identifiers are not initialised: they come from \<open>raw\<close>.\<close>

definition mk_raft_server :: "raft \<Rightarrow> raft_task dispatcher \<Rightarrow> int \<Rightarrow> raft" where
  "mk_raft_server raw d i = raw\<lparr>mutex := False, rs_id := i, current_term := 0, voted_for := -1, log_entries := [],
     commit_index := 0, last_applied := 0, next_index := [], match_index := [], peers := [], outbox := [], disp := d\<rparr>"

definition lock_mutex :: "unit rf" where
  "lock_mutex = bindE (getE mutex) (\<lambda>h. if h then throwE Deadlock else modE (\<lambda>s. s\<lparr>mutex := True\<rparr>))"

definition release :: "'a res \<times> raft \<Rightarrow> 'a res \<times> raft" where
  "release p = (case p of (Inr x, s) \<Rightarrow> (Inr x, s\<lparr>mutex := False\<rparr>)
     | (Inl e, s) \<Rightarrow> (Inl e, if is_std e then s\<lparr>mutex := False\<rparr> else s))"

definition locked :: "'a rf \<Rightarrow> 'a rf" where
  "locked m = seqE lock_mutex (\<lambda>s. release (m s))"

definition on_disp :: "(raft_task, 'a) Dispatcher.disp \<Rightarrow> 'a rf" where
  "on_disp m s = (case m (disp s) of (r, d) \<Rightarrow> (r, s\<lparr>disp := d\<rparr>))"

definition cancel_timer :: "timer_id \<Rightarrow> unit rf" where
  "cancel_timer t = bindE (on_disp (cancel t)) (\<lambda>_. retE ())"

text \<open>\<open>v[i]\<close> and \<open>v.back()\<close>; an \<open>int\<close> index converts to \<open>size_t\<close>, so a negative one is out of range.\<close>

definition vec_at :: "'v list \<Rightarrow> int \<Rightarrow> 'v res" where
  "vec_at v i = (if 0 \<le> i \<and> nat i < length v then Inr (v ! nat i) else Inl Undefined_behaviour)"

definition vec_back :: "'v list \<Rightarrow> 'v res" where
  "vec_back v = (if v = [] then Inl Undefined_behaviour else Inr (last v))"

definition call_peer :: "nat \<Rightarrow> message \<Rightarrow> (64 word) rf" where
  "call_peer i msg = bindE (getE (\<lambda>s. peers s ! i)) (\<lambda>n.
     seqE (modE (\<lambda>s. s\<lparr>peers := (peers s)[i := n + 1], outbox := outbox s @ [(i, msg)]\<rparr>)) (retE n))"

section \<open>The operations\<close>

definition majority :: "int rf" where
  "majority = locked (getE (\<lambda>s. (int (length (peers s)) + 1) div 2))"

definition is_leader :: "bool rf" where
  "is_leader = locked (getE (\<lambda>s. rs_role s = leader))"

definition get_election_timeout :: "env \<Rightarrow> int res" where
  "get_election_timeout en = (if TIMEOUT_BASE \<le> e_random en \<and> e_random en \<le> TIMEOUT_TOP then Inr (e_random en)
     else Inl Undefined_behaviour)"

definition reschedule_election :: "env \<Rightarrow> unit rf" where
  "reschedule_election en = bindE (liftE (\<lambda>_. get_election_timeout en)) (\<lambda>t.
     bindE (on_disp (run_after t Start_vote (e_now en) (e_now' en))) (\<lambda>tid.
     modE (\<lambda>s. s\<lparr>election_timer_id := tid\<rparr>)))"

text \<open>Calls to peers \<open>i, i+1, ...\<close> in order; the call numbers are collected.\<close>

fun call_all :: "nat \<Rightarrow> nat \<Rightarrow> (nat \<Rightarrow> raft \<Rightarrow> message res) \<Rightarrow> (64 word list) rf" where
  "call_all i 0 f = retE []"
| "call_all i (Suc n) f = bindE (liftE (f i)) (\<lambda>msg. bindE (call_peer i msg) (\<lambda>r.
     bindE (call_all (Suc i) n f) (\<lambda>rs. retE (r # rs))))"

definition vote_args :: "nat \<Rightarrow> raft \<Rightarrow> message res" where
  "vote_args i s = bindR (vec_back (log_entries s)) (\<lambda>e.
     Inr (Request_vote \<lparr>rv_term = current_term s, candidate_id = word_of_int (rs_id s), last_log_index = log_index e,
       last_log_term = log_term e\<rparr>))"

definition send_request_vote_args :: "env \<Rightarrow> unit rf" where
  "send_request_vote_args en = locked (
     bindE (liftE (vote_args 0)) (\<lambda>_.
     bindE (getE (\<lambda>s. length (peers s))) (\<lambda>size.
     bindE (call_all 0 size vote_args) (\<lambda>rpcids.
     bindE (liftE (\<lambda>_. get_election_timeout en)) (\<lambda>t.
     bindE (on_disp (run_after t (Retry_vote rpcids) (e_now en) (e_now' en))) (\<lambda>tid.
     modE (\<lambda>s. s\<lparr>election_timer_id := tid\<rparr>)))))))"

text \<open>The closure of the election timer, after it has cancelled the calls.\<close>

definition retry_vote :: "env \<Rightarrow> unit rf" where
  "retry_vote en = locked (bindE (getE rs_role) (\<lambda>r. whenE (r = candidate) (send_request_vote_args en)))"

text \<open>\<open>convert_to\<close> takes the term as an \<open>int\<close>.\<close>

definition convert_to :: "env \<Rightarrow> role \<Rightarrow> int \<Rightarrow> unit rf" where
  "convert_to en r term = (case r of
      follower \<Rightarrow>
        bindE (getE rs_role) (\<lambda>cur. bindE (getE (\<lambda>s. (heartbeat_timer_id s, election_timer_id s))) (\<lambda>(hb, el).
        seqE (if cur = leader then cancel_timer hb else if cur = candidate then cancel_timer el else retE ()) (
        seqE (locked (modE (\<lambda>s. s\<lparr>rs_role := follower, current_term := word_of_int term, voted_for := -1\<rparr>)))
          (reschedule_election en))))
    | candidate \<Rightarrow>
        seqE (locked (modE (\<lambda>s. s\<lparr>rs_role := candidate, current_term := current_term s + 1, voted_for := rs_id s, votes := 1\<rparr>)))
          (send_request_vote_args en)
    | leader \<Rightarrow>
        seqE (locked (modE (\<lambda>s. s\<lparr>rs_role := leader,
            next_index := map (\<lambda>_. int (length (log_entries s)) + 1) (next_index s),
            match_index := map (\<lambda>_. 0) (match_index s)\<rparr>)))
        (bindE (on_disp (run_every 0 HEARTBEAT_INTERVAL Heartbeat (e_now en) (e_now' en))) (\<lambda>tid.
          modE (\<lambda>s. s\<lparr>heartbeat_timer_id := tid\<rparr>))))"

text \<open>The reply object arrives uninitialised (\<open>rep\<close>); on a grant the code compares \<open>reply.term\<close> instead of
  assigning it.\<close>

definition request_vote :: "env \<Rightarrow> request_vote_args \<Rightarrow> request_vote_reply \<Rightarrow> request_vote_reply rf" where
  "request_vote en args rep = locked (
     bindE (getE current_term) (\<lambda>ct.
     if rv_term args < ct then retE \<lparr>rvr_term = rv_term args, vote_granted = 0\<rparr>
     else
       seqE (whenE (rv_term args > ct) (convert_to en follower (to_int32 (uint (rv_term args))))) (
       bindE (getE voted_for) (\<lambda>v.
       bindE (if v = -1 \<or> word_of_int v = candidate_id args
              then bindE (liftE (\<lambda>s. vec_back (log_entries s))) (\<lambda>e.
                     retE (log_index e = last_log_index args \<and> log_term e = last_log_term args))
              else retE False) (\<lambda>grant.
       if grant then seqE (modE (\<lambda>s. s\<lparr>voted_for := sint (candidate_id args)\<rparr>)) (retE (rep\<lparr>vote_granted := 1\<rparr>))
       else retE \<lparr>rvr_term = rv_term args, vote_granted = 0\<rparr>)))))"

definition receive_request_vote_reply :: "env \<Rightarrow> request_vote_reply \<Rightarrow> unit rf" where
  "receive_request_vote_reply en rep = locked (
     bindE (getE rs_role) (\<lambda>r.
     if r \<noteq> candidate then retE ()
     else
       bindE (getE current_term) (\<lambda>ct.
       seqE (whenE (rvr_term rep > ct) (convert_to en follower (to_int32 (uint (rvr_term rep))))) (
       bindE (getE current_term) (\<lambda>ct.
       whenE (rvr_term rep = ct \<and> vote_granted rep \<noteq> 0) (
         seqE (modE (\<lambda>s. s\<lparr>votes := votes s + 1\<rparr>)) (
         bindE (getE votes) (\<lambda>v.
         bindE majority (\<lambda>m.
         whenE (v \<ge> m) (convert_to en leader (-1)))))))))))"

definition append_args :: "nat \<Rightarrow> raft \<Rightarrow> message res" where
  "append_args i s = bindR (vec_at (next_index s) (int i)) (\<lambda>n.
     bindR (vec_at (log_entries s) (n - 1)) (\<lambda>p.
     Inr (Append_entries \<lparr>ae_term = current_term s, leader_id = word_of_int (rs_id s), prev_log_index = log_index p,
       prev_log_term = log_term p, leader_commit = commit_index s,
       ae_entries = (if n < 0 then [] else drop (nat n) (log_entries s))\<rparr>)))"

definition send_append_entries_args :: "env \<Rightarrow> unit rf" where
  "send_append_entries_args en = locked (
     bindE (getE rs_role) (\<lambda>r.
     if r \<noteq> leader then retE ()
     else bindE (getE (\<lambda>s. length (peers s))) (\<lambda>size.
       bindE (call_all 0 size append_args) (\<lambda>rpcids.
       bindE (on_disp (run_after TIMEOUT_TOP (Cancel_calls rpcids) (e_now en) (e_now' en))) (\<lambda>tid.
       modE (\<lambda>s. s\<lparr>timer_id := tid\<rparr>))))))"

text \<open>The scan for a conflict: the value of \<open>index\<close> after the loop (\<open>None\<close> when it was never set) and the log.\<close>

fun conflict_scan :: "log_entry list \<Rightarrow> int option \<Rightarrow> log_entry list \<Rightarrow> (int option \<times> log_entry list) res" where
  "conflict_scan [] index l = Inr (index, l)"
| "conflict_scan (e # es) index l =
     (let i = to_int32 (uint (log_index e)); term = to_int32 (uint (log_term e)) in
      bindR (vec_at l i) (\<lambda>old.
        if log_term old \<noteq> word_of_int term then Inr (Some i, take (nat i) l) else conflict_scan es (Some i) l))"

definition append_entries :: "append_entries_args \<Rightarrow> append_entries_reply \<Rightarrow> append_entries_reply rf" where
  "append_entries args rep = locked (
     bindE (getE (\<lambda>s. (current_term s, log_entries s))) (\<lambda>(ct, l).
     if ae_term args < ct then retE \<lparr>aer_term = ae_term args, success = 0\<rparr>
     else if int (length l) < uint (prev_log_index args) then retE \<lparr>aer_term = ae_term args, success = 0\<rparr>
     else bindE (liftE (\<lambda>_. vec_at l (uint (prev_log_index args)))) (\<lambda>p.
       if log_term p \<noteq> prev_log_term args then retE \<lparr>aer_term = ae_term args, success = 0\<rparr>
       else bindE (liftE (\<lambda>_. conflict_scan (ae_entries args) None l)) (\<lambda>(index, l').
         case index of None \<Rightarrow> throwE Undefined_behaviour
         | Some i \<Rightarrow>
             if i < 0 \<or> int (length (ae_entries args)) < i then
               seqE (modE (\<lambda>s. s\<lparr>log_entries := l'\<rparr>)) (throwE Undefined_behaviour)
             else
               seqE (modE (\<lambda>s. s\<lparr>log_entries := l' @ drop (nat i) (ae_entries args)\<rparr>)) (
               seqE (modE (\<lambda>s. if leader_commit args > commit_index s
                   then s\<lparr>commit_index := min (leader_commit args) (of_nat (length (log_entries s)) - 1)\<rparr> else s))
               (retE rep))))))"

text \<open>\<open>for (n = commit_index_ + 1; n < size; n++)\<close>; the condition calls \<open>majority\<close>.\<close>

fun commit_loop :: "int list \<Rightarrow> unit rf" where
  "commit_loop [] = retE ()"
| "commit_loop (n # ns) =
     bindE (getE (\<lambda>s. int (length (filter (\<lambda>m. m \<ge> n) (take (length (peers s)) (match_index s)))))) (\<lambda>count.
     bindE majority (\<lambda>m.
     bindE (if count \<ge> m then bindE (liftE (\<lambda>s. vec_at (log_entries s) n)) (\<lambda>e. getE (\<lambda>s. log_term e = current_term s))
            else retE False) (\<lambda>b.
     seqE (whenE b (modE (\<lambda>s. s\<lparr>commit_index := word_of_int n\<rparr>))) (commit_loop ns))))"

definition update_commit_index :: "unit rf" where
  "update_commit_index = bindE (getE (\<lambda>s. (to_int32 (uint (commit_index s + 1)), int (length (log_entries s))))) (\<lambda>(n, size).
     commit_loop (if n < 0 then [] else [n..size - 1]))"

definition receive_append_entries_reply :: "env \<Rightarrow> nat \<Rightarrow> append_entries_reply \<Rightarrow> unit rf" where
  "receive_append_entries_reply en i rep = locked (
     bindE (getE rs_role) (\<lambda>r.
     if r \<noteq> leader then retE ()
     else
       bindE (getE current_term) (\<lambda>ct.
       seqE (whenE (aer_term rep > ct) (convert_to en follower (to_int32 (uint (aer_term rep))))) (
       bindE (getE (\<lambda>s. length (next_index s))) (\<lambda>n.
       seqE (guardE (i < n) Undefined_behaviour) (
       seqE (if success rep \<noteq> 0 then
               modE (\<lambda>s. s\<lparr>next_index := (next_index s)[i := next_index s ! i + 1],
                           match_index := (match_index s)[i := match_index s ! i + 1]\<rparr>)
             else seqE (modE (\<lambda>s. s\<lparr>next_index := (next_index s)[i := next_index s ! i - 1]\<rparr>)) (send_append_entries_args en))
         update_commit_index))))))"

definition add_peer :: "64 word \<Rightarrow> unit rf" where
  "add_peer conn = locked (modE (\<lambda>s. s\<lparr>peers := peers s @ [conn], next_index := next_index s @ [0], match_index := match_index s @ [0]\<rparr>))"

text \<open>\<open>apply_func_\<close> is the argument \<open>apf\<close>; the local \<open>ret\<close> is returned unset when there is nothing to apply.\<close>

definition apply_to_statemachine :: "(log_entry \<Rightarrow> bool) \<Rightarrow> bool rf" where
  "apply_to_statemachine apf = bindE (getE (\<lambda>s. commit_index s > last_applied s)) (\<lambda>b.
     if b then
       seqE (modE (\<lambda>s. s\<lparr>last_applied := last_applied s + 1\<rparr>)) (
       bindE (liftE (\<lambda>s. vec_at (log_entries s) (uint (last_applied s)))) (\<lambda>e.
       seqE (whenE (\<not> apf e) (modE (\<lambda>s. s\<lparr>last_applied := last_applied s - 1\<rparr>))) (retE (apf e))))
     else throwE Undefined_behaviour)"

definition raft_replicate :: "(log_entry \<Rightarrow> bool) \<Rightarrow> bool rf" where
  "raft_replicate apf = bindE (locked (bindE (getE rs_role) (\<lambda>r.
       if r \<noteq> leader then retE False
       else seqE (modE (\<lambda>s. s\<lparr>log_entries := log_entries s @
              [\<lparr>log_index = of_nat (length (log_entries s)), log_term = current_term s\<rparr>]\<rparr>)) (retE True)))) (\<lambda>ok.
     if ok then bindE (apply_to_statemachine apf) (\<lambda>_. retE True) else retE False)"

section \<open>What the handlers can change\<close>

text \<open>Role, term and, after the first vote, the vote of a server.\<close>

definition rtv :: "role \<Rightarrow> 64 word \<Rightarrow> raft \<Rightarrow> bool" where
  "rtv r t s \<longleftrightarrow> rs_role s = r \<and> current_term s = t"

definition voted :: "int \<Rightarrow> raft \<Rightarrow> bool" where
  "voted v s \<longleftrightarrow> voted_for s = v"

text \<open>A predicate of the state that does not look at the fields the model changes freely.\<close>

definition core_pred :: "(raft \<Rightarrow> bool) \<Rightarrow> bool" where
  "core_pred P \<longleftrightarrow> (\<forall>s s'. rs_role s = rs_role s' \<and> current_term s = current_term s' \<and> voted_for s = voted_for s' \<longrightarrow> P s = P s')"

lemma core_predD: "core_pred P \<Longrightarrow> rs_role s = rs_role s' \<Longrightarrow> current_term s = current_term s' \<Longrightarrow> voted_for s = voted_for s' \<Longrightarrow> P s = P s'"
  unfolding core_pred_def by blast

lemma core_rtv: "core_pred (rtv r t)"
  by (auto simp: core_pred_def rtv_def)

lemma core_voted: "core_pred (voted v)"
  by (auto simp: core_pred_def voted_def)

lemma core_mod:
  assumes "core_pred P" "\<And>s. rs_role (f s) = rs_role s \<and> current_term (f s) = current_term s \<and> voted_for (f s) = voted_for s"
  shows "keepsE P (modE f)"
  using assms unfolding core_pred_def by (intro keepsE_mod) blast

text \<open>Under the mutex, a second lock never succeeds and changes nothing.\<close>

definition held :: "(raft \<Rightarrow> bool) \<Rightarrow> raft \<Rightarrow> bool" where
  "held P s \<longleftrightarrow> mutex s \<and> P s"

lemma keepsE_locked_held [keeps_rules]: "keepsE (held P) (locked m)"
  by (simp add: keepsE_def held_def locked_def lock_mutex_def seqE_def bindE_def getE_def throwE_def)

lemma locked_held: "mutex s \<Longrightarrow> locked m s = (Inl Deadlock, s)"
  by (simp add: locked_def lock_mutex_def seqE_def bindE_def getE_def throwE_def)

lemma locked_free: "\<not> mutex s \<Longrightarrow> locked m s = release (m (s\<lparr>mutex := True\<rparr>))"
  by (simp add: locked_def lock_mutex_def seqE_def bindE_def getE_def modE_def)

lemma keepsE_locked:
  assumes "core_pred P" "keepsE (held P) m"
  shows "keepsE P (locked m)"
  unfolding keepsE_def
proof (intro allI impI)
  fix s assume P: "P s"
  show "P (snd (locked m s))"
  proof (cases "mutex s")
    case False
    have "P (s\<lparr>mutex := True\<rparr>) = P s" by (rule core_predD [OF assms(1)]) simp_all
    then have "P (s\<lparr>mutex := True\<rparr>)" using P by simp
    then have "P (snd (m (s\<lparr>mutex := True\<rparr>)))" using assms(2) by (simp add: keepsE_def held_def)
    moreover have "P (u\<lparr>mutex := False\<rparr>) = P u" for u by (rule core_predD [OF assms(1)]) simp_all
    moreover have "\<exists>u. snd (locked m s) = u\<lparr>mutex := False\<rparr> \<and> u = snd (m (s\<lparr>mutex := True\<rparr>)) \<or> snd (locked m s) = snd (m (s\<lparr>mutex := True\<rparr>))"
      by (auto simp: locked_free [OF False] release_def split: prod.splits sum.splits)
    ultimately show ?thesis by metis
  qed (use P in \<open>simp add: locked_held\<close>)
qed

text \<open>A \<open>core\<close> update keeps the mutex too.\<close>

lemma held_mod:
  assumes "core_pred P" "\<And>s. rs_role (f s) = rs_role s \<and> current_term (f s) = current_term s \<and> voted_for (f s) = voted_for s \<and> mutex (f s) = mutex s"
  shows "keepsE (held P) (modE f)"
  using assms unfolding core_pred_def held_def by (intro keepsE_mod) blast

lemma held_on_disp:
  assumes "core_pred P"
  shows "keepsE (held P) (on_disp m)"
proof -
  have "P (s\<lparr>disp := d\<rparr>) = P s" for s d by (rule core_predD [OF assms]) simp_all
  then show ?thesis by (auto simp: keepsE_def held_def on_disp_def split: prod.splits)
qed

lemma held_call_all:
  assumes "core_pred P"
  shows "keepsE (held P) (call_all i n f)"
proof (induction n arbitrary: i)
  case (Suc n)
  show ?case unfolding call_all.simps call_peer_def
    by (intro keeps_rules held_mod [OF assms] Suc.IH) simp_all
qed (simp add: keeps_rules)

lemma held_convert:
  assumes "core_pred P"
  shows "keepsE (held P) (convert_to en r t)"
proof (cases r)
  case follower
  have "keepsE (held P) (cancel_timer x)" for x unfolding cancel_timer_def by (intro keeps_rules held_on_disp [OF assms])
  moreover have "keepsE (held P) (reschedule_election en)" unfolding reschedule_election_def
    by (intro keeps_rules held_on_disp [OF assms] held_mod [OF assms]) simp_all
  ultimately show ?thesis unfolding convert_to_def follower role.case split_def by (intro keeps_rules)
next
  case candidate
  show ?thesis unfolding convert_to_def candidate role.case send_request_vote_args_def by (intro keeps_rules)
next
  case leader
  show ?thesis unfolding convert_to_def leader role.case
    by (intro keeps_rules held_on_disp [OF assms] held_mod [OF assms]) simp_all
qed

lemma keepsE_case_prod [keeps_rules]: "(\<And>a b. keepsE I (f a b)) \<Longrightarrow> keepsE I (case p of (a, b) \<Rightarrow> f a b)"
  by (simp add: split_def)

lemma keepsE_case_option [keeps_rules]:
  "keepsE I f \<Longrightarrow> (\<And>x. keepsE I (g x)) \<Longrightarrow> keepsE I (case p of None \<Rightarrow> f | Some x \<Rightarrow> g x)"
  by (simp split: option.split)

lemma held_commit_loop: "core_pred P \<Longrightarrow> keepsE (held P) (commit_loop ns)"
proof (induction ns)
  case (Cons n ns)
  show ?case unfolding commit_loop.simps majority_def
    by (intro keeps_rules held_mod Cons.prems Cons.IH) simp_all
qed (simp add: keeps_rules)

lemmas handler_rules = keeps_rules held_convert held_call_all held_on_disp held_commit_loop

text \<open>Every handler but \<open>request_vote\<close> keeps every core predicate; \<open>request_vote\<close> keeps role and term.\<close>

lemma keeps_handlers:
  assumes P: "core_pred P"
  shows "keepsE P (receive_request_vote_reply en rep)" "keepsE P (append_entries ae arep)"
    "keepsE P (receive_append_entries_reply en i arep)" "keepsE P (send_request_vote_args en)" "keepsE P (retry_vote en)"
    "keepsE P (send_append_entries_args en)" "keepsE P (add_peer c)"
  unfolding receive_request_vote_reply_def append_entries_def receive_append_entries_reply_def send_request_vote_args_def
    retry_vote_def send_append_entries_args_def add_peer_def update_commit_index_def majority_def
  by (intro keepsE_locked P handler_rules held_mod [OF P]; simp)+

lemma keeps_replicate:
  assumes P: "core_pred P"
  shows "keepsE P (raft_replicate apf)"
  unfolding raft_replicate_def apply_to_statemachine_def
  by (intro keepsE_locked P handler_rules held_mod [OF P] core_mod [OF P]; simp)

lemma request_vote_rtv: "keepsE (rtv r t) (request_vote en args rep)"
proof -
  have "keepsE (held (rtv r t)) (modE (\<lambda>s. s\<lparr>voted_for := v\<rparr>))" for v
    by (rule keepsE_mod) (simp add: held_def rtv_def)
  then show ?thesis unfolding request_vote_def by (intro keepsE_locked core_rtv handler_rules)
qed

section \<open>Conversions under the mutex never return\<close>

lemma cancel_outcome: "wpE (cancel t) (\<lambda>_ _. True) (\<lambda>e _. e = Undefined_behaviour) d"
  by (auto simp: cancel_def wp_simps split: option.split)

lemma cancel_timer_outcome: "mutex s \<Longrightarrow> wpE (cancel_timer t) (\<lambda>_ s'. mutex s') (\<lambda>e _. e = Undefined_behaviour) s"
  using cancel_outcome [of t "disp s"]
  by (auto simp: cancel_timer_def wpE_def on_disp_def bindE_def retE_def split: prod.splits sum.splits)

lemma wpE_locked_held: "mutex s \<Longrightarrow> wpE (locked m) Q R s = R Deadlock s"
  by (simp add: wpE_def locked_held)

lemma wpE_locked_seq_held: "mutex s \<Longrightarrow> wpE (seqE (locked m) k) Q R s = R Deadlock s"
  by (simp add: wpE_def seqE_fail [OF locked_held])

definition stuck :: "exn \<Rightarrow> bool" where
  "stuck e \<longleftrightarrow> e = Deadlock \<or> e = Undefined_behaviour"

lemma convert_to_held: "mutex s \<Longrightarrow> wpE (convert_to en r t) (\<lambda>_ _. False) (\<lambda>e _. stuck e) s"
proof (cases r)
  case follower
  assume m: "mutex s"
  have k: "wpE (seqE (locked (modE f)) (reschedule_election en)) (\<lambda>_ _. False) (\<lambda>e _. stuck e) s'" if "mutex s'" for f s'
    using that by (simp add: wpE_locked_seq_held stuck_def)
  have "wpE (cancel_timer x) (\<lambda>_. wpE (seqE (locked (modE f)) (reschedule_election en)) (\<lambda>_ _. False) (\<lambda>e _. stuck e)) (\<lambda>e _. stuck e) s" for x f
    by (rule wpE_mono [OF cancel_timer_outcome [OF m]]) (use k in blast, simp add: stuck_def)
  then show ?thesis using k [OF m] m by (auto simp: follower convert_to_def wp_simps wpE_locked_held stuck_def)
next
  case candidate
  assume "mutex s"
  then show ?thesis by (simp add: candidate convert_to_def wpE_locked_seq_held stuck_def)
next
  case leader
  assume "mutex s"
  then show ?thesis by (simp add: leader convert_to_def wpE_locked_seq_held stuck_def)
qed

lemma convert_to_held_run:
  assumes "mutex s"
  obtains e s' where "convert_to en r t s = (Inl e, s')" "stuck e"
  using convert_to_held [OF assms, of en r t] by (auto simp: wpE_def split: prod.splits sum.splits)

lemma stuck_release: "stuck e \<Longrightarrow> release (Inl e, s) = (Inl e, s)"
  by (auto simp: release_def stuck_def is_std_def)

lemma request_vote_higher:
  assumes "\<not> mutex s" "current_term s < rv_term args"
  shows "\<exists>e s'. request_vote en args rep s = (Inl e, s') \<and> stuck e"
proof -
  let ?s = "s\<lparr>mutex := True\<rparr>"
  obtain e s' where "convert_to en follower (to_int32 (uint (rv_term args))) ?s = (Inl e, s')" "stuck e"
    by (rule convert_to_held_run [of ?s]) simp
  then show ?thesis using assms
    by (auto simp: request_vote_def locked_free run_simps seqE_fail stuck_release)
qed

lemma granted_reply_deadlocks:
  assumes "\<not> mutex s" "rs_role s = candidate" "rvr_term rep = current_term s" "vote_granted rep \<noteq> 0"
  shows "fst (receive_request_vote_reply en rep s) = Inl Deadlock"
  using assms
  by (simp add: receive_request_vote_reply_def locked_free run_simps whenE_def majority_def bindE_fail [OF locked_held]
      release_def is_std_def)

text \<open>The decision of \<open>request_vote\<close> for a term the server has reached.\<close>

definition rejected :: "request_vote_args \<Rightarrow> request_vote_reply" where
  "rejected args = \<lparr>rvr_term = rv_term args, vote_granted = 0\<rparr>"

definition may_vote :: "request_vote_args \<Rightarrow> raft \<Rightarrow> bool" where
  "may_vote args s \<longleftrightarrow> voted_for s = -1 \<or> word_of_int (voted_for s) = candidate_id args"

definition same_log_end :: "request_vote_args \<Rightarrow> raft \<Rightarrow> bool" where
  "same_log_end args s \<longleftrightarrow> log_index (last (log_entries s)) = last_log_index args \<and>
     log_term (last (log_entries s)) = last_log_term args"

lemma raft_mutex_id: "\<not> mutex s \<Longrightarrow> s\<lparr>mutex := False\<rparr> = s"
  by simp

lemma request_vote_eq:
  assumes "\<not> mutex s" "rv_term args \<le> current_term s" "log_entries s \<noteq> []"
  shows "request_vote en args rep s =
    (if rv_term args = current_term s \<and> may_vote args s \<and> same_log_end args s
     then (Inr (rep\<lparr>vote_granted := 1\<rparr>), s\<lparr>voted_for := sint (candidate_id args)\<rparr>)
     else (Inr (rejected args), s))"
  using assms
  by (auto simp: request_vote_def locked_free run_simps release_def whenE_def bindE_def vec_back_def may_vote_def same_log_end_def
      rejected_def seqE_def)

lemma request_vote_granted:
  assumes "\<not> mutex s" "request_vote en args rep s = (Inr rep', s')" "vote_granted rep' \<noteq> 0"
  shows "rv_term args = current_term s \<and> may_vote args s \<and> s' = s\<lparr>voted_for := sint (candidate_id args)\<rparr>"
proof -
  have le: "rv_term args \<le> current_term s"
    using request_vote_higher [OF assms(1), of args en rep] assms(2) by fastforce
  show ?thesis
  proof (cases "log_entries s = []")
    case True
    then show ?thesis using assms le
      by (auto simp: request_vote_def locked_free run_simps release_def whenE_def bindE_def vec_back_def seqE_def split: if_splits)
  next
    case False
    then show ?thesis using request_vote_eq [OF assms(1) le False, of en rep] assms(2,3)
      by (auto simp: rejected_def split: if_splits)
  qed
qed

lemma request_vote_voted:
  fixes c :: "32 word"
  assumes "sint c \<noteq> -1"
  shows "keepsE (voted (sint c)) (request_vote en args rep)"
  unfolding keepsE_def
proof (intro allI impI)
  fix s assume v: "voted (sint c) s"
  consider "mutex s" | "\<not> mutex s" "current_term s < rv_term args" | "\<not> mutex s" "rv_term args \<le> current_term s" by fastforce
  then show "voted (sint c) (snd (request_vote en args rep s))"
  proof cases
    case 1
    then show ?thesis using v by (simp add: request_vote_def locked_held)
  next
    case 2
    let ?s = "s\<lparr>mutex := True\<rparr>" and ?m = "convert_to en follower (to_int32 (uint (rv_term args)))"
    obtain e s' where run: "?m ?s = (Inl e, s')" "stuck e" by (rule convert_to_held_run [of ?s]) simp
    have "held (voted (sint c)) (snd (?m ?s))"
      using held_convert [OF core_voted, of "sint c" en follower] v by (simp add: keepsE_def held_def voted_def)
    then have "voted (sint c) s'" using run by (simp add: held_def)
    moreover have "request_vote en args rep s = (Inl e, s')"
      using 2 run by (auto simp: request_vote_def locked_free run_simps seqE_fail stuck_release)
    ultimately show ?thesis by simp
  next
    case 3
    show ?thesis
    proof (cases "log_entries s = []")
      case True
      then show ?thesis using 3 v assms
        by (auto simp: request_vote_def locked_free run_simps release_def whenE_def bindE_def vec_back_def seqE_def voted_def is_std_def)
    next
      case False
      then show ?thesis using request_vote_eq [OF 3 False, of en rep] v assms by (auto simp: voted_def may_vote_def)
    qed
  qed
qed

section \<open>Runs\<close>

text \<open>One step is one call of a handler or a timer's closure, whatever its outcome.\<close>

inductive raft_step :: "raft \<Rightarrow> raft \<Rightarrow> bool" where
  rv: "raft_step s (snd (request_vote en args rep s))"
| rvr: "raft_step s (snd (receive_request_vote_reply en rep s))"
| ae: "raft_step s (snd (append_entries aargs arep s))"
| aer: "raft_step s (snd (receive_append_entries_reply en i arep s))"
| vote: "raft_step s (snd (send_request_vote_args en s))"
| retry: "raft_step s (snd (retry_vote en s))"
| beat: "raft_step s (snd (send_append_entries_args en s))"
| peer: "raft_step s (snd (add_peer c s))"
| repl: "raft_step s (snd (raft_replicate apf s))"

lemma raft_step_core: "raft_step s s' \<Longrightarrow> rtv r t s \<Longrightarrow> rtv r t s'"
  by (erule raft_step.cases)
    (use keeps_handlers [OF core_rtv] keeps_replicate [OF core_rtv] request_vote_rtv in \<open>auto simp: keepsE_def\<close>)

lemma raft_step_voted: "raft_step s s' \<Longrightarrow> sint (c :: 32 word) \<noteq> -1 \<Longrightarrow> voted (sint c) s \<Longrightarrow> voted (sint c) s'"
  by (erule raft_step.cases)
    (use keeps_handlers [OF core_voted] keeps_replicate [OF core_voted] request_vote_voted in \<open>auto simp: keepsE_def\<close>)

lemma raft_steps_core: "raft_step\<^sup>*\<^sup>* s s' \<Longrightarrow> rtv r t s \<Longrightarrow> rtv r t s'"
  by (induction rule: rtranclp_induct) (auto intro: raft_step_core)

lemma raft_steps_voted: "raft_step\<^sup>*\<^sup>* s s' \<Longrightarrow> sint (c :: 32 word) \<noteq> -1 \<Longrightarrow> voted (sint c) s \<Longrightarrow> voted (sint c) s'"
  by (induction rule: rtranclp_induct) (auto intro: raft_step_voted)

section \<open>The properties\<close>

definition raft_demo :: raft where
  "raft_demo = \<lparr>mutex = False, rs_id = 1, rs_role = candidate, votes = 1, current_term = 4, voted_for = -1,
     log_entries = [\<lparr>log_index = 0, log_term = 2\<rparr>], commit_index = 0, last_applied = 0, next_index = [0], match_index = [0],
     peers = [0], outbox = [], disp = mk_dispatcher 1, timer_id = (0, 0), election_timer_id = (0, 0), heartbeat_timer_id = (0, 0)\<rparr>"

definition env_demo :: env where
  "env_demo = \<lparr>e_now = 1000, e_now' = 1000, e_random = 200\<rparr>"

definition vote_demo :: "nat \<Rightarrow> 64 word \<Rightarrow> request_vote_args" where
  "vote_demo c t = \<lparr>rv_term = t, candidate_id = of_nat c, last_log_index = 0, last_log_term = 2\<rparr>"

text \<open>C19: the decision of \<open>request_vote\<close>.  For a request whose term is not above the server's, with a non-empty
  log and a free mutex, the vote is granted exactly when the terms are equal, the server has not voted for another
  candidate and the candidate's last entry is the server's; then the vote is recorded and nothing else changes,
  otherwise nothing changes at all and the reply carries the request's term.  On a grant the reply's term is the
  uninitialised one.\<close>

theorem request_vote_decision:
  assumes "\<not> mutex s" "rv_term args \<le> current_term s" "log_entries s \<noteq> []"
  shows "request_vote en args rep s =
    (if rv_term args = current_term s \<and> (voted_for s = -1 \<or> word_of_int (voted_for s) = candidate_id args) \<and>
        log_index (last (log_entries s)) = last_log_index args \<and> log_term (last (log_entries s)) = last_log_term args
     then (Inr \<lparr>rvr_term = rvr_term rep, vote_granted = 1\<rparr>, s\<lparr>voted_for := sint (candidate_id args)\<rparr>)
     else (Inr \<lparr>rvr_term = rv_term args, vote_granted = 0\<rparr>, s))"
  using request_vote_eq [OF assms, of en rep]
  by (auto simp: may_vote_def same_log_end_def rejected_def)

theorem request_vote_decision_witness:
  "request_vote env_demo (vote_demo 3 4) \<lparr>rvr_term = 77, vote_granted = 0\<rparr> raft_demo =
     (Inr \<lparr>rvr_term = 77, vote_granted = 1\<rparr>, raft_demo\<lparr>voted_for := 3\<rparr>)"
  using request_vote_decision [of raft_demo "vote_demo 3 4" env_demo "\<lparr>rvr_term = 77, vote_granted = 0\<rparr>"]
  by (simp add: raft_demo_def vote_demo_def)

text \<open>C20: a server never votes for two candidates.  If a call of \<open>request_vote\<close> grants the vote to a candidate, then
  after any sequence of calls of the handlers and timers, a later grant goes to the same candidate (a candidate
  identifier of \<open>2 ^ 32 - 1\<close> is the code's mark for no vote and is excluded).\<close>

theorem votes_for_one_candidate:
  assumes "\<not> mutex s" "request_vote en a rep s = (Inr r, s1)" "vote_granted r \<noteq> 0" "candidate_id a \<noteq> -1"
    and "raft_step\<^sup>*\<^sup>* s1 s2"
    and "\<not> mutex s2" "request_vote en' b rep' s2 = (Inr r', s3)" "vote_granted r' \<noteq> 0"
  shows "candidate_id b = candidate_id a \<and> rv_term b = rv_term a"
proof -
  have g1: "rv_term a = current_term s" "s1 = s\<lparr>voted_for := sint (candidate_id a)\<rparr>"
    using request_vote_granted [OF assms(1-3)] by auto
  have ne: "sint (candidate_id a) \<noteq> -1" using assms(4) by (metis signed_minus_1 signed_word_eqI)
  have v: "voted_for s2 = sint (candidate_id a)"
    using raft_steps_voted [OF assms(5) ne] g1 by (simp add: voted_def)
  have t: "current_term s2 = current_term s"
    using raft_steps_core [OF assms(5), of "rs_role s" "current_term s"] g1 by (simp add: rtv_def)
  have "rv_term b = current_term s2" "may_vote b s2"
    using request_vote_granted [OF assms(6-8)] by auto
  then show ?thesis using v t g1 ne by (auto simp: may_vote_def)
qed

theorem votes_for_one_candidate_witness:
  "request_vote env_demo (vote_demo 3 4) \<lparr>rvr_term = 4, vote_granted = 0\<rparr> (raft_demo\<lparr>voted_for := 3\<rparr>) =
     (Inr \<lparr>rvr_term = 4, vote_granted = 1\<rparr>, raft_demo\<lparr>voted_for := 3\<rparr>) \<and> candidate_id (vote_demo 3 4) = candidate_id (vote_demo 3 4)"
proof -
  let ?rep = "\<lparr>rvr_term = 4, vote_granted = 0\<rparr>" and ?s1 = "raft_demo\<lparr>voted_for := 3\<rparr>" and ?r = "\<lparr>rvr_term = 4, vote_granted = 1\<rparr>"
  have 1: "request_vote env_demo (vote_demo 3 4) ?rep raft_demo = (Inr ?r, ?s1)"
    and 2: "request_vote env_demo (vote_demo 3 4) ?rep ?s1 = (Inr ?r, ?s1)"
    by (subst request_vote_eq; simp add: raft_demo_def vote_demo_def may_vote_def same_log_end_def)+
  have free: "\<not> mutex raft_demo" "\<not> mutex ?s1" "vote_granted ?r \<noteq> 0" "candidate_id (vote_demo 3 4) \<noteq> -1"
    by (simp_all add: raft_demo_def vote_demo_def)
  show ?thesis using votes_for_one_candidate [OF free(1) 1 free(3,4) rtranclp.rtrancl_refl free(2) 2 free(3)] 2 by simp
qed

text \<open>C21: no election ever completes.  No sequence of calls of the server's handlers and timer closures, whatever
  their outcomes, changes the role or the term of a server: each conversion is requested while the mutex is held and
  locks it again.\<close>

theorem role_and_term_never_change:
  assumes "raft_step\<^sup>*\<^sup>* s s'"
  shows "rs_role s' = rs_role s \<and> current_term s' = current_term s"
  using raft_steps_core [OF assms, of "rs_role s" "current_term s"] by (simp add: rtv_def)

theorem role_and_term_never_change_witness:
  "raft_step\<^sup>*\<^sup>* raft_demo (snd (receive_request_vote_reply env_demo \<lparr>rvr_term = 4, vote_granted = 1\<rparr> raft_demo)) \<and>
   rs_role (snd (receive_request_vote_reply env_demo \<lparr>rvr_term = 4, vote_granted = 1\<rparr> raft_demo)) = candidate"
proof -
  have "raft_step\<^sup>*\<^sup>* raft_demo (snd (receive_request_vote_reply env_demo \<lparr>rvr_term = 4, vote_granted = 1\<rparr> raft_demo))"
    by (intro r_into_rtranclp raft_step.rvr)
  from role_and_term_never_change [OF this] this show ?thesis by (simp add: raft_demo_def)
qed

text \<open>The calls that should end an election do not return.  A vote request with a higher term, on a server whose
  mutex is free, ends in a deadlock or in undefined behaviour; a candidate that receives a granted vote of its
  term deadlocks in \<open>majority\<close>.\<close>

theorem election_calls_hang:
  assumes "\<not> mutex s"
  shows "(current_term s < rv_term args \<longrightarrow>
      (\<exists>e s'. request_vote en args rep s = (Inl e, s') \<and> (e = Deadlock \<or> e = Undefined_behaviour))) \<and>
    (rs_role s = candidate \<and> rvr_term reply = current_term s \<and> vote_granted reply \<noteq> 0 \<longrightarrow>
      fst (receive_request_vote_reply en reply s) = Inl Deadlock)"
  using request_vote_higher [OF assms] granted_reply_deadlocks [OF assms] by (fastforce simp: stuck_def)

theorem election_calls_hang_witness:
  "fst (receive_request_vote_reply env_demo \<lparr>rvr_term = 4, vote_granted = 1\<rparr> raft_demo) = Inl Deadlock"
  using election_calls_hang [of raft_demo "vote_demo 3 9" env_demo "\<lparr>rvr_term = 4, vote_granted = 0\<rparr>" "\<lparr>rvr_term = 4, vote_granted = 1\<rparr>"]
  by (simp add: raft_demo_def)

text \<open>Replication: a heartbeat that passes the consistency check uses \<open>index\<close> unset, and an entry that is new, with
  the index one past the end of the log, is compared with an entry that is not there.\<close>

lemma heartbeat_undefined:
  assumes "\<not> mutex s" "current_term s \<le> ae_term args" "ae_entries args = []" "uint (prev_log_index args) < int (length (log_entries s))"
    and "log_term (log_entries s ! nat (uint (prev_log_index args))) = prev_log_term args"
  shows "fst (append_entries args rep s) = Inl Undefined_behaviour"
  using assms by (simp add: append_entries_def locked_free run_simps vec_at_def release_def is_std_def)

lemma new_entry_undefined:
  assumes "\<not> mutex s" "current_term s \<le> ae_term args" "ae_entries args = [e]" "uint (prev_log_index args) < int (length (log_entries s))"
    and "log_term (log_entries s ! nat (uint (prev_log_index args))) = prev_log_term args"
    and "uint (log_index e) = int (length (log_entries s))" "length (log_entries s) < 2 ^ 31"
  shows "fst (append_entries args rep s) = Inl Undefined_behaviour"
proof -
  have "to_int32 (uint (log_index e)) = int (length (log_entries s))" using assms(6,7) by (simp add: to_int32_id)
  then show ?thesis using assms by (simp add: append_entries_def locked_free run_simps vec_at_def release_def is_std_def Let_def)
qed

text \<open>After \<open>convert_to(leader)\<close> every \<open>next_index_\<close> is two past the last entry, so the first heartbeat reads past the log.\<close>

lemma heartbeat_after_election:
  assumes "\<not> mutex s" "rs_role s = leader" "peers s \<noteq> []" "next_index s ! 0 = int (length (log_entries s)) + 1" "next_index s \<noteq> []"
  shows "fst (send_append_entries_args en s) = Inl Undefined_behaviour"
  using assms by (cases "peers s")
    (auto simp: send_append_entries_args_def locked_free run_simps append_args_def vec_at_def release_def is_std_def bindE_def liftE_def)

end
