(* ===== verification/Debug_Output.thy ===== *)
theory Debug_Output
  imports Index_Manager Ring_Buffer Raft
begin

text \<open>
  The stream operators that show the state of a component: \<^verbatim>\<open>network/buffer.cc\<close>, \<^verbatim>\<open>io/buffer_manager.cc\<close>,
  \<^verbatim>\<open>io/hash_table.cc\<close>, \<^verbatim>\<open>io/file_handle.cc\<close>, \<^verbatim>\<open>table/rid.cc\<close>, \<^verbatim>\<open>index/b+tree/leaf_node.cc\<close>,
  \<^verbatim>\<open>index/b+tree/internal_node.cc\<close> and \<^verbatim>\<open>consensus/raft/raft_server.cc\<close>, and the messages of \<^verbatim>\<open>io/exceptions.cc\<close>.
  A stream is the text written to it; addresses are shown by an argument.
\<close>

definition endl :: string where "endl = [CHR 0x0A]"

definition show_bool :: "bool \<Rightarrow> string" where
  "show_bool b = (if b then ''1'' else ''0'')"

section \<open>The circular buffer\<close>

text \<open>The number of characters is an \<open>int\<close> converted to \<open>size_t\<close>.\<close>

definition myprint :: "char \<Rightarrow> int \<Rightarrow> string" where
  "myprint c n = replicate (nat (n mod 2 ^ 64)) c"

definition draw_empty :: "ring \<Rightarrow> int \<Rightarrow> string" where
  "draw_empty r tail =
     myprint CHR '' '' tail @ ''^'' @ endl @
     myprint CHR '' '' tail @ ''|'' @ endl @
     myprint CHR '' '' tail @ ''+'' @ myprint CHR ''-'' 3 @ ''h='' @ decimal (rb_head r) @ endl @
     myprint CHR '' '' tail @ ''|'' @ endl @
     myprint CHR '' '' tail @ ''+'' @ myprint CHR ''-'' 3 @ ''t='' @ decimal (rb_tail r) @ endl"

definition draw_one :: "int \<Rightarrow> int \<Rightarrow> string" where
  "draw_one tail w =
     myprint CHR '' '' tail @ ''^'' @ myprint CHR '' '' w @ ''^'' @ endl @
     myprint CHR '' '' tail @ ''|'' @ myprint CHR '' '' w @ ''|'' @ endl @
     myprint CHR '' '' tail @ ''v'' @ myprint CHR '' '' w @ ''^'' @ endl @
     myprint CHR '' '' tail @ ''t'' @ myprint CHR ''-'' w @ ''h'' @ endl"

definition draw_two :: "int \<Rightarrow> int \<Rightarrow> int \<Rightarrow> string" where
  "draw_two head w rest =
     ''|'' @ myprint CHR '' '' head @ ''^'' @ myprint CHR '' '' w @ ''^'' @ myprint CHR '' '' rest @ ''|'' @ endl @
     ''|'' @ myprint CHR '' '' head @ ''|'' @ myprint CHR '' '' w @ ''|'' @ myprint CHR '' '' rest @ ''|'' @ endl @
     ''|'' @ myprint CHR '' '' head @ ''^'' @ myprint CHR '' '' w @ ''v'' @ myprint CHR '' '' rest @ ''|'' @ endl @
     ''+'' @ myprint CHR ''-'' head @ ''h'' @ myprint CHR '' '' w @ ''t'' @ myprint CHR ''-'' rest @ ''+'' @ endl"

definition draw_buffer :: "ring \<Rightarrow> string res" where
  "draw_buffer r =
     (let cap = to_int32 (int (max_size r div 100)); head = to_int32 (int (rb_head r div 100)); tail = to_int32 (int (rb_tail r div 100));
          top = endl @ ''cap:'' @ decimal (max_size r) @ '' '' @ ''size:'' @ decimal (rb_size r) @ '' '' @ ''head:'' @ decimal (rb_head r)
            @ '' '' @ ''tail:'' @ decimal (rb_tail r) @ endl @ ''|'' @ myprint CHR ''-'' cap @ ''|'' @ endl in
      if rb_empty r \<or> head = tail then Inr (top @ draw_empty r tail)
      else if head > tail then
        bindR (c_int (head - tail)) (\<lambda>d. bindR (c_int (d - 1)) (\<lambda>w. Inr (top @ draw_one tail w @ endl)))
      else
        bindR (c_int (tail - head)) (\<lambda>d. bindR (c_int (d - 2)) (\<lambda>w. bindR (c_int (cap - tail)) (\<lambda>rest.
          Inr (top @ draw_two head w rest @ endl)))))"

section \<open>The storage layer\<close>

definition print_slot :: "(nat \<Rightarrow> string) \<Rightarrow> nat \<Rightarrow> buffer_entry \<Rightarrow> string" where
  "print_slot addr i e = decimal i @ '' ::'' @ '' fd = '' @ show_int (be_fd e) @ '' page = '' @ show_int (be_page e) @
     '' dirty = '' @ show_bool (be_dirty e) @ '' pin = '' @ show_int (be_pin e) @ '' pointer = '' @ addr i @ endl @ replicate 63 CHR ''-'' @ endl"

definition print_pool :: "(nat \<Rightarrow> string) \<Rightarrow> bufm \<Rightarrow> string res" where
  "print_pool addr b =
     (if pool_size b \<le> int (length (bufm.pool b)) then Inr (
        replicate 63 CHR ''-'' @ endl @ concat (map (\<lambda>i. print_slot addr i (bufm.pool b ! i)) [0..<nat (pool_size b)]) @
        ''used list'' @ concat (map (\<lambda>(_, i). ''->'' @ show_int i) (used_list b)) @ endl @
        ''free list'' @ concat (map (\<lambda>i. ''->'' @ show_int i) (free_list b)) @ endl)
      else Inl Undefined_behaviour)"

definition print_entry :: "hash_entry \<Rightarrow> string" where
  "print_entry e = ''<->('' @ show_int (he_fd e) @ '','' @ show_int (he_page e) @ '')''"

text \<open>The number of heap cells is the fuel of the walk along a chain.\<close>

fun print_chain :: "nat \<Rightarrow> entry_heap \<Rightarrow> ptr \<Rightarrow> string res" where
  "print_chain 0 m p = Inl Diverges"
| "print_chain (Suc n) m None = Inr ''''"
| "print_chain (Suc n) m (Some a) = bindR (deref m (Some a)) (\<lambda>(_, e). bindR (print_chain n m (he_next e)) (\<lambda>t. Inr (print_entry e @ t)))"

fun print_buckets :: "hash_table \<Rightarrow> nat list \<Rightarrow> string res" where
  "print_buckets h [] = Inr ''''"
| "print_buckets h (i # is) =
     bindR (bucket_at h (int i)) (\<lambda>p. bindR (print_chain (Suc (brk h)) (heap h) p) (\<lambda>line.
     bindR (print_buckets h is) (\<lambda>t. Inr (decimal i @ ''|'' @ line @ endl @ t))))"

definition print_table :: "hash_table \<Rightarrow> string res" where
  "print_table h = print_buckets h [0..<nat (bucket_num h)]"

definition print_file :: "file_handle \<Rightarrow> string" where
  "print_file h = ''header: '' @ show_int (page_num h) @ endl"

definition print_rid :: "rid \<Rightarrow> string" where
  "print_rid r = ''rid<'' @ show_int (rid_page r) @ '','' @ show_int (rid_slot r) @ ''>'' @ endl"

section \<open>Nodes of an index\<close>

fun print_entries :: "(key \<Rightarrow> string) \<Rightarrow> nat \<Rightarrow> int list \<Rightarrow> string bt" where
  "print_entries addr a [] = retE ''''"
| "print_entries addr a (i # is) =
     bindE (pair_at a i) (\<lambda>(k, r). bindE (print_entries addr a is) (\<lambda>t.
     retE (''| pointer: '' @ print_rid r @ ''| keys: '' @ addr k @ t)))"

definition framed_text :: "string \<Rightarrow> string" where
  "framed_text str = (let bar = ''+'' @ replicate (length str) CHR ''-'' @ ''+'' @ endl in bar @ ''|'' @ str @ ''|'' @ endl @ bar @ endl)"

definition print_leaf :: "gtp \<Rightarrow> (key \<Rightarrow> string) \<Rightarrow> nat \<Rightarrow> string bt" where
  "print_leaf gtp addr a =
     seqE (pin_node gtp a) (
     bindE (entry_count a) (\<lambda>n.
     bindE (print_entries addr a [0..n - 2]) (\<lambda>t.
     seqE (unpin_node a) (retE (framed_text (''node count: '' @ show_int n @ '' | '' @ t @ '' | ->'' @ endl))))))"

definition print_internal :: "gtp \<Rightarrow> (key \<Rightarrow> string) \<Rightarrow> nat \<Rightarrow> string bt" where
  "print_internal gtp addr a =
     seqE (pin_node gtp a) (
     bindE (entry_count a) (\<lambda>n.
     bindE (print_entries addr a [0..n - 2]) (\<lambda>t.
     bindE (node_size a) (\<lambda>sz. bindE (on_fmt a (liftE (rid_at (sz - 1)))) (\<lambda>r.
     seqE (unpin_node a) (retE (framed_text (''node count: '' @ show_int n @ '' | '' @ t @ '' | pointer: '' @ print_rid r @ endl))))))))"

section \<open>The Raft server and the exceptions\<close>

definition print_raft :: "raft \<Rightarrow> string" where
  "print_raft s = ''leader:'' @ show_bool (rs_role s = leader) @ ''term: '' @ decimal (unat (current_term s)) @
     ''commit: '' @ decimal (unat (commit_index s)) @ ''size: '' @ decimal (length (log_entries s)) @ endl"

text \<open>\<open>what\<close>; the other classes declare it without a body.\<close>

definition exn_what :: "exn \<Rightarrow> string option" where
  "exn_what e = (case e of
      Closed_file \<Rightarrow> Some ''invalid file descriptor (file closed)''
    | No_mem \<Rightarrow> Some ''Not enough memory''
    | No_buf \<Rightarrow> Some ''Not enough buffer space''
    | _ \<Rightarrow> None)"

section \<open>Facts\<close>

lemma length_decimal: "n < 10 ^ Suc k \<Longrightarrow> length (decimal n) \<le> Suc k"
proof (induction k arbitrary: n)
  case 0
  then show ?case by (subst decimal.simps) simp
next
  case (Suc k)
  have "length (decimal (n div 10)) \<le> Suc k" if "\<not> n < 10"
    using Suc.IH [of "n div 10"] Suc.prems by (simp add: div_less_iff_less_mult)
  then show ?case by (subst decimal.simps) simp
qed

lemma length_myprint: "0 \<le> n \<Longrightarrow> n < 2 ^ 64 \<Longrightarrow> length (myprint c n) = nat n" "length (myprint c (-1)) = 2 ^ 64 - 1"
  by (simp_all add: myprint_def zmod_minus1)

text \<open>The picture of a table shows every chain, in the order of its entries.\<close>

lemma print_chain_seg:
  "seg m p as None \<Longrightarrow> length as < n \<Longrightarrow> print_chain n m p = Inr (concat (map (\<lambda>a. print_entry (the (m a))) as))"
proof (induction as arbitrary: p n)
  case Nil
  then show ?case by (cases n) auto
next
  case (Cons a as)
  then obtain k e where k: "n = Suc k" "p = Some a" "m a = Some e" "seg m (he_next e) as None" "length as < k" by (cases n) auto
  then show ?case using Cons.IH [OF k(4,5)] by (simp add: deref_def bindR_def)
qed

theorem table_picture:
  assumes "ht_rep h cs"
  shows "print_table h = Inr (concat (map (\<lambda>i. decimal i @ ''|'' @ concat (map (\<lambda>a. print_entry (the (heap h a))) (cs i)) @ endl)
    [0..<length (buckets h)]))"
proof -
  have all: "print_buckets h is = Inr (concat (map (\<lambda>i. decimal i @ ''|'' @ concat (map (\<lambda>a. print_entry (the (heap h a))) (cs i)) @ endl) is))"
    if "set is \<subseteq> {..<length (buckets h)}" for "is"
    using that
  proof (induction "is")
    case (Cons i "is")
    then have i: "i < length (buckets h)" by simp
    have "print_chain (Suc (brk h)) (heap h) (buckets h ! i) = Inr (concat (map (\<lambda>a. print_entry (the (heap h a))) (cs i)))"
      using assms i ht_rep_chain_short [OF assms i] by (intro print_chain_seg) (auto simp: ht_rep_def bucket_ok_def)
    then show ?case using Cons i by (simp add: bucket_at_def bindR_def)
  qed simp
  have "set [0..<length (buckets h)] \<subseteq> {..<length (buckets h)}" by auto
  moreover have "length (buckets h) = nat (bucket_num h)" using assms by (simp add: ht_rep_def)
  ultimately show ?thesis using all [of "[0..<length (buckets h)]"] by (simp add: print_table_def)
qed

text \<open>The picture of a circular buffer has a few lines as long as the buffer has hundreds of bytes, unless the data wraps around and
  \<open>tail\<close> is in the hundred after that of \<open>head\<close>: then \<open>tail - head - 2\<close> is \<open>-1\<close>, which as \<open>size_t\<close> is the largest number, and each
  of four lines has that many blanks.\<close>

abbreviation endless :: "ring \<Rightarrow> bool" where
  "endless r \<equiv> \<not> rb_empty r \<and> rb_tail r div 100 = Suc (rb_head r div 100)"

lemma rb_size_less: "rb_inv r \<Longrightarrow> rb_size r < 2 ^ 64"
  by (auto simp: rb_inv_def rb_size_def usub_le)

lemma picture_lengths:
  "length (draw_empty r t) \<le> 5 * length (myprint CHR '' '' t) + 2 * 20 + 30" if "length (decimal (rb_head r)) \<le> 20" "length (decimal (rb_tail r)) \<le> 20"
  using that by (simp add: draw_empty_def endl_def length_myprint)

lemma length_draw_one: "0 \<le> t \<Longrightarrow> t < 2 ^ 64 \<Longrightarrow> 0 \<le> w \<Longrightarrow> w < 2 ^ 64 \<Longrightarrow> length (draw_one t w) = 4 * nat t + 4 * nat w + 12"
  by (simp add: draw_one_def endl_def length_myprint)

lemma length_draw_two: "0 \<le> h \<Longrightarrow> h < 2 ^ 64 \<Longrightarrow> 0 \<le> r \<Longrightarrow> r < 2 ^ 64 \<Longrightarrow>
    length (draw_two h w r) = 4 * nat h + 4 * length (myprint CHR '' '' w) + 4 * nat r + 20"
  by (simp add: draw_two_def endl_def length_myprint)

theorem buffer_picture:
  assumes inv: "rb_inv r" and sz: "max_size r < 100 * 2 ^ 31"
  shows "\<exists>s. draw_buffer r = Inr s \<and> (if endless r then 2 ^ 66 - 4 \<le> length s else length s \<le> 6 * (max_size r div 100) + 200)"
proof -
  let ?c = "max_size r div 100" and ?h = "rb_head r div 100" and ?t = "rb_tail r div 100"
  let ?top = "endl @ ''cap:'' @ decimal (max_size r) @ '' '' @ ''size:'' @ decimal (rb_size r) @ '' '' @ ''head:'' @ decimal (rb_head r)
      @ '' '' @ ''tail:'' @ decimal (rb_tail r) @ endl @ ''|'' @ myprint CHR ''-'' (int ?c) @ ''|'' @ endl"
  have i: "rb_head r < max_size r" "rb_tail r < max_size r" "max_size r < 2 ^ 63" using inv by (auto simp: rb_inv_def)
  have le: "?h \<le> ?c" "?t \<le> ?c" "?c < 2 ^ 31" using i sz by (auto intro: div_le_mono simp: div_less_iff_less_mult)
  have ti: "to_int32 (int ?c) = int ?c" "to_int32 (int ?h) = int ?h" "to_int32 (int ?t) = int ?t"
    using le by (auto intro!: to_int32_id)
  have d: "length (decimal n) \<le> 20" if "n < 2 ^ 64" for n using length_decimal [of n 19] that by simp
  have ds: "length (decimal (max_size r)) \<le> 20" "length (decimal (rb_size r)) \<le> 20" "length (decimal (rb_head r)) \<le> 20"
    "length (decimal (rb_tail r)) \<le> 20"
    using d [of "max_size r"] d [of "rb_size r"] d [of "rb_head r"] d [of "rb_tail r"] i rb_size_less [OF inv] by simp_all
  have top: "length ?top \<le> ?c + 110" using ds le(3) by (simp add: endl_def length_myprint)
  have widths: "4 * h + 4 * nat (int t - int h - 2) + 4 * nat (int c - int t) \<le> 4 * c" if "Suc h < t" "t \<le> c" for h t c
    using that by linarith
  note dr = draw_buffer_def ti Let_def bindR_def c_int_def int_range_def
  consider (empty) "rb_empty r \<or> ?h = ?t" "\<not> endless r" | (one) "\<not> rb_empty r" "?t < ?h" | (wide) "endless r" | (two) "\<not> rb_empty r" "Suc ?h < ?t" by linarith
  then show ?thesis
  proof cases
    case empty
    have "draw_buffer r = Inr (?top @ draw_empty r (int ?t))" using empty(1) by (auto simp: dr)
    moreover have "length (draw_empty r (int ?t)) \<le> 5 * ?t + 70" using picture_lengths [OF ds(3,4), of "int ?t"] le by (simp add: length_myprint)
    ultimately show ?thesis using top le empty(2) by auto
  next
    case one
    have "draw_buffer r = Inr (?top @ draw_one (int ?t) (int ?h - int ?t - 1) @ endl)" using one le by (auto simp: dr)
    moreover obtain w where w: "?h = Suc (?t + w)" using less_imp_Suc_add [OF one(2)] by blast
    have "length (draw_one (int ?t) (int ?h - int ?t - 1)) \<le> 4 * ?c + 12"
      using length_draw_one [of "int ?t" "int w"] w le by simp
    ultimately show ?thesis using top le one by (auto simp: endl_def)
  next
    case wide
    have "to_int32 (1 + int ?h) = 1 + int ?h" using ti(3) wide by simp
    then have "draw_buffer r = Inr (?top @ draw_two (int ?h) (-1) (int ?c - int ?t) @ endl)" using wide le by (auto simp: dr)
    moreover have "2 ^ 66 - 4 \<le> length (draw_two (int ?h) (-1) (int ?c - int ?t))"
      using length_draw_two [of "int ?h" "int ?c - int ?t" "-1"] le by (simp add: length_myprint)
    ultimately show ?thesis using wide by auto
  next
    case two
    have "draw_buffer r = Inr (?top @ draw_two (int ?h) (int ?t - int ?h - 2) (int ?c - int ?t) @ endl)" using two le by (auto simp: dr)
    moreover have "length (draw_two (int ?h) (int ?t - int ?h - 2) (int ?c - int ?t)) \<le> 4 * ?c + 20"
      using length_draw_two [of "int ?h" "int ?c - int ?t" "int ?t - int ?h - 2"] widths [OF two(2) le(2)] two le by (simp add: length_myprint)
    ultimately show ?thesis using top two by (auto simp: endl_def)
  qed
qed

end
