(* ===== verification/Transactions.thy ===== *)
theory Transactions
  imports Index_Manager Table_Manager
begin

text \<open>
  \<^verbatim>\<open>transaction/txn_manager.{h,cc}\<close>: the part of the transaction manager that is written, the caches of open tables and
  indexes.  Handles are values, as in \<open>Table_Manager\<close> and \<open>Index_Manager\<close>; uninitialised members of an index come from \<open>raw\<close>
  and \<open>t0\<close>.
\<close>

section \<open>The model\<close>

record txn_manager =
  tm_io :: bufm
  tm_tables :: "string \<rightharpoonup> table_handle"
  tm_indexes :: "string \<rightharpoonup> btree"

type_synonym 'a tm = "(txn_manager, 'a) eff"

definition mk_txn_manager :: "bufm \<Rightarrow> txn_manager" where
  "mk_txn_manager io = \<lparr>tm_io = io, tm_tables = Map.empty, tm_indexes = Map.empty\<rparr>"

definition on_io :: "'a bm \<Rightarrow> 'a tm" where
  "on_io m s = (case m (tm_io s) of (r, b) \<Rightarrow> (r, s\<lparr>tm_io := b\<rparr>))"

definition get_table :: "string \<Rightarrow> table_handle tm" where
  "get_table name = bindE (getE (\<lambda>s. tm_tables s name)) (\<lambda>it. case it of
      Some h \<Rightarrow> retE h
    | None \<Rightarrow> bindE (on_io (open_table name)) (\<lambda>h. seqE (modE (\<lambda>s. s\<lparr>tm_tables := (tm_tables s)(name \<mapsto> h)\<rparr>)) (retE h)))"

definition get_index :: "bnode \<Rightarrow> btree \<Rightarrow> string \<Rightarrow> int \<Rightarrow> btree tm" where
  "get_index raw t0 name index = bindE (getE (\<lambda>s. tm_indexes s name)) (\<lambda>it. case it of
      Some h \<Rightarrow> retE h
    | None \<Rightarrow> bindE (on_io (open_index raw t0 name index)) (\<lambda>h. seqE (modE (\<lambda>s. s\<lparr>tm_indexes := (tm_indexes s)(name \<mapsto> h)\<rparr>)) (retE h)))"

section \<open>Facts\<close>

lemma get_table_hit: "tm_tables s name = Some h \<Longrightarrow> get_table name s = (Inr h, s)"
  by (simp add: get_table_def run_simps)

lemma get_index_hit: "tm_indexes s name = Some h \<Longrightarrow> get_index raw t0 name index s = (Inr h, s)"
  by (simp add: get_index_def run_simps)

lemma get_table_run: "get_table name s = (Inr h, s') \<Longrightarrow> tm_tables s' name = Some h \<and> tm_indexes s' = tm_indexes s \<and>
    (\<forall>n. n \<noteq> name \<longrightarrow> tm_tables s' n = tm_tables s n)"
  by (auto simp: get_table_def on_io_def bindE_Inr seqE_Inr run_simps split: option.splits prod.splits)

lemma get_index_run: "get_index raw t0 name index s = (Inr h, s') \<Longrightarrow> tm_indexes s' name = Some h \<and> tm_tables s' = tm_tables s \<and>
    (\<forall>n. n \<noteq> name \<longrightarrow> tm_indexes s' n = tm_indexes s n)"
  by (auto simp: get_index_def on_io_def bindE_Inr seqE_Inr run_simps split: option.splits prod.splits)

lemma get_failed: "get_table name s = (Inl e, s') \<Longrightarrow> tm_tables s' = tm_tables s \<and> tm_indexes s' = tm_indexes s"
  "get_index raw t0 name index s = (Inl e, s') \<Longrightarrow> tm_tables s' = tm_tables s \<and> tm_indexes s' = tm_indexes s"
  by (auto simp: get_table_def get_index_def on_io_def bindE_def seqE_def run_simps split: option.splits prod.splits sum.splits)

text \<open>Requests, and the handles they return.\<close>

datatype request = Table string | Index string int

datatype handle_val = Table_handle table_handle | Index_handle btree

definition serve :: "bnode \<Rightarrow> btree \<Rightarrow> request \<Rightarrow> handle_val tm" where
  "serve raw t0 r = (case r of
      Table n \<Rightarrow> bindE (get_table n) (\<lambda>h. retE (Table_handle h))
    | Index n i \<Rightarrow> bindE (get_index raw t0 n i) (\<lambda>h. retE (Index_handle h)))"

fun serve_all :: "bnode \<Rightarrow> btree \<Rightarrow> request list \<Rightarrow> txn_manager \<Rightarrow> txn_manager" where
  "serve_all raw t0 [] s = s"
| "serve_all raw t0 (r # rs) s = serve_all raw t0 rs (snd (serve raw t0 r s))"

section \<open>The caches\<close>

text \<open>A cache of open handles: what a request \<open>k\<close> finds depends on \<open>key k\<close> only.\<close>

locale handle_cache =
  fixes look :: "'s \<Rightarrow> string \<Rightarrow> 'h option"
    and key :: "'k \<Rightarrow> string"
    and get :: "'k \<Rightarrow> ('s, 'h) eff"
    and other :: "'r \<Rightarrow> 's \<Rightarrow> 's"
  assumes hit: "look s (key k) = Some h \<Longrightarrow> get k s = (Inr h, s)"
    and fills: "get k s = (Inr h, s') \<Longrightarrow> look s' (key k) = Some h"
    and keeps: "look s n = Some h \<Longrightarrow> look (other r s) n = Some h"
begin

lemma keeps_all: "look s n = Some h \<Longrightarrow> look (fold other rs s) n = Some h"
  by (induction rs arbitrary: s) (auto intro: keeps)

lemma opened_once:
  assumes "get k s = (Inr h, s1)" "key k' = key k"
  shows "get k' (fold other rs s1) = (Inr h, fold other rs s1)"
  using hit keeps_all [OF fills [OF assms(1)]] assms(2) by simp

end

lemma serve_all_fold: "serve_all raw t0 rs s = fold (\<lambda>r s. snd (serve raw t0 r s)) rs s"
  by (induction rs arbitrary: s) auto

interpretation tables: handle_cache tm_tables "\<lambda>n. n" get_table "\<lambda>r s. snd (serve raw t0 r s)" for raw t0
  by unfold_locales (auto simp: get_table_hit serve_def get_table_def get_index_def on_io_def eff_defs dest: get_table_run
      split: request.splits option.splits prod.splits sum.splits)

interpretation indexes: handle_cache tm_indexes fst "\<lambda>(n, i). get_index raw t0 n i" "\<lambda>r s. snd (serve raw t0 r s)" for raw t0
  by unfold_locales (auto simp: get_index_hit serve_def get_table_def get_index_def on_io_def eff_defs dest: get_index_run
      split: request.splits option.splits prod.splits sum.splits)

section \<open>The properties\<close>

text \<open>A table is opened once.  After \<open>get_table\<close> has returned a handle, whatever requests follow, successful or not, every
  further request for the table returns that handle and touches no file.\<close>

theorem table_opened_once:
  assumes "get_table n s = (Inr h, s1)"
  shows "let s2 = serve_all raw t0 rs s1 in get_table n s2 = (Inr h, s2)"
  using tables.opened_once [OF assms refl] by (simp add: Let_def serve_all_fold)

text \<open>The same cache makes a second index of a table unreachable: it is looked up by the name of the table only, so once index
  \<open>i\<close> is open, a request for index \<open>j\<close> returns index \<open>i\<close>.\<close>

lemma index_number_ignored:
  assumes "get_index raw t0 n i s = (Inr h, s1)"
  shows "let s2 = serve_all raw t0 rs s1 in get_index raw t0 n j s2 = (Inr h, s2)"
  using indexes.opened_once [of raw t0 "(n, i)" s h s1 "(n, j)"] assms by (simp add: Let_def serve_all_fold)

end
