(* ===== verification/Sql.thy ===== *)
theory Sql
  imports Prelude
begin

text \<open>
  \<^verbatim>\<open>sql/statement/*.h\<close>, \<^verbatim>\<open>sql/statement/expression.cc\<close>, \<^verbatim>\<open>sql/parser_result.{h,cc}\<close> and \<^verbatim>\<open>sql/sql.{h,cc}\<close>: the
  objects the SQL parser builds, and who frees them.

  Memory is a map from addresses to the way a block was obtained: \<open>free\<close> needs a block of \<open>malloc\<close> and \<open>delete\<close> an object
  of \<open>new\<close>; anything else, a block freed before included, is undefined behaviour.  Both accept null.  A vector is its
  address with its elements.  The lexer and the parser that are generated from \<open>lexer.l\<close> and \<open>parser.y\<close> are arguments.
\<close>

section \<open>Memory\<close>

datatype block = Malloc_block | New_object

type_synonym mem = "nat \<rightharpoonup> block"
type_synonym mptr = "nat option"

definition release_as :: "block \<Rightarrow> mptr \<Rightarrow> (mem, unit) eff" where
  "release_as b p = (case p of None \<Rightarrow> retE ()
     | Some a \<Rightarrow> bindE (getE (\<lambda>m. m a)) (\<lambda>x. seqE (guardE (x = Some b) Undefined_behaviour) (modE (\<lambda>m. m(a := None)))))"

abbreviation c_free :: "mptr \<Rightarrow> (mem, unit) eff" where "c_free \<equiv> release_as Malloc_block"
abbreviation c_delete :: "mptr \<Rightarrow> (mem, unit) eff" where "c_delete \<equiv> release_as New_object"

fun each :: "('x \<Rightarrow> (mem, unit) eff) \<Rightarrow> 'x list \<Rightarrow> (mem, unit) eff" where
  "each f [] = retE ()"
| "each f (x # xs) = seqE (f x) (each f xs)"

text \<open>\<open>if (v != nullptr) { for (auto&& i : *v) f(i); delete v; }\<close>\<close>

definition release_vec :: "('x \<Rightarrow> (mem, unit) eff) \<Rightarrow> (nat \<times> 'x list) option \<Rightarrow> (mem, unit) eff" where
  "release_vec f v = (case v of None \<Rightarrow> retE () | Some (a, xs) \<Rightarrow> seqE (each f xs) (c_delete (Some a)))"

section \<open>Expressions\<close>

datatype expression_type = LITERAL_FLOAT | LITERAL_STRING | LITERAL_INT | LITERAL_BOOL | LITERAL_NULL | STAR | COLUMN_REF | OPERATOR

datatype operator_type = OP_NONE | OP_BETWEEN | OP_EQUALS | OP_NOT_EQUALS | OP_LESS | OP_LESS_EQUAL | OP_GREATER | OP_GREATER_EQUAL

datatype expression = Expression
  (ex_type: expression_type) (op_type: operator_type) (ex_expr: "expression option") (ex_expr2: "expression option")
  (expr_list: "expression list option") (ex_name: "string option") (ex_table: "string option")
  (fval: "32 word") (ival: "64 word") (ex_flag: bool)

text \<open>The constructor; \<open>flag\<close> is not initialised.\<close>

definition make_expression :: "bool \<Rightarrow> expression_type \<Rightarrow> expression" where
  "make_expression raw t = Expression t OP_NONE None None None None None 0 0 raw"

text \<open>The operand of \<open>BETWEEN\<close> is dropped.\<close>

definition make_between :: "bool \<Rightarrow> expression \<Rightarrow> expression \<Rightarrow> expression \<Rightarrow> expression" where
  "make_between raw e l r = Expression OPERATOR OP_BETWEEN None None (Some [l, r]) None None 0 0 raw"

definition make_star :: "bool \<Rightarrow> string option \<Rightarrow> expression" where
  "make_star raw table = Expression STAR OP_NONE None None None None table 0 0 raw"

definition make_column_ref :: "bool \<Rightarrow> string \<Rightarrow> expression" where
  "make_column_ref raw name = Expression COLUMN_REF OP_NONE None None None (Some name) None 0 0 raw"

text \<open>With a table, the name of the column is stored as the table too.\<close>

definition make_column_ref_of :: "bool \<Rightarrow> string \<Rightarrow> string \<Rightarrow> expression" where
  "make_column_ref_of raw table name = Expression COLUMN_REF OP_NONE None None None (Some name) (Some name) 0 0 raw"

definition make_literal_int :: "bool \<Rightarrow> 64 word \<Rightarrow> expression" where
  "make_literal_int raw v = Expression LITERAL_INT OP_NONE None None None None None 0 v raw"

text \<open>\<open>narrow\<close> converts the bits of a \<open>double\<close> to those of a \<open>float\<close>.\<close>

definition make_literal_double :: "(64 word \<Rightarrow> 32 word) \<Rightarrow> bool \<Rightarrow> 64 word \<Rightarrow> expression" where
  "make_literal_double narrow raw v = Expression LITERAL_FLOAT OP_NONE None None None None None (narrow v) 0 raw"

definition make_literal_bool :: "bool \<Rightarrow> expression" where
  "make_literal_bool v = Expression LITERAL_BOOL OP_NONE None None None None None 0 0 v"

definition make_literal_string :: "bool \<Rightarrow> string \<Rightarrow> expression" where
  "make_literal_string raw v = Expression LITERAL_STRING OP_NONE None None None (Some v) None 0 0 raw"

definition make_null_literal :: "bool \<Rightarrow> expression" where
  "make_null_literal raw = make_expression raw LITERAL_NULL"

definition make_op_binary :: "bool \<Rightarrow> expression \<Rightarrow> operator_type \<Rightarrow> expression \<Rightarrow> expression" where
  "make_op_binary raw l oper r = Expression OPERATOR oper (Some l) (Some r) None None None 0 0 raw"

section \<open>Statements\<close>

datatype statement_type = CREATE | INSERT | SELECT | UPDATE | DELETE | DROP | SHOW
datatype create_type = CREATE_TABLE | CREATE_INDEX
datatype drop_type = DROP_TABLE | DROP_SCHEMA | DROP_INDEX
datatype show_type = COLUMNS | TABLES

text \<open>The pointers a statement owns.  Every statement has a schema and a table name.\<close>

datatype statement =
    Create_statement create_type (schema_name: mptr) (table_name: mptr) (index_name: mptr) (index_column: mptr) (cr_columns: "(nat \<times> mptr list) option")
  | Insert_statement (schema_name: mptr) (table_name: mptr) (in_columns: "(nat \<times> mptr list) option") (in_values: "(nat \<times> mptr list) option")
  | Select_statement (schema_name: mptr) (table_name: mptr) (select_list: "(nat \<times> mptr list) option") (st_where: mptr)
  | Update_statement (schema_name: mptr) (table_name: mptr) (updates: "(nat \<times> (nat \<times> mptr \<times> mptr) list) option") (st_where: mptr)
  | Delete_statement (schema_name: mptr) (table_name: mptr) (st_where: mptr)
  | Drop_statement drop_type (schema_name: mptr) (table_name: mptr)
  | Show_statement show_type (schema_name: mptr) (table_name: mptr)

fun st_type :: "statement \<Rightarrow> statement_type" where
  "st_type (Create_statement _ _ _ _ _ _) = CREATE"
| "st_type (Insert_statement _ _ _ _) = INSERT"
| "st_type (Select_statement _ _ _ _) = SELECT"
| "st_type (Update_statement _ _ _ _) = UPDATE"
| "st_type (Delete_statement _ _ _) = DELETE"
| "st_type (Drop_statement _ _ _) = DROP"
| "st_type (Show_statement _ _ _) = SHOW"

definition is_type :: "statement \<Rightarrow> statement_type \<Rightarrow> bool" where
  "is_type s t \<longleftrightarrow> st_type s = t"

definition mk_create_statement :: "create_type \<Rightarrow> statement" where
  "mk_create_statement t = Create_statement t None None None None None"
definition mk_insert_statement :: statement where "mk_insert_statement = Insert_statement None None None None"
definition mk_select_statement :: statement where "mk_select_statement = Select_statement None None None None"
definition mk_update_statement :: statement where "mk_update_statement = Update_statement None None None None"
definition mk_delete_statement :: statement where "mk_delete_statement = Delete_statement None None None"
definition mk_drop_statement :: "drop_type \<Rightarrow> statement" where "mk_drop_statement t = Drop_statement t None None"
definition mk_show_statement :: "show_type \<Rightarrow> statement" where "mk_show_statement t = Show_statement t None None"

section \<open>Destructors\<close>

definition destroy_create :: "mptr \<Rightarrow> mptr \<Rightarrow> mptr \<Rightarrow> mptr \<Rightarrow> (nat \<times> mptr list) option \<Rightarrow> (mem, unit) eff" where
  "destroy_create s t i c cols =
     seqE (c_free s) (seqE (c_free t) (seqE (c_free i) (seqE (c_free c) (release_vec c_delete cols))))"

definition destroy_insert :: "mptr \<Rightarrow> mptr \<Rightarrow> (nat \<times> mptr list) option \<Rightarrow> (nat \<times> mptr list) option \<Rightarrow> (mem, unit) eff" where
  "destroy_insert s t cols vals = seqE (c_free s) (seqE (c_free t) (seqE (release_vec c_free cols) (release_vec c_delete vals)))"

definition destroy_select :: "mptr \<Rightarrow> mptr \<Rightarrow> (nat \<times> mptr list) option \<Rightarrow> mptr \<Rightarrow> (mem, unit) eff" where
  "destroy_select s t l w = seqE (c_free s) (seqE (c_free t) (seqE (c_delete w) (release_vec c_delete l)))"

text \<open>The names of an update statement are released with \<open>delete\<close>.\<close>

definition destroy_update :: "mptr \<Rightarrow> mptr \<Rightarrow> (nat \<times> (nat \<times> mptr \<times> mptr) list) option \<Rightarrow> mptr \<Rightarrow> (mem, unit) eff" where
  "destroy_update s t us w = seqE (c_delete s) (seqE (c_delete t) (seqE (c_delete w)
     (release_vec (\<lambda>(u, col, e). seqE (c_free col) (seqE (c_delete e) (c_delete (Some u)))) us)))"

definition destroy_delete :: "mptr \<Rightarrow> mptr \<Rightarrow> mptr \<Rightarrow> (mem, unit) eff" where
  "destroy_delete s t w = seqE (c_free s) (seqE (c_free t) (c_delete w))"

definition destroy_drop :: "mptr \<Rightarrow> mptr \<Rightarrow> (mem, unit) eff" where
  "destroy_drop s t = seqE (c_free s) (c_free t)"

definition destroy_show :: "mptr \<Rightarrow> mptr \<Rightarrow> (mem, unit) eff" where
  "destroy_show s t = seqE (c_free s) (c_free t)"

fun destroy_statement :: "statement \<Rightarrow> (mem, unit) eff" where
  "destroy_statement (Create_statement ty s t i c cols) = destroy_create s t i c cols"
| "destroy_statement (Insert_statement s t cols vals) = destroy_insert s t cols vals"
| "destroy_statement (Select_statement s t l w) = destroy_select s t l w"
| "destroy_statement (Update_statement s t us w) = destroy_update s t us w"
| "destroy_statement (Delete_statement s t w) = destroy_delete s t w"
| "destroy_statement (Drop_statement ty s t) = destroy_drop s t"
| "destroy_statement (Show_statement ty s t) = destroy_show s t"

text \<open>\<open>delete stmt\<close>: the virtual destructor, then the object.\<close>

definition delete_statement :: "nat \<times> statement \<Rightarrow> (mem, unit) eff" where
  "delete_statement st = seqE (destroy_statement (snd st)) (c_delete (Some (fst st)))"

section \<open>Parser results\<close>

record parser_result =
  is_valid :: bool
  error_msg :: mptr
  error_line :: int
  error_column :: int
  statements :: "(nat \<times> statement) list"

definition mk_parser_result :: "parser_result \<Rightarrow> parser_result" where
  "mk_parser_result raw = raw\<lparr>is_valid := False, error_msg := None, statements := []\<rparr>"

definition add_statement :: "nat \<times> statement \<Rightarrow> parser_result \<Rightarrow> parser_result" where
  "add_statement st r = r\<lparr>statements := statements r @ [st]\<rparr>"

definition mk_parser_result_of :: "parser_result \<Rightarrow> nat \<times> statement \<Rightarrow> parser_result" where
  "mk_parser_result_of raw st = add_statement st (mk_parser_result raw)"

text \<open>The move constructor: the new object and what is left of the old one, which keeps its message.\<close>

definition move_parser_result :: "parser_result \<Rightarrow> parser_result \<Rightarrow> parser_result \<times> parser_result" where
  "move_parser_result raw moved =
     (raw\<lparr>statements := statements moved, is_valid := is_valid moved, error_msg := error_msg moved\<rparr>, moved\<lparr>statements := []\<rparr>)"

definition set_valid :: "bool \<Rightarrow> parser_result \<Rightarrow> parser_result" where
  "set_valid b r = r\<lparr>is_valid := b\<rparr>"

definition set_error :: "mptr \<Rightarrow> int \<Rightarrow> int \<Rightarrow> parser_result \<Rightarrow> parser_result" where
  "set_error msg line col r = r\<lparr>error_msg := msg, error_line := line, error_column := col\<rparr>"

definition reset :: "parser_result \<Rightarrow> (mem, parser_result) eff" where
  "reset r = seqE (c_free (error_msg r)) (
     seqE (each delete_statement (statements r))
       (retE \<lparr>is_valid = False, error_msg = None, error_line = -1, error_column = -1, statements = []\<rparr>))"

definition get_statement :: "int \<Rightarrow> parser_result \<Rightarrow> (nat \<times> statement) res" where
  "get_statement i r = (if 0 \<le> i \<and> i < int (length (statements r)) then Inr (statements r ! nat i) else Inl Undefined_behaviour)"

section \<open>Calling the parser\<close>

text \<open>\<open>toks\<close> lists what successive calls of \<open>yylex\<close> return; the value is stored in an \<open>int16_t\<close>.\<close>

fun token_loop :: "int list \<Rightarrow> int list" where
  "token_loop [] = []"
| "token_loop (t # ts) = (let token = sint (word_of_int t :: 16 word) in if token = 0 then [] else token # token_loop ts)"

definition tokenize :: "bool \<Rightarrow> int list \<Rightarrow> int list \<Rightarrow> bool \<times> int list" where
  "tokenize init_fails toks tokens = (if init_fails then (False, tokens) else (True, tokens @ token_loop toks))"

definition sql_parse :: "bool \<Rightarrow> (string \<Rightarrow> parser_result \<Rightarrow> int \<times> parser_result) \<Rightarrow> string \<Rightarrow> parser_result \<Rightarrow> bool \<times> parser_result" where
  "sql_parse init_fails yyparse sql r =
     (if init_fails then (False, r)
      else case yyparse sql r of (ret, r') \<Rightarrow> (True, set_valid (ret = 0) r'))"

section \<open>Ownership\<close>

text \<open>The blocks a pointer, a vector and a statement own, in the order in which they are released.  The lexer makes strings with
  \<open>malloc\<close>.\<close>

definition own :: "block \<Rightarrow> mptr \<Rightarrow> (nat \<times> block) list" where
  "own b p = (case p of None \<Rightarrow> [] | Some a \<Rightarrow> [(a, b)])"

definition own_vec :: "('x \<Rightarrow> (nat \<times> block) list) \<Rightarrow> (nat \<times> 'x list) option \<Rightarrow> (nat \<times> block) list" where
  "own_vec f v = (case v of None \<Rightarrow> [] | Some (a, xs) \<Rightarrow> concat (map f xs) @ [(a, New_object)])"

fun owned :: "statement \<Rightarrow> (nat \<times> block) list" where
  "owned (Create_statement ty s t i c cols) =
     own Malloc_block s @ own Malloc_block t @ own Malloc_block i @ own Malloc_block c @ own_vec (own New_object) cols"
| "owned (Insert_statement s t cols vals) =
     own Malloc_block s @ own Malloc_block t @ own_vec (own Malloc_block) cols @ own_vec (own New_object) vals"
| "owned (Select_statement s t l w) = own Malloc_block s @ own Malloc_block t @ own New_object w @ own_vec (own New_object) l"
| "owned (Update_statement s t us w) = own Malloc_block s @ own Malloc_block t @ own New_object w @
     own_vec (\<lambda>(u, col, e). own Malloc_block col @ own New_object e @ [(u, New_object)]) us"
| "owned (Delete_statement s t w) = own Malloc_block s @ own Malloc_block t @ own New_object w"
| "owned (Drop_statement ty s t) = own Malloc_block s @ own Malloc_block t"
| "owned (Show_statement ty s t) = own Malloc_block s @ own Malloc_block t"

definition pr_owned :: "parser_result \<Rightarrow> (nat \<times> block) list" where
  "pr_owned r = own Malloc_block (error_msg r) @ concat (map (\<lambda>(a, s). owned s @ [(a, New_object)]) (statements r))"

text \<open>A destructor that releases exactly the blocks of a list, in order.\<close>

definition release_list :: "(nat \<times> block) list \<Rightarrow> (mem, unit) eff" where
  "release_list xs = each (\<lambda>(a, b). release_as b (Some a)) xs"

named_theorems release_rules \<open>destructors as lists of released blocks\<close>

lemma seqE_ret_left [simp]: "seqE (retE ()) m = m"
  by (simp add: fun_eq_iff run_simps)

lemma seqE_ret_right [simp]: "seqE m (retE ()) = (m :: (mem, unit) eff)"
  by (auto simp: fun_eq_iff seqE_def bindE_def retE_def split: prod.splits sum.splits)

lemma each_append: "each f (xs @ ys) = seqE (each f xs) (each f ys)"
  by (induction xs) (simp_all add: seqE_assoc)

lemma release_list_append [release_rules]: "seqE (release_list xs) (release_list ys) = release_list (xs @ ys)"
  by (simp add: release_list_def each_append)

lemma release_own [release_rules]: "release_as b p = release_list (own b p)"
  by (cases p) (simp_all add: release_list_def own_def release_as_def)

lemma release_each:
  assumes "\<And>x. x \<in> set xs \<Longrightarrow> f x = release_list (g x)"
  shows "each f xs = release_list (concat (map g xs))"
  using assms by (induction xs) (simp_all add: release_list_def each_append)

lemma release_own_vec:
  assumes "\<And>x. f x = release_list (g x)"
  shows "release_vec f v = release_list (own_vec g v)"
proof (cases v)
  case None
  then show ?thesis by (simp add: release_vec_def own_vec_def release_list_def)
next
  case (Some w)
  obtain a xs where w: "w = (a, xs)" by fastforce
  have "c_delete (Some a) = release_list [(a, New_object)]" by (simp add: release_own own_def)
  moreover have "each f xs = release_list (concat (map g xs))" by (rule release_each) (rule assms)
  ultimately show ?thesis using Some w by (simp add: release_vec_def own_vec_def release_list_append)
qed

lemma release_vec_own [release_rules]: "release_vec (release_as b) v = release_list (own_vec (own b) v)"
  by (rule release_own_vec) (rule release_own)

definition names_ok :: "statement \<Rightarrow> bool" where
  "names_ok s \<longleftrightarrow> st_type s = UPDATE \<longrightarrow> schema_name s = None \<and> table_name s = None"

lemma destroy_owned: "names_ok s \<Longrightarrow> destroy_statement s = release_list (owned s)"
proof (cases s)
  case (Update_statement sn tn us w)
  have u: "release_vec (\<lambda>(u, col, e). seqE (c_free col) (seqE (c_delete e) (c_delete (Some u)))) us =
      release_list (own_vec (\<lambda>(u, col, e). own Malloc_block col @ own New_object e @ [(u, New_object)]) us)"
    by (rule release_own_vec) (auto simp: release_rules own_def)
  assume "names_ok s"
  then show ?thesis using Update_statement u
    by (simp add: names_ok_def destroy_update_def release_rules own_def)
qed (simp_all add: destroy_create_def destroy_insert_def destroy_select_def destroy_delete_def destroy_drop_def
    destroy_show_def release_rules)

lemma release_list_run:
  assumes "distinct (map fst xs)" "\<And>a b. (a, b) \<in> set xs \<Longrightarrow> m a = Some b"
  shows "release_list xs m = (Inr (), m |` (- fst ` set xs))"
  using assms
proof (induction xs arbitrary: m)
  case Nil
  then show ?case by (simp add: release_list_def retE_def)
next
  case (Cons x xs)
  obtain a b where x: "x = (a, b)" by fastforce
  have a: "m a = Some b" "a \<notin> fst ` set xs" using Cons.prems x by auto
  have "release_list xs (m(a := None)) = (Inr (), (m(a := None)) |` (- fst ` set xs))"
  proof (rule Cons.IH)
    show "distinct (map fst xs)" using Cons.prems(1) by simp
    show "(m(a := None)) c = Some d" if "(c, d) \<in> set xs" for c d
      using Cons.prems(2) [of c d] that a(2) by (auto simp: rev_image_eqI)
  qed
  moreover have "(m(a := None)) |` (- fst ` set xs) = m |` (- fst ` set (x # xs))"
    using a(2) x by (auto simp: restrict_map_def fun_eq_iff)
  moreover have "release_as b (Some a) m = (Inr (), m(a := None))" using a(1) by (simp add: release_as_def run_simps)
  ultimately show ?case using x by (simp add: release_list_def seqE_run [of "release_as b (Some a)"])
qed

section \<open>The properties\<close>


definition result_demo :: parser_result where
  "result_demo = \<lparr>is_valid = True, error_msg = Some 1, error_line = 3, error_column = 4,
     statements = [(2, Select_statement None (Some 3) (Some (4, [Some 5, Some 6])) (Some 7)), (8, Drop_statement DROP_TABLE None (Some 9))]\<rparr>"

definition mem_demo :: mem where
  "mem_demo = [1 \<mapsto> Malloc_block, 2 \<mapsto> New_object, 3 \<mapsto> Malloc_block, 4 \<mapsto> New_object, 5 \<mapsto> New_object, 6 \<mapsto> New_object,
     7 \<mapsto> New_object, 8 \<mapsto> New_object, 9 \<mapsto> Malloc_block, 10 \<mapsto> Malloc_block]"


text \<open>An update statement, whose names are released with \<open>delete\<close>.\<close>

lemma update_statement_undefined:
  "m t = Some Malloc_block \<Longrightarrow> \<exists>m'. delete_statement (a, Update_statement None (Some t) us w) m = (Inl Undefined_behaviour, m')"
  by (simp add: delete_statement_def destroy_update_def release_as_def [of _ "Some t"] release_as_def [of _ None] run_simps seqE_assoc)
    (auto simp: seqE_def bindE_def getE_def guardE_def throwE_def)

text \<open>Destroying both a moved-from result with a message and the result it was moved to releases the message twice.\<close>

lemma moved_message_freed_twice:
  assumes "error_msg r = Some a" "statements r = []" "m a = Some Malloc_block" "move_parser_result raw r = (r1, r2)"
  shows "\<exists>m'. seqE (reset r1) (reset r2) m = (Inl Undefined_behaviour, m')"
  using assms
  by (auto simp: move_parser_result_def reset_def release_as_def seqE_def bindE_def getE_def guardE_def retE_def throwE_def modE_def)

text \<open>A failed parse is reported in the result only.\<close>

lemma parse_reports_success: "fst (sql_parse False yyparse sql r)"
  by (simp add: sql_parse_def split: prod.split)

text \<open>Every constructor of an expression sets the type its name says.\<close>

lemma make_types:
  "ex_type (make_expression raw t) = t" "ex_type (make_between raw e l r) = OPERATOR" "ex_type (make_op_binary raw l oper r) = OPERATOR"
  "ex_type (make_star raw tb) = STAR" "ex_type (make_column_ref raw n) = COLUMN_REF" "ex_type (make_null_literal raw) = LITERAL_NULL"
  "ex_type (make_literal_int raw v) = LITERAL_INT" "ex_type (make_literal_string raw str) = LITERAL_STRING"
  by (simp_all add: make_expression_def make_between_def make_op_binary_def make_star_def make_column_ref_def make_null_literal_def
      make_literal_int_def make_literal_string_def)

text \<open>\<open>x BETWEEN a AND b\<close> is the same for every \<open>x\<close>, and a column of a table loses the table.\<close>

lemma between_forgets_operand: "make_between raw e l r = make_between raw e' l r"
  by (simp add: make_between_def)

lemma column_ref_forgets_table: "make_column_ref_of raw tb n = make_column_ref_of raw tb' n"
  by (simp add: make_column_ref_of_def)

end
