(* ===== verification/Database.thy ===== *)
theory Database
  imports Transactions Sql
begin

text \<open>
  \<^verbatim>\<open>db/alphadb.{h,cc}\<close>: databases are directories, tables and indexes files in them.

  The state holds the buffer pool of the \<open>io_manager\<close>, the directories of the file system as lists of components, and the
  working directory of the process.  Relative names of files are looked up in the working directory; in the flat name space
  of \<open>Posix\<close> they are entered with its path in front, without resolving \<open>..\<close> or links.  The shell behind \<open>system\<close>, the
  generated parser and the memory of its strings are arguments.
\<close>

section \<open>Directories\<close>

fun path_parts :: "string \<Rightarrow> string list" where
  "path_parts [] = [[]]"
| "path_parts (c # cs) = (if c = CHR ''/'' then [] # path_parts cs
     else case path_parts cs of [] \<Rightarrow> [[c]] | p # ps \<Rightarrow> (c # p) # ps)"

fun walk_dir :: "string list set \<Rightarrow> string list \<Rightarrow> string list \<Rightarrow> string list option" where
  "walk_dir D d [] = Some d"
| "walk_dir D d (c # cs) =
     (if c = '''' \<or> c = ''.'' then walk_dir D d cs
      else if c = ''..'' then walk_dir D (butlast d) cs
      else if d @ [c] \<in> D then walk_dir D (d @ [c]) cs else None)"

definition c_string :: "string \<Rightarrow> string" where
  "c_string s = takeWhile (\<lambda>c. c \<noteq> CHR 0x00) s"

definition start_dir :: "string list \<Rightarrow> string \<Rightarrow> string list" where
  "start_dir d p = (if p \<noteq> [] \<and> hd p = CHR ''/'' then [] else d)"

definition resolve_dir :: "string list set \<Rightarrow> string list \<Rightarrow> string \<Rightarrow> string list option" where
  "resolve_dir D d p = (if p = [] then None else walk_dir D (start_dir d p) (path_parts p))"

section \<open>The state\<close>

definition DB_BASE_DIR :: string where "DB_BASE_DIR = ''~/''"

record alphadb =
  db_io :: bufm
  db_mem :: mem
  db_dirs :: "string list set"
  db_cwd :: "string list"
  current_dir :: string
  db_opened :: "string \<rightharpoonup> bool"
  db_tables :: "string \<rightharpoonup> table_handle"

type_synonym 'a db = "(alphadb, 'a) eff"

definition on_pool :: "'a bm \<Rightarrow> 'a db" where
  "on_pool m s = (case m (db_io s) of (r, b) \<Rightarrow> (r, s\<lparr>db_io := b\<rparr>))"

definition on_mem :: "(mem, 'a) eff \<Rightarrow> 'a db" where
  "on_mem m s = (case m (db_mem s) of (r, x) \<Rightarrow> (r, s\<lparr>db_mem := x\<rparr>))"

definition abs_name :: "string list \<Rightarrow> string \<Rightarrow> string" where
  "abs_name d p = (if p \<noteq> [] \<and> hd p = CHR ''/'' then p else concat (map (\<lambda>c. CHR ''/'' # c) d) @ CHR ''/'' # p)"

definition in_cwd :: "string \<Rightarrow> string db" where
  "in_cwd name = getE (\<lambda>s. abs_name (db_cwd s) (c_string name))"

text \<open>\<open>chdir(p) == 0\<close> and \<open>mkdir(p, 0777) == 0\<close>.\<close>

definition sys_chdir :: "string \<Rightarrow> bool db" where
  "sys_chdir p = bindE (getE (\<lambda>s. resolve_dir (db_dirs s) (db_cwd s) (c_string p))) (\<lambda>r. case r of
      None \<Rightarrow> retE False
    | Some d \<Rightarrow> seqE (modE (\<lambda>s. s\<lparr>db_cwd := d\<rparr>)) (retE True))"

definition new_dir :: "string list set \<Rightarrow> string list \<Rightarrow> string \<Rightarrow> string list option" where
  "new_dir D d p = (let ps = filter (\<lambda>c. c \<noteq> '''') (path_parts p) in
     if ps = [] \<or> last ps = ''.'' \<or> last ps = ''..'' then None
     else case walk_dir D (start_dir d p) (butlast ps) of None \<Rightarrow> None
       | Some q \<Rightarrow> if q @ [last ps] \<in> D then None else Some (q @ [last ps]))"

definition sys_mkdir :: "string \<Rightarrow> bool db" where
  "sys_mkdir p = bindE (getE (\<lambda>s. case new_dir (db_dirs s) (db_cwd s) (c_string p) of None \<Rightarrow> None
       | Some q \<Rightarrow> if px_names (os (db_io s)) (abs_name (butlast q) (last q)) = None then Some q else None)) (\<lambda>r. case r of
      None \<Rightarrow> retE False
    | Some q \<Rightarrow> seqE (modE (\<lambda>s. s\<lparr>db_dirs := insert q (db_dirs s)\<rparr>)) (retE True))"

section \<open>Databases\<close>

text \<open>The process starts in the directory \<open>d\<close>.\<close>

definition mk_alphadb :: "(nat \<Rightarrow> buffer_entry) \<Rightarrow> posix \<Rightarrow> mem \<Rightarrow> string list set \<Rightarrow> string list \<Rightarrow> alphadb res" where
  "mk_alphadb junk px m D d =
     bindR (mk_io_manager junk px) (\<lambda>io.
     let s = \<lparr>db_io = io, db_mem = m, db_dirs = D, db_cwd = d, current_dir = DB_BASE_DIR, db_opened = Map.empty, db_tables = Map.empty\<rparr> in
     case sys_chdir DB_BASE_DIR s of
       (Inr ok, s') \<Rightarrow> if ok then Inr s' else Inl Std_exception
     | (Inl e, s') \<Rightarrow> Inl e)"

text \<open>The destructor deletes the managers and then \<open>txn_mgr_\<close>, a pointer that nothing has set.\<close>

definition db_destroy :: "unit db" where
  "db_destroy = throwE Undefined_behaviour"

definition create_db :: "string \<Rightarrow> bool db" where
  "create_db name = bindE (sys_chdir DB_BASE_DIR) (\<lambda>ok. if ok then sys_mkdir name else retE False)"

text \<open>\<open>db_opened_[name]\<close> enters \<open>false\<close> for a new name.\<close>

definition opened :: "string \<Rightarrow> bool db" where
  "opened name = bindE (getE (\<lambda>s. db_opened s name)) (\<lambda>r. case r of
      Some b \<Rightarrow> retE b
    | None \<Rightarrow> seqE (modE (\<lambda>s. s\<lparr>db_opened := (db_opened s)(name \<mapsto> False)\<rparr>)) (retE False))"

definition open_db :: "string \<Rightarrow> bool db" where
  "open_db name = bindE (opened name) (\<lambda>b.
     if b then retE True
     else
       seqE (modE (\<lambda>s. s\<lparr>current_dir := current_dir s @ ''/'' @ name\<rparr>)) (
       bindE (getE current_dir) (\<lambda>dir.
       bindE (sys_chdir dir) (\<lambda>ok.
       if \<not> ok then retE False
       else seqE (modE (\<lambda>s. s\<lparr>db_opened := (db_opened s)(name \<mapsto> True)\<rparr>)) (retE True)))))"

definition close_db :: "string \<Rightarrow> bool db" where
  "close_db name = bindE (opened name) (\<lambda>b.
     if \<not> b then retE True
     else
       seqE (modE (\<lambda>s. s\<lparr>current_dir := DB_BASE_DIR\<rparr>)) (
       bindE (sys_chdir DB_BASE_DIR) (\<lambda>ok.
       if \<not> ok then retE False
       else seqE (modE (\<lambda>s. s\<lparr>db_opened := (db_opened s)(name \<mapsto> False)\<rparr>)) (retE True))))"

text \<open>\<open>shell\<close> runs a command in a working directory: its exit status and the directories it leaves.\<close>

type_synonym shell = "string \<Rightarrow> string list \<Rightarrow> string list set \<Rightarrow> int \<times> string list set"

definition drop_db :: "shell \<Rightarrow> string \<Rightarrow> bool db" where
  "drop_db shell name = bindE (opened name) (\<lambda>b.
     seqE (whenE b (bindE (close_db name) (\<lambda>_. retE ()))) (
     bindE (getE (\<lambda>s. shell (''rm -r '' @ DB_BASE_DIR @ ''/'' @ name) (db_cwd s) (db_dirs s))) (\<lambda>(st, D).
     seqE (modE (\<lambda>s. s\<lparr>db_dirs := D\<rparr>)) (retE (st = 0)))))"

section \<open>Tables and indexes\<close>

definition db_create_table :: "table_header \<Rightarrow> string \<Rightarrow> schema \<Rightarrow> bool db" where
  "db_create_table raw name s = bindE (in_cwd name) (\<lambda>f. seqE (on_pool (create_table raw f s)) (retE False))"

definition drop_table :: "string \<Rightarrow> bool db" where
  "drop_table name = bindE (in_cwd name) (\<lambda>f. seqE (on_pool (destroy_table f)) (retE False))"

definition db_create_index :: "index_header \<Rightarrow> string \<Rightarrow> bool db" where
  "db_create_index raw name = bindE (in_cwd name) (\<lambda>f. seqE (on_pool (create_index raw f (-1) (-1) (-1))) (retE False))"

definition drop_index :: "string \<Rightarrow> bool db" where
  "drop_index name = bindE (in_cwd name) (\<lambda>f. seqE (on_pool (destroy_index f (-1))) (retE False))"

section \<open>Commands\<close>

text \<open>\<open>std::string\<close> of a \<open>char*\<close>; \<open>txt\<close> gives the strings the parser has stored.\<close>

definition name_at :: "(nat \<Rightarrow> string) \<Rightarrow> mptr \<Rightarrow> string db" where
  "name_at txt p = (case p of None \<Rightarrow> throwE Undefined_behaviour | Some a \<Rightarrow> retE (txt a))"

text \<open>A table handle refers to the \<open>file_handle\<close> it was made with, a local variable of \<open>open_table\<close> that is gone when
  \<open>open_table\<close> returns: using a table handle is undefined behaviour.  Copying one is not.\<close>

definition use_handle :: "table_handle \<Rightarrow> unit db" where
  "use_handle h = throwE Undefined_behaviour"

text \<open>The branch for \<open>INSERT\<close>.\<close>

definition serve_insert :: "string \<Rightarrow> unit db" where
  "serve_insert name = bindE (getE (\<lambda>s. db_tables s name)) (\<lambda>it. case it of
      None \<Rightarrow> bindE (in_cwd name) (\<lambda>f. bindE (on_pool (open_table f)) (\<lambda>h.
        seqE (modE (\<lambda>s. s\<lparr>db_tables := (db_tables s)(name \<mapsto> h)\<rparr>)) (use_handle h)))
    | Some h \<Rightarrow> use_handle h)"

text \<open>The branch for \<open>DELETE\<close> tests \<open>istmt\<close>, a variable that only the branch for \<open>INSERT\<close> sets.\<close>

definition serve_statement :: "(nat \<Rightarrow> string) \<Rightarrow> statement \<Rightarrow> unit db" where
  "serve_statement txt st = (case st_type st of
      CREATE \<Rightarrow> bindE (name_at txt (table_name st)) (\<lambda>n. seqE (create_db n) (retE ()))
    | INSERT \<Rightarrow> bindE (name_at txt (table_name st)) serve_insert
    | SELECT \<Rightarrow> retE ()
    | UPDATE \<Rightarrow> bindE (name_at txt (table_name st)) (\<lambda>_. retE ())
    | DELETE \<Rightarrow> throwE Undefined_behaviour
    | DROP \<Rightarrow> bindE (name_at txt (table_name st)) (\<lambda>n. seqE (drop_table n) (seqE (drop_index n) (retE ())))
    | SHOW \<Rightarrow> retE ())"

fun serve_statements :: "(nat \<Rightarrow> string) \<Rightarrow> (nat \<times> statement) list \<Rightarrow> unit db" where
  "serve_statements txt [] = retE ()"
| "serve_statements txt (st # sts) = seqE (serve_statement txt (snd st)) (serve_statements txt sts)"

text \<open>The result is destroyed on every exit; when a destructor is undefined, so is the call.\<close>

definition serve_command :: "bool \<Rightarrow> (string \<Rightarrow> parser_result \<Rightarrow> int \<times> parser_result) \<Rightarrow> parser_result \<Rightarrow> (nat \<Rightarrow> string) \<Rightarrow> string \<Rightarrow> bool db" where
  "serve_command init_fails yyparse raw txt command =
     (let result = snd (sql_parse init_fails yyparse command (mk_parser_result raw)) in
      (\<lambda>s. case serve_statements txt (statements result) s of
         (Inr _, s') \<Rightarrow> seqE (on_mem (reset result)) (retE False) s'
       | (Inl e, s') \<Rightarrow> if is_std e then seqE (on_mem (reset result)) (throwE e) s' else (Inl e, s')))"

section \<open>Facts\<close>

text \<open>A relative path that begins with the component \<open>~\<close> needs a directory of that name.\<close>

lemma tilde_parts: "path_parts (CHR ''~'' # CHR ''/'' # r) = ''~'' # path_parts r"
  by simp

lemma c_string_tilde: "c_string (DB_BASE_DIR @ r) = CHR ''~'' # CHR ''/'' # c_string r"
  by (simp add: c_string_def DB_BASE_DIR_def)

lemma resolve_tilde: "resolve_dir D d (c_string (DB_BASE_DIR @ r)) = (if d @ [''~''] \<in> D then walk_dir D (d @ [''~'']) (path_parts (c_string r)) else None)"
  unfolding c_string_tilde by (simp add: resolve_dir_def start_dir_def tilde_parts)

lemma chdir_base: "sys_chdir DB_BASE_DIR s = (if db_cwd s @ [''~''] \<in> db_dirs s
     then (Inr True, s\<lparr>db_cwd := db_cwd s @ [''~'']\<rparr>) else (Inr False, s))"
  using resolve_tilde [of "db_dirs s" "db_cwd s" "[]"] by (simp add: sys_chdir_def run_simps c_string_def)

lemma chdir_tilde: "db_cwd s @ [''~''] \<notin> db_dirs s \<Longrightarrow> sys_chdir (DB_BASE_DIR @ r) s = (Inr False, s)"
  using resolve_tilde [of "db_dirs s" "db_cwd s" r] by (simp add: sys_chdir_def run_simps)

text \<open>The commands on databases, in any order.\<close>

datatype db_op = Create_db string | Open_db string | Close_db string | Drop_db string

definition db_run :: "shell \<Rightarrow> db_op \<Rightarrow> bool db" where
  "db_run shell p = (case p of Create_db n \<Rightarrow> create_db n | Open_db n \<Rightarrow> open_db n | Close_db n \<Rightarrow> close_db n | Drop_db n \<Rightarrow> drop_db shell n)"

fun db_runs :: "shell \<Rightarrow> db_op list \<Rightarrow> alphadb \<Rightarrow> alphadb" where
  "db_runs shell [] s = s"
| "db_runs shell (p # ps) s = db_runs shell ps (snd (db_run shell p s))"

definition outside :: "alphadb \<Rightarrow> bool" where
  "outside s \<longleftrightarrow> db_cwd s @ [''~''] \<notin> db_dirs s \<and> (\<exists>r. current_dir s = DB_BASE_DIR @ r) \<and> (\<forall>n. db_opened s n \<noteq> Some True)"

lemma outside_opened: "outside s \<Longrightarrow> opened n s = (Inr False, s\<lparr>db_opened := (db_opened s)(n \<mapsto> False)\<rparr>)"
proof (cases "db_opened s n")
  case (Some b)
  assume "outside s"
  then have "\<not> b" using Some by (auto simp: outside_def)
  moreover have "(db_opened s)(n \<mapsto> b) = db_opened s" using Some by auto
  ultimately show ?thesis using Some by (simp add: opened_def run_simps)
qed (simp add: opened_def run_simps)

lemma outside_flag: "outside s \<Longrightarrow> outside (s\<lparr>db_opened := (db_opened s)(n \<mapsto> False)\<rparr>)"
  by (auto simp: outside_def)

lemma outside_create: "outside s \<Longrightarrow> create_db n s = (Inr False, s)"
  by (simp add: create_db_def bindE_def chdir_base outside_def run_simps)

lemma outside_open:
  assumes "outside s"
  shows "fst (open_db n s) = Inr False" "outside (snd (open_db n s))"
proof -
  let ?s1 = "s\<lparr>db_opened := (db_opened s)(n \<mapsto> False)\<rparr>"
  let ?s2 = "?s1\<lparr>current_dir := current_dir s @ ''/'' @ n\<rparr>"
  obtain r where r: "current_dir s = DB_BASE_DIR @ r" using assms by (auto simp: outside_def)
  have c: "sys_chdir (current_dir s @ ''/'' @ n) ?s2 = (Inr False, ?s2)"
    using assms chdir_tilde [of ?s2 "r @ ''/'' @ n"] by (simp add: r outside_def)
  have "open_db n s = (Inr False, ?s2)"
    using c by (simp add: open_db_def bindE_run [of "opened n", OF outside_opened [OF assms]] run_simps) (simp add: bindE_def retE_def)
  moreover have "outside ?s2" using assms r by (auto simp: outside_def)
  ultimately show "fst (open_db n s) = Inr False" "outside (snd (open_db n s))" by simp_all
qed

lemma outside_close: "outside s \<Longrightarrow> close_db n s = (Inr True, s\<lparr>db_opened := (db_opened s)(n \<mapsto> False)\<rparr>)"
  by (simp add: close_db_def bindE_run [of "opened n", OF outside_opened] run_simps)

lemma outside_drop:
  assumes "outside s" "\<And>c d D. snd (shell c d D) \<subseteq> D"
  shows "outside (snd (drop_db shell n s))"
  using assms(1) assms(2) [of "''rm -r '' @ DB_BASE_DIR @ ''/'' @ n" "db_cwd s" "db_dirs s"]
  by (auto simp: drop_db_def bindE_run [of "opened n", OF outside_opened] run_simps outside_def split: prod.splits)

lemma outside_runs: "outside s \<Longrightarrow> (\<And>c d D. snd (shell c d D) \<subseteq> D) \<Longrightarrow> outside (db_runs shell ps s)"
proof (induction ps arbitrary: s)
  case (Cons p ps)
  have "outside (snd (db_run shell p s))"
    using outside_create [OF Cons.prems(1)] outside_open(2) [OF Cons.prems(1)] outside_close [OF Cons.prems(1)]
      outside_flag [OF Cons.prems(1)] outside_drop [OF Cons.prems] Cons.prems(1)
    by (cases p) (simp_all add: db_run_def)
  then show ?case using Cons.IH [of "snd (db_run shell p s)"] Cons.prems(2) by simp
qed simp

lemma mk_alphadb_run: "mk_alphadb junk px m D d = Inr s \<Longrightarrow>
    d @ [''~''] \<in> D \<and> db_cwd s = d @ [''~''] \<and> db_dirs s = D \<and> current_dir s = DB_BASE_DIR \<and> db_opened s = Map.empty"
  by (auto simp: mk_alphadb_def bindR_eq_Inr chdir_base Let_def split: if_splits)

section \<open>The properties\<close>


definition px_empty :: posix where
  "px_empty = \<lparr>px_names = Map.empty, px_data = \<lambda>_. [], px_fds = Map.empty, px_room = 0, px_nexti = 0, px_maxfd = 8\<rparr>"

lemma alphadb_starts: "d @ [''~''] \<in> D \<Longrightarrow> \<exists>s. mk_alphadb junk px m D d = Inr s"
  by (simp add: mk_alphadb_def mk_io_manager_def mk_bufm_def POOL_SIZE_def BUFFER_SIZE_def mk_hash_table_def HASH_TABLE_SIZE_def
      Let_def chdir_base)


text \<open>What dropping a table does: the file of the table is removed; then the file of index number -1 is removed, and when there
  is none, the exception leaves the command after the table is gone.\<close>

lemma destroy_file_run: "destroy_file f b = (if px_names (os b) f = None then (Inl Unix_error, b)
    else (Inr (), b\<lparr>os := (os b)\<lparr>px_names := (px_names (os b))(f := None)\<rparr>\<rparr>))"
  by (simp add: destroy_file_def sys_def px_unlink_def bindE_def guardE_def eff_defs)

theorem drop_statement_effect:
  fixes s :: alphadb
  assumes "n = abs_name (db_cwd s) (c_string (txt a))"
  defines "names \<equiv> px_names (os (db_io s))" and "idx \<equiv> index_file n (-1)"
  shows "case serve_statement txt (Drop_statement ty sn (Some a)) s of (r, s') \<Rightarrow>
      r = (if names n = None \<or> names idx = None then Inl Unix_error else Inr ()) \<and>
      px_names (os (db_io s')) = (if names n = None then names else names(n := None, idx := None)) \<and>
      db_tables s' = db_tables s"
  unfolding names_def idx_def
  using assms(1)
  by (auto simp: serve_statement_def name_at_def drop_table_def drop_index_def in_cwd_def on_pool_def destroy_table_def destroy_index_def
      destroy_file_run bindE_def seqE_def retE_def getE_def index_file_def fun_eq_iff split: if_splits)

end
