(* ===== verification/Conn.thy ===== *)
theory Conn
  imports Rpc_Codec
begin

text \<open>
  \<^verbatim>\<open>network/conn.{h,cc}\<close>, \<^verbatim>\<open>network/rpc/rpc_conn.{h,cc}\<close> and \<^verbatim>\<open>network/rpc/rpc.{h,cc}\<close>: connections and the
  calls made over them.

  The answers of the kernel to successive calls of \<open>write\<close> and \<open>read\<close> are given as lists; when a list is used up, the
  next call answers \<open>EAGAIN\<close>, as a non-blocking socket does.  A call with a count of zero returns zero.  \<open>c_sent\<close> is the
  sequence of bytes the kernel has taken.  The registered callbacks are computations on the connection.
\<close>

section \<open>Connections\<close>

datatype wres = Wrote nat | W_intr | W_again | W_fail
datatype rres = Got "byte list" | R_intr | R_again | R_fail

record conn =
  c_read :: ring
  c_write :: ring
  c_sent :: "byte list"

type_synonym 'a cn = "(conn, 'a) eff"

definition on_c_read :: "'a rb \<Rightarrow> 'a cn" where
  "on_c_read m c = (case m (c_read c) of (r, b) \<Rightarrow> (r, c\<lparr>c_read := b\<rparr>))"

definition on_c_write :: "'a rb \<Rightarrow> 'a cn" where
  "on_c_write m c = (case m (c_write c) of (r, b) \<Rightarrow> (r, c\<lparr>c_write := b\<rparr>))"

text \<open>The loop of \<open>send(buffer&)\<close> and \<open>handle_write\<close>.  Of \<open>Wrote k\<close> the kernel takes at most the count given; an answer
  of zero and every error but \<open>EINTR\<close> end the loop.\<close>

fun send_loop :: "wres list \<Rightarrow> unit cn" where
  "send_loop [] = retE ()"
| "send_loop (a # as) = bindE (getE (\<lambda>c. rb_size (c_write c))) (\<lambda>n. case a of
      Wrote k \<Rightarrow> let w = min k n in
        if w = 0 then retE ()
        else bindE (on_c_write (bindE (getE rb_tail) (\<lambda>t. read_mem t w))) (\<lambda>bs.
          seqE (modE (\<lambda>c. c\<lparr>c_sent := c_sent c @ bs\<rparr>)) (
          seqE (on_c_write (advance_get w)) (send_loop as)))
    | W_intr \<Rightarrow> if n = 0 then retE () else send_loop as
    | _ \<Rightarrow> retE ())"

definition send_output :: "wres list \<Rightarrow> unit cn" where
  "send_output as = send_loop as"

definition send_bytes :: "wres list \<Rightarrow> byte list \<Rightarrow> unit cn" where
  "send_bytes as s = seqE (on_c_write (rb_put_bytes s)) (send_output as)"

definition handle_write :: "wres list \<Rightarrow> unit cn option \<Rightarrow> unit cn" where
  "handle_write as cb = seqE (send_loop as) (case cb of None \<Rightarrow> retE () | Some f \<Rightarrow> f)"

text \<open>\<open>read(sock_, put_begin(), size())\<close> asks for as many bytes as the buffer already holds.  An error other than
  \<open>EINTR\<close> and \<open>EAGAIN\<close> leaves \<open>r\<close> at \<open>-1\<close>, which advances the write position by \<open>SIZE_MAX\<close>.\<close>

fun read_loop :: "rres list \<Rightarrow> unit cn" where
  "read_loop [] = retE ()"
| "read_loop (a # as) = bindE (getE (\<lambda>c. rb_size (c_read c))) (\<lambda>n.
     if n = 0 then retE ()
     else case a of
        Got bs \<Rightarrow> let r = take n bs in
          if r = [] then retE ()
          else seqE (on_c_read (bindE (getE rb_head) (\<lambda>h. write_mem h r))) (
               seqE (on_c_read (advance_put (length r))) (read_loop as))
      | R_intr \<Rightarrow> read_loop as
      | R_again \<Rightarrow> retE ()
      | R_fail \<Rightarrow> seqE (on_c_read (advance_put (2 ^ 64 - 1))) (read_loop as))"

definition handle_read :: "rres list \<Rightarrow> unit cn option \<Rightarrow> unit cn" where
  "handle_read as cb = seqE (read_loop as) (case cb of None \<Rightarrow> retE () | Some f \<Rightarrow> f)"

section \<open>Calls\<close>

text \<open>\<open>futures_\<close> maps a call to the task that handles its reply: the caller's identifier and callback (\<open>'f\<close>).\<close>

record 'f rpc_conn = conn +
  rpc_id :: "64 word"
  futures :: "64 word \<rightharpoonup> 'f"

type_synonym ('f, 'a) rc = "('f rpc_conn, 'a) eff"

definition as_codec :: "'a cd \<Rightarrow> ('f, 'a) rc" where
  "as_codec m c = (case m \<lparr>read_buf = c_read c, write_buf = c_write c\<rparr> of
     (r, d) \<Rightarrow> (r, c\<lparr>c_read := read_buf d, c_write := write_buf d\<rparr>))"

definition as_conn :: "'a cn \<Rightarrow> ('f, 'a) rc" where
  "as_conn m c = (case m \<lparr>c_read = c_read c, c_write = c_write c, c_sent = c_sent c\<rparr> of
     (r, d) \<Rightarrow> (r, c\<lparr>c_read := c_read d, c_write := c_write d, c_sent := c_sent d\<rparr>))"

definition rpc_call :: "wres list \<Rightarrow> ('t \<Rightarrow> unit cd) \<Rightarrow> 't \<Rightarrow> 'f \<Rightarrow> ('f, 64 word) rc" where
  "rpc_call as put args task = bindE (getE rpc_id) (\<lambda>i.
     seqE (modE (\<lambda>c. c\<lparr>rpc_id := i + 1\<rparr>)) (
     seqE (as_codec (marshal put i args)) (
     seqE (as_conn (send_output as)) (
     seqE (modE (\<lambda>c. c\<lparr>futures := (if futures c i = None then (futures c)(i \<mapsto> task) else futures c)\<rparr>))
          (retE i)))))"

definition rpc_cancel :: "64 word \<Rightarrow> ('f, unit) rc" where
  "rpc_cancel i = modE (\<lambda>c. c\<lparr>futures := (futures c)(i := None)\<rparr>)"

text \<open>The read callback of a client connection: \<open>while (!is_ready());\<close> spins for ever on a buffer that is not ready, since
  only the spinning thread fills it.  The value is the number of the call and the task that is then run.\<close>

definition on_reply :: "('f, 64 word \<times> 'f option) rc" where
  "on_reply = bindE (as_codec (liftE is_ready)) (\<lambda>ready.
     seqE (guardE ready Diverges) (
     bindE (as_codec peek_uvarint) (\<lambda>(i, bytes).
     seqE (as_codec (on_read_buf (advance_get bytes))) (
     bindE (getE (\<lambda>c. futures c i)) (\<lambda>f.
     seqE (modE (\<lambda>c. c\<lparr>futures := (futures c)(i := None)\<rparr>)) (retE (i, f)))))))"

section \<open>Services\<close>

text \<open>\<open>hash\<close>: the increment of \<open>p\<close> is outside the loop.\<close>

partial_function (option) hash_loop :: "byte list \<Rightarrow> 32 word \<Rightarrow> 32 word option" where
  "hash_loop p code = (case p of [] \<Rightarrow> Some code | c # _ \<Rightarrow> if c = 0 then Some code else hash_loop p (code XOR scast c))"

definition rpc_hash :: "byte list \<Rightarrow> 32 word option" where
  "rpc_hash str = hash_loop str 0"

text \<open>The service set by \<open>rpc::set\<close>: decode the call, run the function, encode the reply.\<close>

definition service :: "'t cd \<Rightarrow> ('r \<Rightarrow> unit cd) \<Rightarrow> ('t \<Rightarrow> 'r) \<Rightarrow> unit cd" where
  "service get put func =
     bindE get_rpc_id (\<lambda>i.
     bindE (unmarshal get) (\<lambda>(i', request).
     marshal put i' (func request)))"

text \<open>\<open>Register\<close> keeps the first service of a hash code.\<close>

definition register :: "byte list \<Rightarrow> 's \<Rightarrow> (32 word \<rightharpoonup> 's) \<Rightarrow> (32 word \<rightharpoonup> 's) res" where
  "register str r services = (case rpc_hash str of
      None \<Rightarrow> Inl Diverges
    | Some h \<Rightarrow> Inr (if services h = None then services(h \<mapsto> r) else services))"

section \<open>Sending\<close>

text \<open>How many of \<open>n\<close> bytes the kernel takes.\<close>

fun taken :: "wres list \<Rightarrow> nat \<Rightarrow> nat" where
  "taken [] n = 0"
| "taken (Wrote k # as) n = (if min k n = 0 then 0 else min k n + taken as (n - min k n))"
| "taken (W_intr # as) n = (if n = 0 then 0 else taken as n)"
| "taken (a # as) n = 0"

lemma taken_le: "taken as n \<le> n"
proof (induction as n rule: taken.induct)
  case (2 k as n)
  then show ?case by (cases "min k n = 0") (auto simp: min_def split: if_splits)
qed auto

text \<open>The data do not wrap around the end of the block, and the buffer is not full.\<close>

definition contiguous :: "ring \<Rightarrow> bool" where
  "contiguous r \<longleftrightarrow> rb_inv r \<and> \<not> rb_full r \<and> rb_tail r + rb_size r \<le> max_size r"

lemma contiguous_content:
  assumes "contiguous r" "rb_buf r = Some b"
  shows "rb_content r = take (rb_size r) (drop (rb_tail r) b)"
proof (rule nth_equalityI)
  have inv: "length b = max_size r" using assms by (auto simp: contiguous_def rb_inv_def)
  show "length (rb_content r) = length (take (rb_size r) (drop (rb_tail r) b))"
  proof -
    have "rb_tail r + rb_size r \<le> max_size r" using assms(1) by (simp add: contiguous_def)
    then show ?thesis using inv by simp
  qed
  fix i assume "i < length (rb_content r)"
  then have i: "i < rb_size r" by simp
  moreover have "rb_tail r + i < max_size r" using i assms(1) by (simp add: contiguous_def)
  ultimately show "rb_content r ! i = take (rb_size r) (drop (rb_tail r) b) ! i"
    using assms inv by (simp add: rb_content_def)
qed

lemma advance_contiguous:
  assumes "contiguous r" "w \<le> rb_size r"
  shows "\<exists>r'. advance_get w r = (Inr (), r') \<and> contiguous r' \<and> rb_buf r' = rb_buf r \<and> rb_size r' = rb_size r - w \<and>
    rb_content r' = drop w (rb_content r)"
proof -
  obtain b where b: "rb_buf r = Some b" "length b = max_size r" "0 < max_size r" "max_size r < 2 ^ 63"
    "rb_head r < max_size r" "rb_tail r < max_size r" "\<not> rb_full r" "rb_tail r + rb_size r \<le> max_size r"
    using assms(1) by (auto simp: contiguous_def elim: rb_invE)
  have hd: "rb_head r = (rb_tail r + rb_size r) mod max_size r" using assms(1) rb_head_eq by (auto simp: contiguous_def)
  define t where "t = (rb_tail r + w) mod max_size r"
  let ?r = "r\<lparr>rb_tail := t\<rparr>"
  have run: "advance_get w r = (Inr (), ?r)"
  proof -
    have "uadd (rb_tail r) w = rb_tail r + w" using b assms(2) by (simp add: uadd_def)
    then show ?thesis using b(3) by (simp add: advance_get_def run_simps wrap_def t_def)
  qed
  have inv: "rb_inv ?r" using assms(1) b(3,7) by (auto simp: contiguous_def rb_inv_def t_def)
  have size: "rb_size ?r = rb_size r - w"
  proof (cases "rb_tail r + w = max_size r")
    case True
    then have w: "w = rb_size r" using b(8) assms(2) by simp
    then have "t = 0" "rb_head r = 0" using True hd by (simp_all add: t_def)
    then show ?thesis using w b(7) by (simp add: rb_size_def)
  next
    case False
    then have t: "t = rb_tail r + w" using b assms(2) by (auto simp: t_def)
    show ?thesis
    proof (cases "rb_tail r + rb_size r = max_size r")
      case True
      have "rb_size r < max_size r" using assms(1) b(3,7) rb_size_eq by (simp add: contiguous_def)
      then have "rb_head r = 0" "0 < t" using hd t b True by auto
      moreover have "usub (max_size r) (rb_tail r + w) = max_size r - (rb_tail r + w)"
        using assms(2) b by (intro usub_le) auto
      ultimately show ?thesis using t True b(7) by (simp add: rb_size_def)
    next
      case f: False
      then have h: "rb_head r = rb_tail r + rb_size r" using hd b by simp
      then have "t \<le> rb_head r" using t assms(2) by simp
      then have "rb_size ?r = rb_head r - t" using b(7) by (simp add: rb_size_def)
      then show ?thesis using h t by simp
    qed
  qed
  have con: "contiguous ?r"
  proof (cases "rb_tail r + w = max_size r")
    case True
    then have "rb_size ?r = 0" "t = 0" using size b assms(2) by (auto simp: t_def)
    then show ?thesis using inv b(7) by (simp add: contiguous_def)
  next
    case False
    then have "t = rb_tail r + w" using b assms(2) by (auto simp: t_def)
    then show ?thesis using inv size b assms(2) by (simp add: contiguous_def)
  qed
  have "rb_content ?r = drop w (rb_content r)"
  proof (cases "w = rb_size r")
    case True
    then show ?thesis using size by (simp flip: length_0_conv)
  next
    case False
    then have "t = rb_tail r + w" using b assms(2) by (simp add: t_def)
    then show ?thesis using contiguous_content [OF con] contiguous_content [OF assms(1)] b size assms(2)
      by (simp add: drop_take add.commute)
  qed
  then show ?thesis using run con size by auto
qed

lemma send_loop_run:
  assumes "contiguous (c_write c)"
  shows "\<exists>r. send_loop as c = (Inr (), c\<lparr>c_write := r,
      c_sent := c_sent c @ take (taken as (rb_size (c_write c))) (rb_content (c_write c))\<rparr>) \<and>
    contiguous r \<and> rb_content r = drop (taken as (rb_size (c_write c))) (rb_content (c_write c))"
  using assms
proof (induction as arbitrary: c)
  case Nil
  then show ?case by (auto simp: retE_def intro!: exI [of _ "c_write c"])
next
  case (Cons a as)
  let ?n = "rb_size (c_write c)"
  have stay: "\<exists>r. (Inr (), c) = (Inr (), c\<lparr>c_write := r, c_sent := c_sent c @ take 0 (rb_content (c_write c))\<rparr>) \<and>
      contiguous r \<and> rb_content r = drop 0 (rb_content (c_write c))"
    using Cons.prems by (intro exI [of _ "c_write c"]) simp
  show ?case
  proof (cases a)
    case (Wrote j)
    define w where "w = min j ?n"
    show ?thesis
    proof (cases "w = 0")
      case True
      then show ?thesis using Wrote stay by (simp add: run_simps w_def [symmetric])
    next
      case False
      obtain b where b: "rb_buf (c_write c) = Some b" "length b = max_size (c_write c)"
        using Cons.prems by (auto simp: contiguous_def rb_inv_def)
      have w: "w \<le> ?n" by (simp add: w_def)
      obtain r where r: "advance_get w (c_write c) = (Inr (), r)" "contiguous r" "rb_size r = ?n - w"
          "rb_content r = drop w (rb_content (c_write c))"
        using advance_contiguous [OF Cons.prems w] by blast
      let ?bs = "take w (rb_content (c_write c))"
      let ?c = "c\<lparr>c_write := r, c_sent := c_sent c @ ?bs\<rparr>"
      have rd: "on_c_write (bindE (getE rb_tail) (\<lambda>t. read_mem t w)) c = (Inr ?bs, c)"
        using contiguous_content [OF Cons.prems b(1)] b Cons.prems w
        by (simp add: on_c_write_def run_simps read_mem_def contiguous_def min_def)
      have ad: "on_c_write (advance_get w) (c\<lparr>c_sent := c_sent c @ ?bs\<rparr>) = (Inr (), ?c)"
        using r(1) by (simp add: on_c_write_def)
      have run: "send_loop (a # as) c = send_loop as ?c"
        using Wrote False by (simp add: run_simps w_def [symmetric] Let_def 
            bindE_run [of "on_c_write (bindE (getE rb_tail) (\<lambda>t. read_mem t w))", OF rd]
            seqE_run [of "on_c_write (advance_get w)", OF ad])
      have k: "taken (a # as) ?n = w + taken as (?n - w)" using Wrote False by (simp add: w_def [symmetric])
      obtain r' where r': "send_loop as ?c = (Inr (), ?c\<lparr>c_write := r', c_sent := c_sent ?c @ take (taken as (?n - w)) (rb_content r)\<rparr>)"
          "contiguous r'" "rb_content r' = drop (taken as (?n - w)) (rb_content r)"
        using Cons.IH [of ?c] r(2,3) by auto
      show ?thesis unfolding run k using r' r(4) by (auto simp: take_add add.commute)
    qed
  next
    case W_intr
    then show ?thesis using Cons.IH [of c] Cons.prems stay by (auto simp: run_simps)
  qed (use stay in \<open>auto simp: run_simps\<close>)
qed

section \<open>Calls and replies\<close>

text \<open>What happens on a connection: calls, cancellations and replies, successful or not, in any order; other operations of
  the connection keep the table of calls.  \<open>wr\<close> writes the arguments of a call.\<close>

datatype 'f rpc_event = Called "64 word" 'f | Cancelled "64 word" | Replied "64 word" 'f

inductive rpc_run :: "'f rpc_conn \<Rightarrow> 'f rpc_event list \<Rightarrow> 'f rpc_conn \<Rightarrow> bool" for c0 where
  start: "rpc_run c0 [] c0"
| call: "rpc_run c0 es c \<Longrightarrow> rpc_call as (\<lambda>m. m) wr f c = (Inr i, c') \<Longrightarrow> rpc_run c0 (es @ [Called i f]) c'"
| call_failed: "rpc_run c0 es c \<Longrightarrow> rpc_call as (\<lambda>m. m) wr f c = (Inl e, c') \<Longrightarrow> rpc_run c0 es c'"
| cancel: "rpc_run c0 es c \<Longrightarrow> rpc_cancel i c = (Inr u, c') \<Longrightarrow> rpc_run c0 (es @ [Cancelled i]) c'"
| reply: "rpc_run c0 es c \<Longrightarrow> on_reply c = (Inr (i, Some f), c') \<Longrightarrow> rpc_run c0 (es @ [Replied i f]) c'"
| no_reply: "rpc_run c0 es c \<Longrightarrow> on_reply c = (Inr (i, None), c') \<Longrightarrow> rpc_run c0 es c'"
| reply_failed: "rpc_run c0 es c \<Longrightarrow> on_reply c = (Inl e, c') \<Longrightarrow> rpc_run c0 es c'"
| other: "rpc_run c0 es c \<Longrightarrow> futures c' = futures c \<Longrightarrow> rpc_id c' = rpc_id c \<Longrightarrow> rpc_run c0 es c'"

lemma rpc_call_args: "rpc_call as put args f = rpc_call as (\<lambda>m. m) (put args) f"
  by (simp add: rpc_call_def marshal_def)

lemma as_codec_keeps: "as_codec m c = (r, c') \<Longrightarrow> futures c' = futures c \<and> rpc_id c' = rpc_id c"
  by (auto simp: as_codec_def split: prod.splits)

lemma as_conn_keeps: "as_conn m c = (r, c') \<Longrightarrow> futures c' = futures c \<and> rpc_id c' = rpc_id c"
  by (auto simp: as_conn_def split: prod.splits)

lemma rpc_call_ok:
  assumes "rpc_call as put args f c = (Inr i, c')"
  shows "i = rpc_id c" "rpc_id c' = rpc_id c + 1"
    "futures c' = (if futures c i = None then (futures c)(i \<mapsto> f) else futures c)"
  using assms unfolding rpc_call_def
  by (auto simp: run_simps bindE_Inr seqE_Inr modE_def retE_def dest!: as_codec_keeps as_conn_keeps)

text \<open>A failed call has taken a number and registered nothing.\<close>

lemma rpc_call_failed:
  assumes "rpc_call as put args f c = (Inl e, c')"
  shows "futures c' = futures c \<and> rpc_id c' = rpc_id c + 1"
proof -
  let ?c = "c\<lparr>rpc_id := rpc_id c + 1\<rparr>"
  obtain r1 c1 where 1: "as_codec (marshal put (rpc_id c) args) ?c = (r1, c1)" by fastforce
  obtain r2 c2 where 2: "as_conn (send_output as) c1 = (r2, c2)" by fastforce
  note k = as_codec_keeps [OF 1] as_conn_keeps [OF 2]
  show ?thesis using assms 1 2 k
    by (auto simp: rpc_call_def run_simps seqE_def [of "as_codec _"] seqE_def [of "as_conn _"] bindE_def [of "as_codec _"]
        bindE_def [of "as_conn _"] split: sum.splits)
qed

lemma on_reply_ok:
  assumes "on_reply c = (Inr (i, f), c')"
  shows "f = futures c i" "futures c' = (futures c)(i := None)" "rpc_id c' = rpc_id c"
  using assms unfolding on_reply_def
  by (auto simp: run_simps bindE_Inr seqE_Inr modE_def retE_def getE_def guardE_def throwE_def split: if_splits dest!: as_codec_keeps)

lemma keeps_table: "keepsE (\<lambda>c. futures c = fs \<and> rpc_id c = n) (as_codec m)"
  by (auto simp: keepsE_def as_codec_def split: prod.splits)

lemma on_reply_failed:
  assumes "on_reply c = (Inl e, c')"
  shows "futures c' = futures c \<and> rpc_id c' = rpc_id c"
proof -
  obtain r1 c1 where 1: "as_codec (liftE is_ready) c = (r1, c1)" by fastforce
  obtain r2 c2 where 2: "as_codec peek_uvarint c1 = (r2, c2)" by fastforce
  show ?thesis
  proof (cases r2)
    case (Inl x)
    then show ?thesis using assms 1 2 as_codec_keeps [OF 1] as_codec_keeps [OF 2]
      by (auto simp: on_reply_def bindE_def seqE_def guardE_def retE_def throwE_def split: sum.splits if_splits)
  next
    case (Inr v)
    obtain r3 c3 where 3: "as_codec (on_read_buf (advance_get (snd v))) c2 = (r3, c3)" by fastforce
    then show ?thesis using assms 1 2 Inr as_codec_keeps [OF 1] as_codec_keeps [OF 2] as_codec_keeps [OF 3]
      by (auto simp: on_reply_def bindE_def seqE_def guardE_def retE_def throwE_def getE_def modE_def split: sum.splits if_splits prod.splits)
  qed
qed

text \<open>An outstanding call: made, and since then neither cancelled nor answered.\<close>

definition outstanding :: "'f rpc_event list \<Rightarrow> 64 word \<Rightarrow> 'f \<Rightarrow> bool" where
  "outstanding es i f \<longleftrightarrow> (\<exists>us vs. es = us @ Called i f # vs \<and> (\<forall>e \<in> set vs. e \<noteq> Cancelled i \<and> (\<forall>g. e \<noteq> Replied i g)))"

lemma outstanding_new: "outstanding (es @ [Called i f]) i f"
  unfolding outstanding_def by (rule exI [of _ es]) auto

lemma outstanding_snoc:
  assumes "outstanding es i f" "e \<noteq> Cancelled i" "\<And>g. e \<noteq> Replied i g"
  shows "outstanding (es @ [e]) i f"
proof -
  obtain us vs where "es = us @ Called i f # vs" "\<forall>e \<in> set vs. e \<noteq> Cancelled i \<and> (\<forall>g. e \<noteq> Replied i g)"
    using assms(1) unfolding outstanding_def by blast
  then show ?thesis using assms(2,3) unfolding outstanding_def
    by (intro exI [of _ us] exI [of _ "vs @ [e]"]) auto
qed

lemma rpc_run_table:
  assumes "rpc_run c0 es c" "futures c0 = Map.empty"
  shows "(\<forall>i f. futures c i = Some f \<longrightarrow> outstanding es i f) \<and>
    (\<forall>xs i f ys. es = xs @ Replied i f # ys \<longrightarrow> outstanding xs i f)"
  using assms
proof (induction rule: rpc_run.induct)
  case (call es c as wr f i c')
  note k = rpc_call_ok [OF call.hyps(2)]
  have old: "outstanding (es @ [Called i f]) j g" if "futures c j = Some g" for j g
    using call that outstanding_snoc [of es j g "Called i f"] by simp
  have "outstanding (es @ [Called i f]) j g" if "futures c' j = Some g" for j g
    using that k old outstanding_new by (auto split: if_splits)
  moreover have "outstanding xs j g" if "es @ [Called i f] = xs @ Replied j g # ys" for xs j g ys
    using that call by (cases ys rule: rev_cases) auto
  ultimately show ?case by blast
next
  case (cancel es c i u c')
  have f: "futures c' = (futures c)(i := None)" using cancel.hyps(2) by (auto simp: rpc_cancel_def modE_def)
  have "outstanding (es @ [Cancelled i]) j g" if "futures c' j = Some g" for j g
    using that f cancel outstanding_snoc [of es j g "Cancelled i"] by (auto split: if_splits)
  moreover have "outstanding xs j g" if "es @ [Cancelled i] = xs @ Replied j g # ys" for xs j g ys
    using that cancel by (cases ys rule: rev_cases) auto
  ultimately show ?case by blast
next
  case (reply es c i f c')
  note k = on_reply_ok [OF reply.hyps(2)]
  have "outstanding (es @ [Replied i f]) j g" if "futures c' j = Some g" for j g
    using that k reply outstanding_snoc [of es j g "Replied i f"] by (auto split: if_splits)
  moreover have "outstanding xs j g" if "es @ [Replied i f] = xs @ Replied j g # ys" for xs j g ys
    using that reply k(1) by (cases ys rule: rev_cases) auto
  ultimately show ?case by blast
next
  case (no_reply es c i c')
  then show ?case using on_reply_ok [OF no_reply.hyps(2)] by (auto split: if_splits)
qed (auto dest: rpc_call_failed on_reply_failed)

section \<open>The properties\<close>


definition ring_demo :: ring where
  "ring_demo = \<lparr>rb_buf = Some [9, 1, 2, 3], rb_full = False, rb_head = 0, rb_tail = 1, max_size = 4\<rparr>"

definition conn_demo :: conn where
  "conn_demo = \<lparr>c_read = ring_demo, c_write = ring_demo, c_sent = []\<rparr>"

lemma ring_demo_facts: "contiguous ring_demo" "rb_content ring_demo = [1, 2, 3]" "rb_size ring_demo = 3"
proof -
  have s: "rb_size ring_demo = 3" by (simp add: rb_size_def usub_le ring_demo_def)
  show "rb_size ring_demo = 3" "contiguous ring_demo" using s by (simp_all add: contiguous_def rb_inv_def) (simp_all add: ring_demo_def)
  have "[0..<3] = [0, 1, 2 :: nat]" by (simp add: upt_rec)
  then show "rb_content ring_demo = [1, 2, 3]" using s by (simp add: rb_content_def) (simp add: ring_demo_def)
qed


text \<open>C31: a reply runs the callback of a call that is waiting for it.  Whatever the order of calls, cancellations and
  replies on a connection, and whichever of them fail, every reply that runs a callback belongs to a call with that number made
  earlier, which since then was neither answered nor cancelled; so no call is answered twice and no cancelled call is answered.\<close>

theorem reply_matches_outstanding_call:
  assumes "futures c0 = Map.empty" "rpc_run c0 (xs @ Replied i f # ys) c"
  shows "\<exists>us vs. xs = us @ Called i f # vs \<and> (\<forall>e \<in> set vs. e \<noteq> Cancelled i \<and> (\<forall>g. e \<noteq> Replied i g))"
  using rpc_run_table [OF assms(2,1)] by (auto simp: outstanding_def)

definition rpc_demo :: "nat rpc_conn" where
  "rpc_demo = \<lparr>c_read = ring_demo, c_write = \<lparr>rb_buf = Some [0, 0, 0, 0], rb_full = False, rb_head = 0, rb_tail = 0, max_size = 4\<rparr>,
     c_sent = [], rpc_id = 5, futures = Map.empty\<rparr>"

text \<open>The reply to call 5 has arrived.\<close>

definition reply_ring :: ring where
  "reply_ring = \<lparr>rb_buf = Some [5, 0, 0, 0], rb_full = False, rb_head = 1, rb_tail = 0, max_size = 4\<rparr>"

theorem reply_matches_outstanding_call_witness:
  "\<exists>c. rpc_run rpc_demo [Called 5 (7 :: nat), Replied 5 7] c \<and>
     (\<exists>us vs. [Called 5 (7 :: nat)] = us @ Called 5 7 # vs \<and> (\<forall>e \<in> set vs. e \<noteq> Cancelled 5 \<and> (\<forall>g. e \<noteq> Replied 5 g)))"
proof -
  let ?call = "rpc_call [] (\<lambda>m. m) (retE ()) 7 rpc_demo"
  have "encode_uint 5 = [5]" by code_simp
  then have "fst ?call = Inr 5"
    by (simp add: rpc_call_def as_codec_def as_conn_def marshal_def put_rpc_id_def on_write_buf_def rb_put_bytes_def write_mem_def
        advance_put_def wrap_def uadd_def send_output_def rpc_demo_def run_simps bindE_def seqE_def modE_def retE_def liftE_def)
  then have c1: "?call = (Inr 5, snd ?call)" by (simp add: prod_eq_iff)
  have r1: "rpc_run rpc_demo [Called 5 7] (snd ?call)" using rpc_run.call [OF rpc_run.start c1] by simp
  let ?c = "(snd ?call)\<lparr>c_read := reply_ring\<rparr>"
  have r2: "rpc_run rpc_demo [Called 5 7] ?c" by (rule rpc_run.other [OF r1]) simp_all
  have f: "futures ?c 5 = Some 7" using rpc_call_ok(3) [OF c1] by (simp add: rpc_demo_def)
  have d: "is_ready \<lparr>read_buf = reply_ring, write_buf = w\<rparr> = Inr True"
    "bindR (get_begin reply_ring) decode_uvarint = Inr (5, 1)" "fst (advance_get 1 reply_ring) = Inr ()" for w
  proof -
    have 1: "decode_varint [5, 0, 0, 0] = Inr (- 3, 1)" "decode_uvarint [5, 0, 0, 0] = Inr (5, 1)" by code_simp+
    then show "is_ready \<lparr>read_buf = reply_ring, write_buf = w\<rparr> = Inr True"
      by (simp add: is_ready_def get_begin_def reply_ring_def rb_size_def c_int_def int_range_def to_int32_id)
    show "bindR (get_begin reply_ring) decode_uvarint = Inr (5, 1)" using 1(2) by (simp add: get_begin_def reply_ring_def)
    show "fst (advance_get 1 reply_ring) = Inr ()" by (simp add: advance_get_def reply_ring_def run_simps wrap_def)
  qed
  then have "fst (on_reply ?c) = Inr (5, Some 7)" using f
    by (auto simp: on_reply_def as_codec_def peek_uvarint_def on_read_buf_def bindE_def seqE_def liftE_def guardE_def retE_def getE_def
        modE_def split: prod.splits)
  then have c2: "on_reply ?c = (Inr (5, Some 7), snd (on_reply ?c))" by (simp add: prod_eq_iff)
  have r3: "rpc_run rpc_demo ([Called 5 7] @ Replied 5 7 # []) (snd (on_reply ?c))" using rpc_run.reply [OF r2 c2] by simp
  have e: "futures rpc_demo = Map.empty" by (simp add: rpc_demo_def)
  show ?thesis using reply_matches_outstanding_call [OF e r3] r3 by auto
qed

text \<open>A connection never receives anything.  While its read buffer is empty, as it is at first, \<open>handle_read\<close> asks the
  kernel for zero bytes, so whatever data have arrived, the buffer stays empty.\<close>

theorem empty_connection_never_reads:
  assumes "rb_size (c_read c) = 0"
  shows "handle_read as None c = (Inr (), c)"
proof -
  have "read_loop as c = (Inr (), c)" using assms by (cases as) (simp_all add: run_simps)
  then show ?thesis by (simp add: handle_read_def seqE_run [of "read_loop as"] retE_def)
qed

definition idle_demo :: conn where
  "idle_demo = conn_demo\<lparr>c_read := ring_demo\<lparr>rb_tail := 0\<rparr>\<rparr>"

theorem empty_connection_never_reads_witness: "handle_read [Got [1, 2, 3]] None idle_demo = (Inr (), idle_demo)"
  by (rule empty_connection_never_reads) (simp add: idle_demo_def conn_demo_def ring_demo_def rb_size_def)

text \<open>No service can be registered: hashing its name does not end.\<close>

lemma hash_returns:
  assumes "hash_loop p code = Some y"
  shows "p = [] \<or> hd p = 0"
proof (rule hash_loop.raw_induct [OF _ assms])
  fix hl :: "byte list \<Rightarrow> 32 word \<Rightarrow> 32 word option" and p code y
  assume "\<And>p code y. hl p code = Some y \<Longrightarrow> p = [] \<or> hd p = 0"
    and "(case p of [] \<Rightarrow> Some code | c # _ \<Rightarrow> if c = 0 then Some code else hl p (code XOR scast c)) = Some y"
  then show "p = [] \<or> hd p = 0" by (cases p) (force split: if_splits)+
qed

lemma hash_never_returns: "c \<noteq> 0 \<Longrightarrow> hash_loop (c # s) code = None"
  using hash_returns [of "c # s" code] by (cases "hash_loop (c # s) code") auto

lemma register_diverges: "c \<noteq> 0 \<Longrightarrow> register (c # s) r services = Inl Diverges"
  by (simp add: register_def rpc_hash_def hash_never_returns)

end
