(* ===== verification/Server_Main.thy ===== *)
theory Server_Main
  imports Database Raft Conn
begin

text \<open>
  \<^verbatim>\<open>main.cc\<close> and \<^verbatim>\<open>db/log.{h,cc}\<close>: what the program does with a command that arrives at a server or with
  data at a client, and the
  message log.  The parser, the strings it makes and the answers of the kernel are arguments, and so is the result of the comparison
  in \<open>main\<close>, which is one of addresses.
\<close>

section \<open>The message log\<close>

datatype log_level = DEBUG | INFO | WARN | ERROR

definition level_rank :: "log_level \<Rightarrow> nat" where
  "level_rank l = (case l of DEBUG \<Rightarrow> 0 | INFO \<Rightarrow> 1 | WARN \<Rightarrow> 2 | ERROR \<Rightarrow> 3)"

definition DEFAULT_LOG_LEVEL :: log_level where "DEFAULT_LOG_LEVEL = DEBUG"

record msg_log =
  lg_open :: bool
  lg_level :: log_level
  lg_out :: string

text \<open>\<open>open_\<close> is not initialised: it comes from \<open>raw\<close>.\<close>

definition mk_log :: "bool \<Rightarrow> log_level \<Rightarrow> string \<Rightarrow> msg_log" where
  "mk_log raw level out = \<lparr>lg_open = raw, lg_level = level, lg_out = out\<rparr>"

definition log_put :: "string \<Rightarrow> msg_log \<Rightarrow> msg_log" where
  "log_put msg l = (if level_rank (lg_level l) \<ge> level_rank DEFAULT_LOG_LEVEL then l\<lparr>lg_out := lg_out l @ msg, lg_open := True\<rparr> else l)"

definition log_destroy :: "msg_log \<Rightarrow> msg_log" where
  "log_destroy l = (if lg_open l then l\<lparr>lg_out := lg_out l @ [CHR 0x0A], lg_open := False\<rparr> else l\<lparr>lg_open := False\<rparr>)"

definition get_label :: "log_level \<Rightarrow> string" where
  "get_label l = (case l of DEBUG \<Rightarrow> ''DEBUG'' | INFO \<Rightarrow> ''INFO'' | WARN \<Rightarrow> ''WARN'' | ERROR \<Rightarrow> ''ERROR'')"

section \<open>The program\<close>

datatype main_action = Usage | Server | Client | Bad_arguments

definition main :: "int \<Rightarrow> bool \<Rightarrow> main_action" where
  "main argc same_address =
     (if argc = 1 then Usage else if argc = 2 then (if same_address then Server else Client) else Bad_arguments)"

section \<open>A command at the server\<close>

record node =
  n_db :: alphadb
  n_raft :: raft
  n_conn :: conn

type_synonym 'a nd = "(node, 'a) eff"

definition on_db :: "'a db \<Rightarrow> 'a nd" where
  "on_db m s = (case m (n_db s) of (r, x) \<Rightarrow> (r, s\<lparr>n_db := x\<rparr>))"

definition on_cons :: "'a rf \<Rightarrow> 'a nd" where
  "on_cons m s = (case m (n_raft s) of (r, x) \<Rightarrow> (r, s\<lparr>n_raft := x\<rparr>))"

definition on_conn :: "'a cn \<Rightarrow> 'a nd" where
  "on_conn m s = (case m (n_conn s) of (r, x) \<Rightarrow> (r, s\<lparr>n_conn := x\<rparr>))"

text \<open>The read callback of a connection.  When fewer than ten bytes are buffered, \<open>get\<close> leaves the array as it is, uninitialised;
  a text of ten bytes without a zero runs past the array.  \<open>serve_command\<close> never sets the reply.\<close>

definition on_command :: "bool \<Rightarrow> (string \<Rightarrow> parser_result \<Rightarrow> int \<times> parser_result) \<Rightarrow> parser_result \<Rightarrow> (nat \<Rightarrow> string) \<Rightarrow>
    (log_entry \<Rightarrow> bool) \<Rightarrow> wres list \<Rightarrow> unit nd" where
  "on_command init_fails yyparse raw strs apf as =
     bindE (on_conn (on_c_read (rb_get_bytes 10))) (\<lambda>r. case r of
       None \<Rightarrow> throwE Undefined_behaviour
     | Some bytes \<Rightarrow>
         bindE (liftE (\<lambda>_. c_str bytes)) (\<lambda>sql.
         seqE (on_db (serve_command init_fails yyparse raw strs (map (\<lambda>b. char_of (uint b)) sql))) (
         seqE (on_cons (raft_replicate apf))
              (on_conn (send_bytes as [])))))"

section \<open>The client\<close>

text \<open>The connection's callback prints what \<open>get\<close> delivers; the array it prints is uninitialised when less than 1024 bytes are
  buffered.  The callback of the pipe sends on what the other process wrote.\<close>

definition client_on_read :: "byte list cn" where
  "client_on_read = bindE (on_c_read (rb_get_bytes 1024)) (\<lambda>r. case r of
      None \<Rightarrow> throwE Undefined_behaviour | Some bytes \<Rightarrow> liftE (\<lambda>_. c_str bytes))"

definition client_on_pipe :: "wres list \<Rightarrow> byte list \<Rightarrow> unit cn" where
  "client_on_pipe as bytes = (if bytes = [] then retE () else seqE (on_c_write (rb_put_bytes (take 4096 bytes))) (send_output as))"

section \<open>Facts\<close>

lemma empty_put_nothing:
  assumes "rb_size r = 0" "\<not> rb_full r" "rb_head r < max_size r" "max_size r < 2 ^ 64"
  shows "rb_put_bytes [] r = (Inr u, r') \<Longrightarrow> rb_size r' = 0"
  using assms
  by (auto simp: rb_put_bytes_def write_mem_def advance_put_def wrap_def uadd_def eff_defs rb_size_def split: option.splits if_splits)

lemma send_loop_empty: "rb_size (c_write c) = 0 \<Longrightarrow> send_loop as c = (Inr (), c)"
  by (cases "(as, c)" rule: prod.exhaust) (cases as; auto simp: run_simps split: wres.splits)

lemma on_conn_Inr: "on_conn m s = (Inr x, s') \<longleftrightarrow> (\<exists>c. m (n_conn s) = (Inr x, c) \<and> s' = s\<lparr>n_conn := c\<rparr>)"
  by (auto simp: on_conn_def split: prod.splits)

lemma other_parts: "on_db m s = (r, s') \<Longrightarrow> n_conn s' = n_conn s" "on_cons k s = (r', s'') \<Longrightarrow> n_conn s'' = n_conn s"
  by (auto simp: on_db_def on_cons_def split: prod.splits)

lemma on_c_read_only: "on_c_read m c = (r, c') \<Longrightarrow> c_write c' = c_write c \<and> c_sent c' = c_sent c"
  by (auto simp: on_c_read_def split: prod.splits)

section \<open>The properties\<close>


definition ring_of :: "nat \<Rightarrow> ring" where
  "ring_of n = \<lparr>rb_buf = Some (replicate 16 0), rb_full = False, rb_head = n, rb_tail = 0, max_size = 16\<rparr>"

definition conn_of :: conn where
  "conn_of = \<lparr>c_read = ring_of 10, c_write = ring_of 0, c_sent = [1]\<rparr>"

definition result_demo :: parser_result where
  "result_demo = \<lparr>is_valid = False, error_msg = None, error_line = 0, error_column = 0, statements = []\<rparr>"

lemma serve_nothing: "serve_command True yyparse result_demo strs command d = (Inr False, d)"
  by (simp add: serve_command_def sql_parse_def mk_parser_result_def result_demo_def on_mem_def reset_def release_as_def eff_defs)

lemma get_ten: "\<exists>r. rb_get_bytes 10 (ring_of 10) = (Inr (Some (replicate 10 0)), r)"
  by (simp add: rb_get_bytes_def ring_of_def rb_size_def read_mem_def advance_get_def wrap_def eff_defs)

lemma replicate_candidate: "raft_replicate apf raft_demo = (Inr False, raft_demo)"
  by (simp add: raft_replicate_def locked_def lock_mutex_def release_def raft_demo_def eff_defs)

lemma put_nothing: "rb_put_bytes [] (ring_of 0) = (Inr (), ring_of 0)"
  by (simp add: rb_put_bytes_def write_mem_def advance_put_def wrap_def uadd_def ring_of_def eff_defs)

lemma command_demo_runs:
  "\<exists>s'. on_command True yyparse result_demo strs apf as \<lparr>n_db = d, n_raft = raft_demo, n_conn = conn_of\<rparr> = (Inr (), s')"
proof -
  obtain r where r: "rb_get_bytes 10 (ring_of 10) = (Inr (Some (replicate 10 0)), r)" using get_ten by blast
  have "send_bytes as [] (conn_of\<lparr>c_read := r\<rparr>) = (Inr (), conn_of\<lparr>c_read := r\<rparr>)"
    using send_loop_empty [of "conn_of\<lparr>c_read := r\<rparr>" as]
    by (simp add: send_bytes_def send_output_def on_c_write_def conn_of_def put_nothing seqE_def bindE_def) (simp add: ring_of_def rb_size_def)
  then show ?thesis using r
    by (simp add: on_command_def on_conn_def on_c_read_def on_db_def on_cons_def conn_of_def c_str_def serve_nothing replicate_candidate eff_defs)
qed


end
