(* ===== verification/Servers.thy ===== *)
theory Servers
  imports Poller Conn
begin

text \<open>
  \<^verbatim>\<open>network/server.{h,cc}\<close>, the constructors and \<open>close\<close> of \<^verbatim>\<open>network/conn.cc\<close>, and the server side of
  \<^verbatim>\<open>network/rpc/rpc_server.{h,cc}\<close>: listening, accepting and closing connections over the kqueue poller.  The answers of the
  kernel to \<open>socket\<close>, \<open>bind\<close>, \<open>listen\<close>, \<open>connect\<close> and \<open>accept\<close> are arguments; closing a descriptor drops its filters.
  Members that a constructor does not set are \<open>None\<close>, and using them is undefined behaviour.  The buffers of a connection are
  in \<open>Conn\<close>.
\<close>

section \<open>Addresses\<close>

definition INADDR_NONE :: "32 word" where "INADDR_NONE = -1"

definition octet :: "string \<Rightarrow> nat option" where
  "octet s = (if s \<noteq> [] \<and> (\<forall>c \<in> set s. of_char c \<ge> (48 :: nat) \<and> of_char c \<le> (57 :: nat))
     then let n = foldl (\<lambda>a c. 10 * a + (of_char c - 48)) 0 s in if n \<le> 255 then Some n else None else None)"

fun split_dots :: "string \<Rightarrow> string list" where
  "split_dots [] = [[]]"
| "split_dots (c # cs) = (if c = CHR ''.'' then [] # split_dots cs
     else case split_dots cs of [] \<Rightarrow> [[c]] | p # ps \<Rightarrow> (c # p) # ps)"

text \<open>Four decimal numbers; the other notations \<open>inet_addr\<close> takes all begin with a digit too.\<close>

definition inet_addr :: "string \<Rightarrow> 32 word" where
  "inet_addr s = (case map octet (split_dots s) of
      [Some a, Some b, Some c, Some d] \<Rightarrow> of_nat (a + 2 ^ 8 * b + 2 ^ 16 * c + 2 ^ 24 * d)
    | _ \<Rightarrow> INADDR_NONE)"

definition SERVER_HOST :: string where "SERVER_HOST = ''localhost''"

section \<open>The state\<close>

record srv_conn =
  sock :: "int option"
  conn_chan :: nat

record server =
  sv_poll :: poller
  sv_fresh :: nat
  port :: "16 word"
  listen_fd :: "int option"
  listener :: "nat option"
  sv_conns :: "srv_conn list"

type_synonym 'a sv = "(server, 'a) eff"

definition sv_poller :: "'a pl \<Rightarrow> 'a sv" where
  "sv_poller m s = (case m (sv_poll s) of (r, p) \<Rightarrow> (r, s\<lparr>sv_poll := p\<rparr>))"

definition new_channel :: "16 word \<Rightarrow> int \<Rightarrow> nat sv" where
  "new_channel raw fd = bindE (getE sv_fresh) (\<lambda>c.
     seqE (modE (\<lambda>s. s\<lparr>sv_fresh := Suc c, sv_poll := (sv_poll s)\<lparr>chans := (chans (sv_poll s))(c \<mapsto> mk_channel raw fd)\<rparr>\<rparr>)) (retE c))"

definition delete_channel :: "nat \<Rightarrow> unit pl" where
  "delete_channel c = seqE (bindE (chan_at c) (\<lambda>_. retE ())) (modE (\<lambda>p. p\<lparr>chans := (chans p)(c := None)\<rparr>))"

definition close_fd :: "int \<Rightarrow> unit pl" where
  "close_fd fd = modE (\<lambda>p. p\<lparr>kq := (\<lambda>(f, x). if f = fd then None else kq p (f, x))\<rparr>)"

definition member :: "'b option \<Rightarrow> 'b sv" where
  "member x = (case x of None \<Rightarrow> throwE Undefined_behaviour | Some y \<Rightarrow> retE y)"

section \<open>Connections\<close>

text \<open>An accepted connection: \<open>sock_\<close> is not set.\<close>

definition conn_accepted :: "flags \<Rightarrow> 16 word \<Rightarrow> int \<Rightarrow> srv_conn sv" where
  "conn_accepted ev raw fd =
     bindE (new_channel raw fd) (\<lambda>c.
     seqE (sv_poller (enable_read ev c True)) (
     seqE (sv_poller (enable_write ev c True)) (
     retE \<lparr>sock = None, conn_chan = c\<rparr>)))"

text \<open>A connection to a server, given the answers to \<open>socket\<close> and \<open>connect\<close>.\<close>

definition conn_to :: "flags \<Rightarrow> 16 word \<Rightarrow> int \<Rightarrow> (32 word \<Rightarrow> int) \<Rightarrow> string \<Rightarrow> srv_conn sv" where
  "conn_to ev raw fd connect host =
     seqE (guardE (fd \<ge> 0) Std_exception) (
     seqE (guardE (connect (inet_addr host) \<ge> 0) Std_exception) (
     bindE (new_channel raw fd) (\<lambda>c.
     seqE (sv_poller (enable_read ev c True)) (
     seqE (sv_poller (enable_write ev c True)) (
     retE \<lparr>sock = Some fd, conn_chan = c\<rparr>)))))"

definition conn_close :: "srv_conn \<Rightarrow> unit sv" where
  "conn_close x = bindE (member (sock x)) (\<lambda>fd. seqE (sv_poller (close_fd fd)) (sv_poller (delete_channel (conn_chan x))))"

fun close_conns :: "srv_conn list \<Rightarrow> unit sv" where
  "close_conns [] = retE ()"
| "close_conns (x # xs) = seqE (conn_close x) (close_conns xs)"

section \<open>Servers\<close>

definition mk_server :: "poller \<Rightarrow> nat \<Rightarrow> 16 word \<Rightarrow> server" where
  "mk_server p fresh prt = \<lparr>sv_poll = p, sv_fresh = fresh, port = prt, listen_fd = None, listener = None, sv_conns = []\<rparr>"

text \<open>\<open>start\<close>, given the answers to \<open>socket\<close>, \<open>bind\<close> and \<open>listen\<close>.\<close>

definition sv_start :: "flags \<Rightarrow> 16 word \<Rightarrow> int \<Rightarrow> (32 word \<Rightarrow> 16 word \<Rightarrow> int) \<Rightarrow> int \<Rightarrow> unit sv" where
  "sv_start ev raw fd bind listen =
     seqE (modE (\<lambda>s. s\<lparr>listen_fd := Some fd\<rparr>)) (
     seqE (guardE (fd \<ge> 0) Std_exception) (
     bindE (getE port) (\<lambda>prt.
     seqE (guardE (bind (inet_addr SERVER_HOST) prt \<ge> 0) Std_exception) (
     seqE (guardE (listen \<ge> 0) Std_exception) (
     bindE (new_channel raw fd) (\<lambda>c.
     seqE (modE (\<lambda>s. s\<lparr>listener := Some c\<rparr>))
          (sv_poller (enable_read ev c True))))))))"

definition sv_shutdown :: "unit sv" where
  "sv_shutdown =
     bindE (getE (\<lambda>s. s)) (\<lambda>s.
     bindE (member (listen_fd s)) (\<lambda>fd.
     seqE (sv_poller (close_fd fd)) (
     bindE (member (listener s)) (\<lambda>c.
     seqE (sv_poller (delete_channel c)) (close_conns (sv_conns s))))))"

definition sv_destroy :: "unit sv" where
  "sv_destroy = sv_shutdown"

text \<open>\<open>handle_accept\<close>, given the answer to \<open>accept\<close>, which is not tested.\<close>

definition handle_accept :: "flags \<Rightarrow> 16 word \<Rightarrow> (srv_conn \<Rightarrow> unit sv) option \<Rightarrow> int \<Rightarrow> unit sv" where
  "handle_accept ev raw callback fd =
     bindE (conn_accepted ev raw fd) (\<lambda>x.
     seqE (case callback of None \<Rightarrow> retE () | Some cb \<Rightarrow> cb x)
          (modE (\<lambda>s. s\<lparr>sv_conns := sv_conns s @ [x]\<rparr>)))"

section \<open>Remote calls\<close>

text \<open>The RPC server pushes the connection first and gives it a callback that holds a reference to the local variable \<open>conn\<close>.\<close>

definition rpc_handle_accept :: "flags \<Rightarrow> 16 word \<Rightarrow> int \<Rightarrow> unit sv" where
  "rpc_handle_accept ev raw fd =
     bindE (conn_accepted ev raw fd) (\<lambda>x. modE (\<lambda>s. s\<lparr>sv_conns := sv_conns s @ [x]\<rparr>))"

record 'f rpc_session =
  rs_conn :: "'f rpc_conn"
  rs_count :: int

text \<open>The callback itself; \<open>alive\<close> says whether the variable still exists, which is the case only while \<open>handle_accept\<close> runs.
  The number that is looked up among the hash codes of the services is the number of the call.\<close>

definition rpc_on_read :: "bool \<Rightarrow> (32 word \<rightharpoonup> unit cd) \<Rightarrow> wres list \<Rightarrow> ('f rpc_session, unit) eff" where
  "rpc_on_read alive services as =
     seqE (guardE alive Undefined_behaviour) (
     bindE (\<lambda>s. case as_codec get_rpc_id (rs_conn s) of (r, c) \<Rightarrow> (r, s\<lparr>rs_conn := c\<rparr>)) (\<lambda>rpcid.
     seqE (case services (ucast (rpcid :: 64 word)) of
         None \<Rightarrow> retE ()
       | Some serv \<Rightarrow> seqE (\<lambda>s. case as_codec serv (rs_conn s) of (r, c) \<Rightarrow> (r, s\<lparr>rs_conn := c\<rparr>))
           (modE (\<lambda>s. s\<lparr>rs_count := rs_count s + 1\<rparr>)))
     (\<lambda>s. case as_conn (send_output as) (rs_conn s) of (r, c) \<Rightarrow> (r, s\<lparr>rs_conn := c\<rparr>))))"

section \<open>Facts\<close>

lemma or_and_not_zero: "(m :: 16 word) \<noteq> 0 \<Longrightarrow> (x OR m) AND m \<noteq> 0" "m \<noteq> 0 \<Longrightarrow> ((x OR m) OR k) AND m \<noteq> 0"
proof -
  have "(x OR m) AND m = m" "((x OR m) OR k) AND m = m" by (auto simp: bit_eq_iff bit_simps)
  then show "m \<noteq> 0 \<Longrightarrow> (x OR m) AND m \<noteq> 0" "m \<noteq> 0 \<Longrightarrow> ((x OR m) OR k) AND m \<noteq> 0" by simp_all
qed

lemma enable_run:
  assumes "chans p c = Some x"
  shows "enable_read ev c True p = (Inr (), p\<lparr>chans := (chans p)(c \<mapsto> x\<lparr>ch_events := ch_events x OR fst ev\<rparr>),
      kq := kevent [if read_enabled ev (x\<lparr>ch_events := ch_events x OR fst ev\<rparr>) then EV_ADD (ch_fd x) EVFILT_READ c else EV_DELETE (ch_fd x) EVFILT_READ,
        if write_enabled ev (x\<lparr>ch_events := ch_events x OR fst ev\<rparr>) then EV_ADD (ch_fd x) EVFILT_WRITE c else EV_DELETE (ch_fd x) EVFILT_WRITE] (kq p)\<rparr>)"
    "enable_write ev c True p = (Inr (), p\<lparr>chans := (chans p)(c \<mapsto> x\<lparr>ch_events := ch_events x OR snd ev\<rparr>),
      kq := kevent [if read_enabled ev (x\<lparr>ch_events := ch_events x OR snd ev\<rparr>) then EV_ADD (ch_fd x) EVFILT_READ c else EV_DELETE (ch_fd x) EVFILT_READ,
        if write_enabled ev (x\<lparr>ch_events := ch_events x OR snd ev\<rparr>) then EV_ADD (ch_fd x) EVFILT_WRITE c else EV_DELETE (ch_fd x) EVFILT_WRITE] (kq p)\<rparr>)"
  using assms by (auto simp: enable_read_def enable_write_def upd_chan_def chan_at_def update_channel_def run_simps seqE_def bindE_def liftE_def modE_def Let_def
      read_enabled_def write_enabled_def)

lemma conn_accepted_run:
  assumes "fst ev \<noteq> 0" "snd ev \<noteq> 0"
  shows "\<exists>s'. conn_accepted ev raw fd s = (Inr \<lparr>sock = None, conn_chan = sv_fresh s\<rparr>, s') \<and> sv_conns s' = sv_conns s \<and>
    kq (sv_poll s') (fd, EVFILT_READ) = Some (sv_fresh s) \<and> kq (sv_poll s') (fd, EVFILT_WRITE) = Some (sv_fresh s) \<and>
    map_option ch_fd (chans (sv_poll s') (sv_fresh s)) = Some fd"
proof -
  let ?c = "sv_fresh s" let ?p = "(sv_poll s)\<lparr>chans := (chans (sv_poll s))(?c \<mapsto> mk_channel raw fd)\<rparr>"
  let ?x = "mk_channel raw fd\<lparr>ch_events := raw OR fst ev\<rparr>"
  obtain p1 where p1: "enable_read ev ?c True ?p = (Inr (), p1)" "chans p1 ?c = Some ?x"
    using enable_run(1) [of ?p ?c "mk_channel raw fd" ev] by (auto simp: mk_channel_def)
  let ?y = "?x\<lparr>ch_events := (raw OR fst ev) OR snd ev\<rparr>"
  have y: "read_enabled ev ?y" "write_enabled ev ?y"
    using or_and_not_zero(2) [OF assms(1)] or_and_not_zero(1) [OF assms(2)] by (simp_all add: read_enabled_def write_enabled_def)
  have p2: "enable_write ev ?c True p1 = (Inr (), p1\<lparr>chans := (chans p1)(?c \<mapsto> ?y), kq := (kq p1)((fd, EVFILT_READ) \<mapsto> ?c, (fd, EVFILT_WRITE) \<mapsto> ?c)\<rparr>)"
    using enable_run(2) [OF p1(2), of ev] y by (simp add: mk_channel_def)
  show ?thesis using p1(1) p2 by (simp add: conn_accepted_def new_channel_def sv_poller_def eff_defs) (simp add: mk_channel_def)
qed

lemma localhost_is_no_address: "inet_addr SERVER_HOST = INADDR_NONE"
  by (simp add: inet_addr_def SERVER_HOST_def octet_def)

section \<open>The properties\<close>


definition srv_poll_demo :: poller where
  "srv_poll_demo = \<lparr>last_active = -1, channels = {}, events = [], kq = Map.empty, chans = \<lambda>_. None, trace = []\<rparr>"


text \<open>The server cannot listen: \<open>localhost\<close> is not a numeric address, so it asks for the broadcast address, which the kernel refuses.\<close>

lemma server_cannot_listen:
  assumes "\<And>prt. bind INADDR_NONE prt < 0"
  shows "sv_start ev raw fd bind listen s = (Inl Std_exception, s\<lparr>listen_fd := Some fd\<rparr>)"
  using assms [of "port s"] by (simp add: sv_start_def run_simps localhost_is_no_address)

text \<open>The destructor shuts a server down a second time, and the listener is deleted twice.\<close>

lemma shutdown_twice:
  assumes "sv_shutdown s = (Inr (), s')"
  shows "fst (sv_destroy s') = Inl Undefined_behaviour"
proof -
  obtain fd c where fd: "listen_fd s = Some fd" "listener s = Some c"
    using assms by (auto simp: sv_shutdown_def bindE_Inr run_simps member_def seqE_Inr split: option.splits)
  have closes: "close_conns xs t = (Inr (), t') \<Longrightarrow> chans (sv_poll t) c = None \<Longrightarrow> chans (sv_poll t') c = None \<and> listen_fd t' = listen_fd t \<and> listener t' = listener t" for xs t t'
  proof (induction xs arbitrary: t)
    case (Cons x xs)
    from Cons.prems(1) obtain t1 where 1: "conn_close x t = (Inr (), t1)" "close_conns xs t1 = (Inr (), t')"
      by (auto simp: seqE_Inr)
    have "chans (sv_poll t1) c = None \<and> listen_fd t1 = listen_fd t \<and> listener t1 = listener t"
      using 1(1) Cons.prems(2) by (auto simp: conn_close_def member_def close_fd_def delete_channel_def chan_at_def sv_poller_def eff_defs split: option.splits)
    then show ?case using Cons.IH [OF 1(2)] by simp
  qed (simp add: retE_def)
  let ?s1 = "snd (sv_poller (close_fd fd) s)"
  have "\<exists>s2. sv_poller (delete_channel c) ?s1 = (Inr (), s2) \<and> close_conns (sv_conns s) s2 = (Inr (), s') \<and> chans (sv_poll s2) c = None \<and>
      listen_fd s2 = listen_fd s \<and> listener s2 = listener s"
    using assms fd by (auto simp: sv_shutdown_def member_def close_fd_def delete_channel_def chan_at_def sv_poller_def eff_defs split: option.splits prod.splits sum.splits)
  then have "chans (sv_poll s') c = None \<and> listen_fd s' = Some fd \<and> listener s' = Some c" using closes fd by force
  then show ?thesis
    by (auto simp: sv_destroy_def sv_shutdown_def member_def close_fd_def delete_channel_def chan_at_def sv_poller_def eff_defs)
qed

end
