(* ===== verification/Raft_Storage.thy ===== *)
theory Raft_Storage
  imports Raft Index_Manager
begin

text \<open>
  \<^verbatim>\<open>consensus/raft/raft_server.cc\<close>: the state a Raft server keeps on disk, and its start and shutdown.  The file is text,
  written with \<open><<\<close> and read with \<open>>>\<close>.  The stream operators for log entries are declared nowhere for files: they are the
  arguments \<open>show_log\<close> and \<open>read_log\<close>.  A variable that a failed extraction leaves unset is \<open>None\<close>, and using it is undefined
  behaviour.  The writing stream is a static variable, so the file is truncated only by the first call.
\<close>

section \<open>Formatted input\<close>

text \<open>A stream is the rest of its text and a flag for failure.\<close>

type_synonym istream = "string \<times> bool"

definition is_space :: "char \<Rightarrow> bool" where
  "is_space c \<longleftrightarrow> c \<in> {CHR '' '', CHR 0x09, CHR 0x0A, CHR 0x0B, CHR 0x0C, CHR 0x0D}"

definition is_digit :: "char \<Rightarrow> bool" where
  "is_digit c \<longleftrightarrow> of_char c \<ge> (48 :: nat) \<and> of_char c \<le> (57 :: nat)"

definition digits_val :: "string \<Rightarrow> nat" where
  "digits_val s = foldl (\<lambda>a c. 10 * a + char_val c) 0 s"

text \<open>\<open>is >> i\<close> for an \<open>int\<close>: white space is skipped; at the end of the text, or after a failure, the variable keeps its value;
  when there is no number it becomes zero, and when the number is out of range it becomes the nearest \<open>int\<close>, with the failure
  flag set.\<close>

definition read_int :: "istream \<Rightarrow> int option \<times> istream" where
  "read_int st = (case st of (s, bad) \<Rightarrow>
     let t = dropWhile is_space s in
     if bad \<or> t = [] then (None, (t, True))
     else
       let neg = (hd t = CHR ''-''); u = (if neg \<or> hd t = CHR ''+'' then tl t else t);
           ds = takeWhile is_digit u; rest = dropWhile is_digit u;
           v = (if neg then - int (digits_val ds) else int (digits_val ds)) in
       if ds = [] then (Some 0, (rest, True))
       else if int_range v then (Some v, (rest, False))
       else (Some (if neg then - (2 ^ 31) else 2 ^ 31 - 1), (rest, True)))"

fun read_logs :: "(istream \<Rightarrow> log_entry \<times> istream) \<Rightarrow> nat \<Rightarrow> istream \<Rightarrow> log_entry list" where
  "read_logs read_log 0 st = []"
| "read_logs read_log (Suc n) st = (case read_log st of (e, st') \<Rightarrow> e # read_logs read_log n st')"

section \<open>The operations\<close>

record raft_node =
  rn_raft :: raft
  rn_file :: "string option"
  rn_out_open :: bool

type_synonym 'a rn = "(raft_node, 'a) eff"

definition on_raft :: "'a rf \<Rightarrow> 'a rn" where
  "on_raft m s = (case m (rn_raft s) of (r, x) \<Rightarrow> (r, s\<lparr>rn_raft := x\<rparr>))"

definition state_text :: "(log_entry \<Rightarrow> string) \<Rightarrow> raft \<Rightarrow> string" where
  "state_text show_log s = decimal (unat (current_term s)) @ show_int (voted_for s) @ decimal (length (log_entries s)) @
     concat (map show_log (log_entries s))"

text \<open>The text goes over the beginning of the file.\<close>

definition persist_state_to_disk :: "(log_entry \<Rightarrow> string) \<Rightarrow> unit rn" where
  "persist_state_to_disk show_log =
     bindE (on_raft (locked (getE (state_text show_log)))) (\<lambda>txt.
     modE (\<lambda>s. s\<lparr>rn_file := Some (txt @ drop (length txt) (if rn_out_open s then (case rn_file s of None \<Rightarrow> [] | Some old \<Rightarrow> old) else [])),
       rn_out_open := True\<rparr>))"

definition unset :: "'b option \<Rightarrow> 'b rn" where
  "unset x = (case x of None \<Rightarrow> throwE Undefined_behaviour | Some y \<Rightarrow> retE y)"

definition read_state_from_disk :: "(istream \<Rightarrow> log_entry \<times> istream) \<Rightarrow> unit rn" where
  "read_state_from_disk read_log =
     bindE (getE (\<lambda>s. case rn_file s of None \<Rightarrow> ([], True) | Some txt \<Rightarrow> (txt, False))) (\<lambda>st0.
     case read_int st0 of (term, st1) \<Rightarrow>
     case read_int st1 of (vf, st2) \<Rightarrow>
     case read_int st2 of (sz, st3) \<Rightarrow>
     bindE (unset sz) (\<lambda>n.
     bindE (unset term) (\<lambda>t. bindE (unset vf) (\<lambda>v.
     on_raft (locked (modE (\<lambda>s. s\<lparr>current_term := word_of_int t, voted_for := v, log_entries := read_logs read_log (nat n) st3\<rparr>)))))))"

definition rs_start :: "(istream \<Rightarrow> log_entry \<times> istream) \<Rightarrow> env \<Rightarrow> unit rn" where
  "rs_start read_log en = seqE (read_state_from_disk read_log) (on_raft (reschedule_election en))"

text \<open>\<open>shutdown\<close>, up to the shutdown of the server's sockets.\<close>

definition rs_shutdown :: "(log_entry \<Rightarrow> string) \<Rightarrow> unit rn" where
  "rs_shutdown show_log =
     seqE (persist_state_to_disk show_log) (
     bindE (getE rn_raft) (\<lambda>s.
     on_raft (case rs_role s of
         leader \<Rightarrow> cancel_timer (heartbeat_timer_id s)
       | candidate \<Rightarrow> cancel_timer (election_timer_id s)
       | follower \<Rightarrow> cancel_timer (timer_id s))))"

section \<open>Facts\<close>

lemma digit_is_digit: "d < 10 \<Longrightarrow> is_digit (digit d)"
  by (simp add: digit_def is_digit_def take_bit_nat_eq_self)

lemma is_digitD: "is_digit c \<Longrightarrow> \<not> is_space c \<and> c \<noteq> CHR ''-'' \<and> c \<noteq> CHR ''+''"
  by (auto simp: is_digit_def is_space_def)

lemma decimal_digits: "c \<in> set (decimal n) \<Longrightarrow> is_digit c"
proof (induction n rule: decimal.induct)
  case (1 n)
  then show ?case by (subst (asm) (2) decimal.simps) (auto simp: digit_is_digit split: if_splits)
qed

lemma decimal_not_Nil: "decimal n \<noteq> []"
  by (subst decimal.simps) simp

lemma read_int_digits:
  assumes "\<And>c. c \<in> set ds \<Longrightarrow> is_digit c" "ds \<noteq> []" "rest = [] \<or> \<not> is_digit (hd rest)"
  shows "snd (read_int (ds @ rest, False)) = (rest, \<not> int_range (int (digits_val ds)))"
    "snd (read_int (CHR ''-'' # ds @ rest, False)) = (rest, \<not> int_range (- int (digits_val ds)))"
proof -
  obtain d es where ds: "ds = d # es" using assms(2) by (cases ds) auto
  have t: "takeWhile is_digit (ds @ rest) = ds" "dropWhile is_digit (ds @ rest) = rest"
    using assms(1,3) by (auto simp: takeWhile_append dropWhile_append takeWhile_eq_Nil_iff dropWhile_eq_self_iff)
  have d: "\<not> is_space d \<and> d \<noteq> CHR ''-'' \<and> d \<noteq> CHR ''+''" using assms(1) [of d] ds by (intro is_digitD) simp
  then show "snd (read_int (ds @ rest, False)) = (rest, \<not> int_range (int (digits_val ds)))"
    using t by (simp add: read_int_def Let_def ds)
  have "\<not> is_space (CHR ''-'')" by (simp add: is_space_def)
  then show "snd (read_int (CHR ''-'' # ds @ rest, False)) = (rest, \<not> int_range (- int (digits_val ds)))"
    using t assms(2) by (simp add: read_int_def Let_def)
qed

lemma read_int_end: "read_int ([], b) = (None, ([], True))" "read_int (s, True) = (None, (dropWhile is_space s, True))"
  by (simp_all add: read_int_def)

text \<open>Of the text of a server with an empty log the third number cannot be read: the numbers are written without a separator.\<close>

lemma third_number_missing:
  assumes "log_entries s = []"
  shows "fst (read_int (snd (read_int (snd (read_int (state_text show_log s, False)))))) = None"
proof -
  let ?a = "decimal (unat (current_term s))" and ?z = "decimal 0"
  have tx: "state_text show_log s = ?a @ show_int (voted_for s) @ ?z" using assms by (simp add: state_text_def)
  have last: "fst (read_int (snd (read_int ([], b)))) = None" for b by (simp add: read_int_end)
  show ?thesis
  proof (cases "voted_for s < 0")
    case False
    let ?ds = "?a @ decimal (nat (voted_for s)) @ ?z"
    have "snd (read_int (?ds @ [], False)) = ([], \<not> int_range (int (digits_val ?ds)))"
      by (intro read_int_digits(1)) (auto simp: decimal_digits decimal_not_Nil)
    then show ?thesis using False last by (simp add: tx show_int_def)
  next
    case True
    let ?ds = "decimal (nat (- voted_for s)) @ ?z"
    have "\<not> is_digit (CHR ''-'')" by (simp add: is_digit_def)
    then have 1: "snd (read_int (?a @ (CHR ''-'' # ?ds), False)) = (CHR ''-'' # ?ds, \<not> int_range (int (digits_val ?a)))"
      by (intro read_int_digits(1)) (auto simp: decimal_digits decimal_not_Nil)
    have 2: "snd (read_int (CHR ''-'' # ?ds @ [], False)) = ([], \<not> int_range (- int (digits_val ?ds)))"
      by (intro read_int_digits(2)) (auto simp: decimal_digits decimal_not_Nil)
    show ?thesis
    proof (cases "int_range (int (digits_val ?a))")
      case True
      then show ?thesis using 1 2 \<open>voted_for s < 0\<close> by (simp add: tx show_int_def read_int_end)
    next
      case False
      then show ?thesis using 1 \<open>voted_for s < 0\<close> by (simp add: tx show_int_def read_int_end)
    qed
  qed
qed

lemma start_undefined:
  assumes "fst (read_int (snd (read_int (snd (read_int (case rn_file n of None \<Rightarrow> ([], True) | Some txt \<Rightarrow> (txt, False))))))) = None"
  shows "rs_start read_log en n = (Inl Undefined_behaviour, n)"
  using assms by (auto simp: rs_start_def read_state_from_disk_def seqE_def bindE_def getE_def unset_def throwE_def split: prod.splits)

section \<open>The properties\<close>

text \<open>C40: a Raft server does not survive a restart, and does not start the first time.  When a server with an empty log has
  written its state for the first time, reading that file back is undefined behaviour, whatever its term and vote, because term,
  vote and length are written without separators and the length cannot be read any more.  The same happens when there is no file
  yet.\<close>

theorem raft_restart_undefined:
  assumes "persist_state_to_disk show_log n = (Inr (), n1)" "\<not> rn_out_open n" "log_entries (rn_raft n) = []"
  shows "fst (rs_start read_log en (n2\<lparr>rn_file := rn_file n1\<rparr>)) = Inl Undefined_behaviour \<and>
    fst (rs_start read_log en (n2\<lparr>rn_file := None\<rparr>)) = Inl Undefined_behaviour"
proof -
  have f: "rn_file n1 = Some (state_text show_log (rn_raft n\<lparr>mutex := True\<rparr>))"
    using assms(1,2)
    by (auto simp: persist_state_to_disk_def on_raft_def locked_def lock_mutex_def release_def eff_defs split: if_splits)
  have "rs_start read_log en (n2\<lparr>rn_file := rn_file n1\<rparr>) = (Inl Undefined_behaviour, n2\<lparr>rn_file := rn_file n1\<rparr>)"
    by (rule start_undefined) (use third_number_missing [of "rn_raft n\<lparr>mutex := True\<rparr>"] assms(3) f in simp)
  moreover have "rs_start read_log en (n2\<lparr>rn_file := None\<rparr>) = (Inl Undefined_behaviour, n2\<lparr>rn_file := None\<rparr>)"
    by (rule start_undefined) (simp add: read_int_end)
  ultimately show ?thesis by simp
qed

definition node_demo :: raft_node where
  "node_demo = \<lparr>rn_raft = raft_demo\<lparr>log_entries := []\<rparr>, rn_file = None, rn_out_open = False\<rparr>"

theorem raft_restart_undefined_witness:
  "\<exists>n1. persist_state_to_disk (\<lambda>_. []) node_demo = (Inr (), n1) \<and>
     fst (rs_start (\<lambda>st. (\<lparr>log_index = 0, log_term = 0\<rparr>, st)) env_demo (node_demo\<lparr>rn_file := rn_file n1\<rparr>)) = Inl Undefined_behaviour"
proof -
  obtain n1 where n1: "persist_state_to_disk (\<lambda>_. []) node_demo = (Inr (), n1)"
    by (simp add: persist_state_to_disk_def node_demo_def raft_demo_def on_raft_def locked_def lock_mutex_def release_def eff_defs)
  moreover have "\<not> rn_out_open node_demo" "log_entries (rn_raft node_demo) = []" by (simp_all add: node_demo_def)
  ultimately show ?thesis using raft_restart_undefined [OF n1] by blast
qed

end
