(* ===== verification/Reactor.thy ===== *)
theory Reactor
  imports Dispatcher Poller
begin

text \<open>
  \<^verbatim>\<open>network/dispatcher.cc\<close>: the loop of the reactor, which waits for events, runs the handlers of the channels and then
  the due timers.  What the rest of the program does while a round runs, in handlers or in other threads, is a list of calls of
  the dispatcher.  \<open>waited\<close> adds up the time-outs given to the kernel, in milliseconds.
\<close>

section \<open>The model\<close>

datatype 'a dcall = Run_at int 'a int int | Cancel timer_id | Repeat_at timer_id int | Exit | Wakeup

definition do_call :: "'a dcall \<Rightarrow> ('a, unit) disp" where
  "do_call c = (case c of
      Run_at tp t interval now \<Rightarrow> bindE (run_at tp t interval now) (\<lambda>_. retE ())
    | Cancel tid \<Rightarrow> bindE (cancel tid) (\<lambda>_. retE ())
    | Repeat_at key now \<Rightarrow> bindE (repeat key now) (\<lambda>_. retE ())
    | Exit \<Rightarrow> d_exit
    | Wakeup \<Rightarrow> wakeup)"

fun do_calls :: "'a dcall list \<Rightarrow> ('a, unit) disp" where
  "do_calls [] = retE ()"
| "do_calls (c # cs) = seqE (do_call c) (do_calls cs)"

text \<open>What happens in a round: the events the kernel reports, the calls, and two readings of the clock.\<close>

record 'a round =
  rd_events :: "pevent list"
  rd_calls :: "'a dcall list"
  rd_now :: int
  rd_now' :: int

record 'a reactor =
  disp :: "'a dispatcher"
  poll :: poller
  waited :: int

definition on_disp :: "('a, 'b) disp \<Rightarrow> ('a reactor, 'b) eff" where
  "on_disp m s = (case m (disp s) of (r, d) \<Rightarrow> (r, s\<lparr>disp := d\<rparr>))"

definition on_poll :: "'b pl \<Rightarrow> ('a reactor, 'b) eff" where
  "on_poll m s = (case m (poll s) of (r, p) \<Rightarrow> (r, s\<lparr>poll := p\<rparr>))"

definition d_loop_once :: "flags \<Rightarrow> (nat \<Rightarrow> bool \<Rightarrow> unit pl) \<Rightarrow> int \<Rightarrow> 'a round \<Rightarrow> ('a reactor, unit) eff" where
  "d_loop_once ev hs ms rd =
     bindE (getE (\<lambda>s. min ms (next_timeout (disp s)))) (\<lambda>timeout.
     seqE (modE (\<lambda>s. s\<lparr>waited := waited s + timeout\<rparr>)) (
     seqE (on_poll (loop_once (rd_events rd) ev hs)) (
     seqE (on_disp (do_calls (rd_calls rd)))
          (on_disp (handle_timeout (rd_now rd) (rd_now' rd))))))"

definition clear_timers :: "'a dispatcher \<Rightarrow> 'a dispatcher" where
  "clear_timers d = d\<lparr>timers := [], repeatable_timers := []\<rparr>"

text \<open>Round \<open>i\<close> of the loop runs in the environment \<open>env i\<close>.\<close>

partial_function (option) d_loop :: "flags \<Rightarrow> (nat \<Rightarrow> bool \<Rightarrow> unit pl) \<Rightarrow> (nat \<Rightarrow> 'a round) \<Rightarrow> nat \<Rightarrow> 'a reactor \<Rightarrow> (unit res \<times> 'a reactor) option" where
  "d_loop ev hs env i s =
     (if d_working (disp s) then
        case d_loop_once ev hs DEFAULT_TIMEOUTS (env i) s of
          (Inl e, s') \<Rightarrow> Some (Inl e, s')
        | (Inr u, s') \<Rightarrow> d_loop ev hs env (Suc i) s'
      else Some (d_loop_once ev hs 0 (env i) (s\<lparr>disp := clear_timers (disp s)\<rparr>)))"

section \<open>Facts\<close>

definition stopped :: "'a dispatcher \<Rightarrow> bool" where
  "stopped d \<longleftrightarrow> \<not> d_working d"

definition cleared :: "'a dispatcher \<Rightarrow> bool" where
  "cleared d \<longleftrightarrow> \<not> d_working d \<and> timers d = [] \<and> repeatable_timers d = []"

definition no_past :: "'a dispatcher \<Rightarrow> bool" where
  "no_past d \<longleftrightarrow> 0 \<le> next_timeout d"

lemma update_keeps [keeps_rules]: "keepsE stopped (update_next_timeout now)" "keepsE cleared (update_next_timeout now)"
  "keepsE no_past (update_next_timeout now)"
  by (auto simp: keepsE_def stopped_def cleared_def no_past_def update_next_timeout_def eff_defs Let_def MAX_TIMEOUTS_def
      split: list.splits prod.splits sum.splits)

lemma seq_keeps [keeps_rules]: "keepsE stopped next_seq" "keepsE cleared next_seq" "keepsE no_past next_seq"
  by (auto simp: keepsE_def stopped_def cleared_def no_past_def next_seq_def eff_defs)

lemma run_at_keeps: "keepsE stopped (run_at tp t interval now)" "keepsE no_past (run_at tp t interval now)"
  unfolding run_at_def by (intro keeps_rules keepsE_mod; simp add: stopped_def no_past_def)+

lemma repeat_keeps: "keepsE stopped (repeat key now)" "keepsE no_past (repeat key now)"
  unfolding repeat_def by (intro keeps_rules keepsE_mod; auto simp: stopped_def no_past_def intro!: keeps_rules keepsE_mod split: option.splits)+

lemma cancel_keeps: "keepsE stopped (cancel tid)" "keepsE no_past (cancel tid)"
  by (auto simp: keepsE_def stopped_def no_past_def cancel_def eff_defs split: option.splits)

lemma cleared_calls: "keepsE cleared (run_at tp t interval now)" "keepsE cleared (repeat key now)" "keepsE cleared (cancel tid)"
  by (auto simp: keepsE_def cleared_def run_at_def repeat_def cancel_def eff_defs)

lemma exit_keeps: "keepsE stopped d_exit" "keepsE cleared d_exit" "keepsE no_past d_exit"
    "keepsE stopped wakeup" "keepsE cleared wakeup" "keepsE no_past wakeup"
  by (auto simp: keepsE_def stopped_def cleared_def no_past_def d_exit_def wakeup_def eff_defs)

lemma do_call_keeps: "keepsE stopped (do_call c)" "keepsE cleared (do_call c)" "keepsE no_past (do_call c)"
  by (cases c; simp add: do_call_def exit_keeps keepsE_bind keepsE_basic run_at_keeps repeat_keeps cancel_keeps cleared_calls)+

lemma do_calls_keeps: "keepsE stopped (do_calls cs)" "keepsE cleared (do_calls cs)" "keepsE no_past (do_calls cs)"
  by (induction cs; simp add: keepsE_seq keepsE_basic do_call_keeps)+

lemma hand_over_keeps: "keepsE stopped (hand_over t)" "keepsE no_past (hand_over t)"
  by (auto simp: keepsE_def hand_over_def stopped_def no_past_def split: prod.splits sum.splits)

lemma set_timers_keeps: "keepsE stopped (modE (\<lambda>d. d\<lparr>timers := ts\<rparr>))" "keepsE no_past (modE (\<lambda>d. d\<lparr>timers := ts\<rparr>))"
  by (simp_all add: keepsE_def modE_def stopped_def no_past_def)

lemma fire_keeps: "keepsE stopped (fire_loop now ts) \<and> keepsE no_past (fire_loop now ts)"
  by (induction now ts rule: fire_loop.induct) (auto intro!: keepsE_seq simp: keepsE_basic hand_over_keeps set_timers_keeps)

lemma timeout_keeps: "keepsE stopped (handle_timeout now now')" "keepsE no_past (handle_timeout now now')"
  by (simp_all add: handle_timeout_def keepsE_bind keepsE_seq keepsE_basic fire_keeps update_keeps)

lemma timeout_cleared: "keepsE cleared (handle_timeout now now')"
  using update_keeps(2) [of now'] by (auto simp: keepsE_def handle_timeout_def cleared_def run_simps)

text \<open>A call of \<open>exit\<close> among the calls of a round stops the loop, unless a call fails before.\<close>

lemma exit_stops: "Exit \<in> set cs \<Longrightarrow> do_calls cs d = (Inr u, d') \<Longrightarrow> stopped d'"
proof (induction cs arbitrary: d)
  case (Cons c cs)
  from Cons.prems(2) obtain v d1 where d1: "do_call c d = (Inr v, d1)" "do_calls cs d1 = (Inr u, d')"
    by (auto simp: seqE_Inr)
  show ?case
  proof (cases "c = Exit")
    case True
    then have "stopped d1" using d1(1) by (auto simp: do_call_def d_exit_def wakeup_def run_simps stopped_def)
    then show ?thesis using do_calls_keeps(1) [of cs] d1(2) by (metis keepsE_def snd_conv)
  next
    case False
    then show ?thesis using Cons.IH [OF _ d1(2)] Cons.prems(1) by auto
  qed
qed simp

text \<open>One round as a whole.\<close>

lemma loop_once_run:
  assumes "d_loop_once ev hs ms rd s = (r, s')"
  shows "waited s' = waited s + min ms (next_timeout (disp s))"
    "no_past (disp s) \<Longrightarrow> no_past (disp s')"
    "cleared (disp s) \<Longrightarrow> cleared (disp s')"
    "r = Inr u \<Longrightarrow> Exit \<in> set (rd_calls rd) \<Longrightarrow> stopped (disp s')"
proof -
  let ?s1 = "s\<lparr>waited := waited s + min ms (next_timeout (disp s))\<rparr>"
  obtain r1 p where p: "loop_once (rd_events rd) ev hs (poll s) = (r1, p)" by fastforce
  obtain r2 d where d: "do_calls (rd_calls rd) (disp s) = (r2, d)" by fastforce
  obtain r3 d' where d': "handle_timeout (rd_now rd) (rd_now' rd) d = (r3, d')" by fastforce
  have e: "(r, s') = (case r1 of Inl e \<Rightarrow> (Inl e, ?s1\<lparr>poll := p\<rparr>) | Inr _ \<Rightarrow>
      (case r2 of Inl e \<Rightarrow> (Inl e, ?s1\<lparr>poll := p, disp := d\<rparr>) | Inr _ \<Rightarrow> (r3, ?s1\<lparr>poll := p, disp := d'\<rparr>)))"
    using assms p d d' by (auto simp: d_loop_once_def run_simps on_poll_def on_disp_def seqE_def bindE_def split: sum.splits)
  show "waited s' = waited s + min ms (next_timeout (disp s))" using e by (auto split: sum.splits)
  show "no_past (disp s')" if "no_past (disp s)"
    using e that keepsE_step [OF do_calls_keeps(3) d] keepsE_step [OF timeout_keeps(2) d'] by (auto split: sum.splits)
  show "cleared (disp s')" if "cleared (disp s)"
    using e that keepsE_step [OF do_calls_keeps(2) d] keepsE_step [OF timeout_cleared d'] by (auto split: sum.splits)
  show "stopped (disp s')" if "r = Inr u" "Exit \<in> set (rd_calls rd)"
    using e that exit_stops [of "rd_calls rd" "disp s"] d keepsE_step [OF timeout_keeps(1) d'] by (auto split: sum.splits)
qed

lemma d_loop_last:
  assumes "no_past (disp s)" "\<not> d_working (disp s)"
  shows "\<exists>r s'. d_loop ev hs env i s = Some (r, s') \<and> waited s' = waited s \<and> cleared (disp s')"
proof -
  let ?s = "s\<lparr>disp := clear_timers (disp s)\<rparr>"
  obtain r s' where r: "d_loop_once ev hs 0 (env i) ?s = (r, s')" by fastforce
  have "cleared (disp ?s)" using assms(2) by (simp add: cleared_def clear_timers_def)
  moreover have "min 0 (next_timeout (disp ?s)) = 0" using assms(1) by (simp add: no_past_def clear_timers_def)
  ultimately show ?thesis using assms(2) loop_once_run(1,3) [OF r] r by (subst d_loop.simps) simp
qed

lemma d_loop_stops:
  assumes "Exit \<in> set (rd_calls (env k))" "i \<le> k" "no_past (disp s)"
  shows "\<exists>r s'. d_loop ev hs env i s = Some (r, s') \<and> waited s \<le> waited s' \<and>
    waited s' \<le> waited s + DEFAULT_TIMEOUTS * (int (k - i) + 1) \<and> (r = Inr () \<longrightarrow> cleared (disp s'))"
  using assms(2,3)
proof (induction "k - i" arbitrary: i s rule: less_induct)
  case less
  show ?case
  proof (cases "d_working (disp s)")
    case False
    from d_loop_last [OF less.prems(2) this, of ev hs env i] show ?thesis by (fastforce simp: DEFAULT_TIMEOUTS_def)
  next
    case True
    obtain r s1 where r: "d_loop_once ev hs DEFAULT_TIMEOUTS (env i) s = (r, s1)" by fastforce
    have w: "waited s \<le> waited s1" "waited s1 \<le> waited s + DEFAULT_TIMEOUTS"
      using loop_once_run(1) [OF r] less.prems(2) by (auto simp: no_past_def DEFAULT_TIMEOUTS_def)
    note np = loop_once_run(2) [OF r less.prems(2)]
    show ?thesis
    proof (cases r)
      case (Inl e)
      then show ?thesis using True w r by (subst d_loop.simps) (auto simp: DEFAULT_TIMEOUTS_def)
    next
      case (Inr u)
      have unf: "d_loop ev hs env i s = d_loop ev hs env (Suc i) s1" using True r Inr by (subst d_loop.simps) simp
      show ?thesis
      proof (cases "i = k")
        case True
        then have "\<not> d_working (disp s1)" using loop_once_run(4) [OF r Inr] assms(1) by (simp add: stopped_def)
        from d_loop_last [OF np this, of ev hs env "Suc i"] w show ?thesis unfolding unf by (fastforce simp: DEFAULT_TIMEOUTS_def)
      next
        case False
        then have "int (k - i) = int (k - Suc i) + 1" "k - Suc i < k - i" "Suc i \<le> k" using less.prems(1) by auto
        from less.hyps [OF this(2,3) np] this(1) w show ?thesis unfolding unf by (fastforce simp: algebra_simps)
      qed
    qed
  qed
qed

section \<open>The properties\<close>


definition round_demo :: "nat dcall list \<Rightarrow> nat round" where
  "round_demo cs = \<lparr>rd_events = [], rd_calls = cs, rd_now = 5, rd_now' = 6\<rparr>"

definition round_env :: "nat \<Rightarrow> nat round" where
  "round_env i = (if i = 0 then round_demo [Run_at 20 7 0 5, Run_at 30 8 10 5] else if i = 2 then round_demo [Exit] else round_demo [])"

definition reactor_demo :: "nat reactor" where
  "reactor_demo = \<lparr>disp = mk_dispatcher 2, poll = \<lparr>last_active = -1, channels = {}, events = [], kq = Map.empty, chans = \<lambda>_. None, trace = []\<rparr>, waited = 0\<rparr>"


end
