(* ===== verification/Startup.thy ===== *)
theory Startup
  imports Server_Main Servers Raft_Storage Reactor
begin

text \<open>
  The constructor and destructor of \<^verbatim>\<open>network/dispatcher.cc\<close>, the constructors of \<^verbatim>\<open>consensus/raft/raft_server.cc\<close> and
  \<^verbatim>\<open>network/rpc/rpc_server.cc\<close>, and \<open>start_server\<close> and \<open>start_client\<close> of \<^verbatim>\<open>main.cc\<close>: how the parts are put together.
  The answers of the kernel, the terminal and uninitialised memory are arguments.
\<close>

section \<open>The dispatcher\<close>

text \<open>The clock, given the nanoseconds since the epoch.\<close>

datatype timeunit = T_unit | T_milli | T_micro | T_nano

definition get_current_time :: "timeunit \<Rightarrow> nat \<Rightarrow> int" where
  "get_current_time u ns = int (case u of T_unit \<Rightarrow> ns div 10 ^ 9 | T_milli \<Rightarrow> ns div 10 ^ 6 | T_micro \<Rightarrow> ns div 10 ^ 3 | T_nano \<Rightarrow> ns)"

text \<open>\<open>last_active_\<close> and \<open>events_\<close> of a poller are not initialised.\<close>

definition new_poller :: "int \<Rightarrow> pevent list \<Rightarrow> poller" where
  "new_poller active evs = \<lparr>last_active = active, channels = {}, events = evs, kq = Map.empty, chans = \<lambda>_. None, trace = []\<rparr>"

text \<open>The channel of the reading end \<open>wfd\<close> of the wake-up pipe is object 0.\<close>

definition dispatcher_new :: "flags \<Rightarrow> 16 word \<Rightarrow> poller \<Rightarrow> int \<Rightarrow> nat \<Rightarrow> unit res \<times> 'a reactor" where
  "dispatcher_new ev raw p wfd threads =
     (case enable_read ev 0 True (p\<lparr>chans := (chans p)(0 \<mapsto> mk_channel raw wfd)\<rparr>) of
        (r, p') \<Rightarrow> (r, \<lparr>reactor.disp = mk_dispatcher threads, poll = p', waited = 0\<rparr>))"

text \<open>The read callback of that channel takes one byte; the result says whether its assertion holds.\<close>

definition wake_up_read :: "('a, bool) Dispatcher.disp" where
  "wake_up_read = bindE (getE wake_up) (\<lambda>n. if n = 0 then retE False else seqE (modE (\<lambda>d. d\<lparr>wake_up := n - 1\<rparr>)) (retE True))"

text \<open>The destructor, up to the joining of the workers.\<close>

definition dispatcher_destroy :: "'a reactor \<Rightarrow> (unit res \<times> 'a reactor) option" where
  "dispatcher_destroy s = (case kq_destroy (poll s) of
      None \<Rightarrow> None
    | Some (r, p) \<Rightarrow> Some (seqE (liftE (\<lambda>_. r)) (seqE (on_poll (delete_channel 0))
        (Reactor.on_disp (modE (\<lambda>d. d\<lparr>pool := stop_pool (pool d)\<rparr>)))) (s\<lparr>poll := p\<rparr>)))"

section \<open>The RPC server of a Raft server\<close>

definition rpc_start :: "flags \<Rightarrow> 16 word \<Rightarrow> int \<Rightarrow> (32 word \<Rightarrow> 16 word \<Rightarrow> int) \<Rightarrow> int \<Rightarrow> unit sv" where
  "rpc_start ev raw fd bind listen =
     seqE (sv_start ev raw fd bind listen) (
     bindE (getE listener) (\<lambda>l. bindE (member l) (\<lambda>c. sv_poller (enable_read ev c True))))"

definition rpc_shutdown :: "unit sv" where
  "rpc_shutdown = sv_shutdown"

section \<open>The server\<close>

type_synonym command_callback =
  "bool \<Rightarrow> (string \<Rightarrow> parser_result \<Rightarrow> int \<times> parser_result) \<Rightarrow> parser_result \<Rightarrow> (nat \<Rightarrow> string) \<Rightarrow> wres list \<Rightarrow> unit nd"

record program =
  pr_reactor :: "raft_task reactor"
  pr_fresh :: nat
  pr_db :: "alphadb option"
  pr_cmd :: server
  pr_rpc :: server
  pr_services :: "32 word \<rightharpoonup> unit cd"
  pr_node :: raft_node
  pr_apply :: "(log_entry \<Rightarrow> bool) option"
  pr_callback :: "command_callback option"

type_synonym 'a pg = "(program, 'a) eff"

text \<open>Both servers use the poller of the dispatcher, and the Raft server its timers.\<close>

definition on_server :: "(program \<Rightarrow> server) \<Rightarrow> (server \<Rightarrow> program \<Rightarrow> program) \<Rightarrow> 'a sv \<Rightarrow> 'a pg" where
  "on_server get put m p = (case m ((get p)\<lparr>sv_poll := poll (pr_reactor p), sv_fresh := pr_fresh p\<rparr>) of
     (r, s) \<Rightarrow> (r, put s (p\<lparr>pr_reactor := (pr_reactor p)\<lparr>poll := sv_poll s\<rparr>, pr_fresh := sv_fresh s\<rparr>)))"

definition on_cmd :: "'a sv \<Rightarrow> 'a pg" where
  "on_cmd = on_server pr_cmd (\<lambda>s p. p\<lparr>pr_cmd := s\<rparr>)"

definition on_rpc :: "'a sv \<Rightarrow> 'a pg" where
  "on_rpc = on_server pr_rpc (\<lambda>s p. p\<lparr>pr_rpc := s\<rparr>)"

definition on_node :: "'a rn \<Rightarrow> 'a pg" where
  "on_node m p = (case m ((pr_node p)\<lparr>rn_raft := (rn_raft (pr_node p))\<lparr>raft.disp := reactor.disp (pr_reactor p)\<rparr>\<rparr>) of
     (r, n) \<Rightarrow> (r, p\<lparr>pr_node := n, pr_reactor := (pr_reactor p)\<lparr>reactor.disp := raft.disp (rn_raft n)\<rparr>\<rparr>))"

text \<open>What the kernel answers while a server starts, and what is in the memory of the process.\<close>

record kernel =
  k_wake_fd :: int
  k_cmd_fd :: int
  k_rpc_fd :: int
  k_bind :: "32 word \<Rightarrow> 16 word \<Rightarrow> int"
  k_cmd_listen :: int
  k_rpc_listen :: int
  k_files :: posix
  k_dirs :: "string list set"
  k_cwd :: "string list"

record memory =
  m_events :: "16 word"
  m_poller :: poller
  m_slots :: "nat \<Rightarrow> buffer_entry"
  m_heap :: mem
  m_port :: "16 word"
  m_id :: int
  m_raft :: raft

definition new_dispatcher :: "flags \<Rightarrow> kernel \<Rightarrow> memory \<Rightarrow> nat \<Rightarrow> unit pg" where
  "new_dispatcher ev k mm threads p = (case dispatcher_new ev (m_events mm) (m_poller mm) (k_wake_fd k) threads of
     (r, d) \<Rightarrow> (r, p\<lparr>pr_reactor := d, pr_fresh := 1\<rparr>))"

definition new_alphadb :: "kernel \<Rightarrow> memory \<Rightarrow> unit pg" where
  "new_alphadb k mm = bindE (liftE (\<lambda>_. mk_alphadb (m_slots mm) (k_files k) (m_heap mm) (k_dirs k) (k_cwd k)))
     (\<lambda>d. modE (\<lambda>p. p\<lparr>pr_db := Some d\<rparr>))"

definition service_name :: "string \<Rightarrow> byte list" where
  "service_name s = map (\<lambda>c. of_char c) s"

definition register_service :: "string \<Rightarrow> unit cd \<Rightarrow> unit pg" where
  "register_service name serv = bindE (getE pr_services) (\<lambda>ss.
     bindE (liftE (\<lambda>_. register (service_name name) serv ss)) (\<lambda>ss'. modE (\<lambda>p. p\<lparr>pr_services := ss'\<rparr>)))"

text \<open>The constructor of \<open>raft_server\<close>, with the two services it registers.\<close>

definition new_raft_server :: "flags \<Rightarrow> kernel \<Rightarrow> memory \<Rightarrow> unit cd \<Rightarrow> unit cd \<Rightarrow> unit pg" where
  "new_raft_server ev k mm vote_serv append_serv =
     seqE (modE (\<lambda>p. p\<lparr>pr_rpc := mk_server (poll (pr_reactor p)) (pr_fresh p) (m_port mm), pr_services := Map.empty,
       pr_node := (pr_node p)\<lparr>rn_raft := mk_raft_server (m_raft mm) (reactor.disp (pr_reactor p)) (m_id mm)\<rparr>, pr_apply := None\<rparr>)) (
     seqE (register_service ''raft::request_vote'' vote_serv) (
     seqE (register_service ''raft::append_entries'' append_serv)
          (on_rpc (rpc_start ev (m_events mm) (k_rpc_fd k) (k_bind k) (k_rpc_listen k)))))"

definition set_apply_func :: "(log_entry \<Rightarrow> bool) \<Rightarrow> unit pg" where
  "set_apply_func f = modE (\<lambda>p. p\<lparr>pr_apply := Some f\<rparr>)"

definition set_callback :: "command_callback \<Rightarrow> unit pg" where
  "set_callback cb = modE (\<lambda>p. p\<lparr>pr_callback := Some cb\<rparr>)"

text \<open>The destructors of the Raft server, of the RPC server and of the server run in this order.\<close>

definition rpc_destroy :: "unit pg" where
  "rpc_destroy = seqE (modE (\<lambda>p. p\<lparr>pr_services := Map.empty\<rparr>)) (on_rpc sv_destroy)"

definition raft_destroy :: "unit pg" where
  "raft_destroy = seqE (on_node (on_raft (modE (\<lambda>s. s\<lparr>peers := []\<rparr>)))) rpc_destroy"

text \<open>\<open>start_server\<close>: \<open>port\<close> and \<open>id\<close> are used uninitialised, and the connections of commands get their callback last.\<close>

definition server_setup :: "flags \<Rightarrow> kernel \<Rightarrow> memory \<Rightarrow> unit cd \<Rightarrow> unit cd \<Rightarrow> (istream \<Rightarrow> log_entry \<times> istream) \<Rightarrow> env \<Rightarrow> unit pg" where
  "server_setup ev k mm vote_serv append_serv read_log en =
     seqE (new_dispatcher ev k mm 4) (
     seqE (new_alphadb k mm) (
     seqE (modE (\<lambda>p. p\<lparr>pr_cmd := mk_server (poll (pr_reactor p)) (pr_fresh p) 80\<rparr>)) (
     seqE (on_cmd (sv_start ev (m_events mm) (k_cmd_fd k) (k_bind k) (k_cmd_listen k))) (
     seqE (new_raft_server ev k mm vote_serv append_serv) (
     seqE (on_node (rs_start read_log en)) (
     seqE (set_apply_func (\<lambda>_. True))
          (set_callback (\<lambda>init_fails yyparse raw strs as. on_command init_fails yyparse raw strs (\<lambda>_. True) as))))))))"

definition start_server :: "flags \<Rightarrow> kernel \<Rightarrow> memory \<Rightarrow> unit cd \<Rightarrow> unit cd \<Rightarrow> (istream \<Rightarrow> log_entry \<times> istream) \<Rightarrow> env \<Rightarrow>
    (nat \<Rightarrow> bool \<Rightarrow> unit pl) \<Rightarrow> (nat \<Rightarrow> raft_task round) \<Rightarrow> program \<Rightarrow> (unit res \<times> program) option" where
  "start_server ev k mm vote_serv append_serv read_log en hs rounds p =
     (case server_setup ev k mm vote_serv append_serv read_log en p of
        (Inl e, p') \<Rightarrow> Some (Inl e, p')
      | (Inr _, p') \<Rightarrow> map_option (\<lambda>(r, d). (r, p'\<lparr>pr_reactor := d\<rparr>)) (d_loop ev hs rounds 0 (pr_reactor p')))"

section \<open>The client\<close>

definition SERVERS :: "(string \<times> int) list" where
  "SERVERS = [(''localhost'', 8081), (''localhost'', 8082), (''localhost'', 8083)]"

text \<open>The parent process connects to the first server and listens to the pipe, whose reading end is \<open>pfd\<close>.\<close>

definition client_setup :: "flags \<Rightarrow> 16 word \<Rightarrow> int \<Rightarrow> (32 word \<Rightarrow> int) \<Rightarrow> int \<Rightarrow> (srv_conn \<times> nat) sv" where
  "client_setup ev raw fd connect pfd =
     bindE (conn_to ev raw fd connect (fst (SERVERS ! 0))) (\<lambda>c.
     bindE (new_channel raw pfd) (\<lambda>chan.
     seqE (sv_poller (enable_read ev chan True)) (retE (c, chan))))"

definition client_parent :: "flags \<Rightarrow> 16 word \<Rightarrow> poller \<Rightarrow> int \<Rightarrow> int \<Rightarrow> (32 word \<Rightarrow> int) \<Rightarrow> int \<Rightarrow>
    (nat \<Rightarrow> bool \<Rightarrow> unit pl) \<Rightarrow> (nat \<Rightarrow> 'a round) \<Rightarrow> (unit res \<times> 'a reactor) option" where
  "client_parent ev raw p wfd fd connect pfd hs rounds =
     (case dispatcher_new ev raw p wfd 4 of
        (Inl e, d) \<Rightarrow> Some (Inl e, d)
      | (Inr _, d) \<Rightarrow> (case client_setup ev raw fd connect pfd (mk_server (poll d) 1 0) of
            (Inl e, s) \<Rightarrow> Some (Inl e, d\<lparr>poll := sv_poll s\<rparr>)
          | (Inr _, s) \<Rightarrow> d_loop ev hs rounds 0 (d\<lparr>poll := sv_poll s\<rparr>)))"

text \<open>The child reads instructions from the terminal.  Its copy of \<open>c\<close> has never been set: \<open>ch_conn\<close> is \<open>None\<close>.\<close>

record child =
  ch_conn :: "conn option"
  ch_mem :: mem
  ch_out :: string

datatype child_end = Goodbye | Exit_failure

definition say :: "string \<Rightarrow> (child, unit) eff" where
  "say msg = modE (\<lambda>s. s\<lparr>ch_out := ch_out s @ msg\<rparr>)"

definition newline :: string where "newline = [CHR 0x0A]"

definition in_mem :: "(mem, 'a) eff \<Rightarrow> (child, 'a) eff" where
  "in_mem m s = (case m (ch_mem s) of (r, x) \<Rightarrow> (r, s\<lparr>ch_mem := x\<rparr>))"

text \<open>\<open>c->send(instruction.c_str())\<close>.\<close>

definition child_send :: "wres list \<Rightarrow> string \<Rightarrow> (child, unit) eff" where
  "child_send as msg = bindE (getE ch_conn) (\<lambda>c. case c of
      None \<Rightarrow> throwE Undefined_behaviour
    | Some x \<Rightarrow> (\<lambda>s. case send_bytes as (service_name (c_string msg)) x of (r, y) \<Rightarrow> (r, s\<lparr>ch_conn := Some y\<rparr>)))"

text \<open>One round of the loop, given the words left on the terminal, the answer \<open>wr\<close> to the write of the empty message to the pipe
  and the last instruction, which stays when the input is exhausted.  The result is how the process ends, or the words and the
  instruction of the next round.\<close>

definition child_round :: "bool \<Rightarrow> (string \<Rightarrow> parser_result \<Rightarrow> int \<times> parser_result) \<Rightarrow> parser_result \<Rightarrow> int \<Rightarrow> wres list \<Rightarrow>
    string list \<Rightarrow> string \<Rightarrow> (child, child_end + string list \<times> string) eff" where
  "child_round init_fails yyparse raw wr as words old =
     seqE (say ''>'') (
     case (case words of [] \<Rightarrow> (old, []) | w # ws \<Rightarrow> (w, ws)) of (instruction, rest) \<Rightarrow>
     if instruction = ''quit'' then retE (Inl Goodbye)
     else case sql_parse init_fails yyparse instruction (mk_parser_result raw) of (parsed, result) \<Rightarrow>
       seqE (whenE (\<not> parsed) (say (''INVALID INPUT, please try again.'' @ newline))) (
       if wr < 0 then retE (Inl Exit_failure)
       else seqE (child_send as instruction) (
            seqE (bindE (in_mem (reset result)) (\<lambda>_. retE ())) (
            retE (Inr (rest, instruction))))))"

partial_function (option) child_loop :: "bool \<Rightarrow> (string \<Rightarrow> parser_result \<Rightarrow> int \<times> parser_result) \<Rightarrow> parser_result \<Rightarrow> (nat \<Rightarrow> int) \<Rightarrow>
    (nat \<Rightarrow> wres list) \<Rightarrow> nat \<Rightarrow> string list \<Rightarrow> string \<Rightarrow> child \<Rightarrow> (child_end res \<times> child) option" where
  "child_loop init_fails yyparse raw wr as i words old s =
     (case child_round init_fails yyparse raw (wr i) (as i) words old s of
        (r, s') \<Rightarrow> (case r of Inl e \<Rightarrow> Some (Inl e, s')
          | Inr x \<Rightarrow> (case x of Inl ce \<Rightarrow> Some (Inr ce, s')
             | Inr y \<Rightarrow> child_loop init_fails yyparse raw wr as (Suc i) (fst y) (snd y) s')))"

definition client_child :: "bool \<Rightarrow> (string \<Rightarrow> parser_result \<Rightarrow> int \<times> parser_result) \<Rightarrow> parser_result \<Rightarrow> (nat \<Rightarrow> int) \<Rightarrow>
    (nat \<Rightarrow> wres list) \<Rightarrow> mem \<Rightarrow> string list \<Rightarrow> (child_end res \<times> child) option" where
  "client_child init_fails yyparse raw wr as m words =
     (case child_loop init_fails yyparse raw wr as 0 words '''' \<lparr>ch_conn = None, ch_mem = m, ch_out = ''Hello world!'' @ newline\<rparr> of
        None \<Rightarrow> None
      | Some (r, s) \<Rightarrow> Some (r, if r = Inr Goodbye then s\<lparr>ch_out := ch_out s @ ''See you!'' @ newline\<rparr> else s))"

text \<open>A failed \<open>fork\<close> takes the branch of the child.\<close>

datatype 'a client_end = Pipe_error | Parent_end "(unit res \<times> 'a reactor) option" | Child_end "(child_end res \<times> child) option"

record client_world =
  w_pipe :: int
  w_pid :: int
  w_events :: "16 word"
  w_poller :: poller
  w_wake_fd :: int
  w_fd :: int
  w_connect :: "32 word \<Rightarrow> int"
  w_pipe_fd :: int
  w_init_fails :: bool
  w_yyparse :: "string \<Rightarrow> parser_result \<Rightarrow> int \<times> parser_result"
  w_result :: parser_result
  w_write :: "nat \<Rightarrow> int"
  w_send :: "nat \<Rightarrow> wres list"
  w_mem :: mem
  w_words :: "string list"

definition start_client :: "flags \<Rightarrow> client_world \<Rightarrow> (nat \<Rightarrow> bool \<Rightarrow> unit pl) \<Rightarrow> (nat \<Rightarrow> 'a round) \<Rightarrow> 'a client_end" where
  "start_client ev w hs rounds =
     (if w_pipe w < 0 then Pipe_error
      else if w_pid w > 0 then Parent_end (client_parent ev (w_events w) (w_poller w) (w_wake_fd w) (w_fd w) (w_connect w) (w_pipe_fd w) hs rounds)
      else Child_end (client_child (w_init_fails w) (w_yyparse w) (w_result w) (w_write w) (w_send w) (w_mem w) (w_words w)))"

definition intro :: string where "intro = ''''"
definition usage :: string where "usage = ''''"

section \<open>Facts\<close>

lemma dispatcher_new_ok:
  "\<exists>p'. dispatcher_new ev raw p wfd threads = (Inr (), \<lparr>reactor.disp = mk_dispatcher threads, poll = p', waited = 0\<rparr>) \<and> channels p' = channels p
     \<and> chans p' 0 \<noteq> None"
  using enable_run(1) [of "p\<lparr>chans := (chans p)(0 \<mapsto> mk_channel raw wfd)\<rparr>" 0 "mk_channel raw wfd" ev]
  by (auto simp: dispatcher_new_def)

text \<open>Nothing enters a channel into the set of the poller, so the destructor ends: it deletes the channel of the pipe and
  stops the thread pool.\<close>

lemma dispatcher_destroy_ends:
  assumes "dispatcher_new ev raw (new_poller a evs) wfd threads = (r, d)"
  shows "\<exists>d'. dispatcher_destroy d = Some (Inr (), d') \<and> pool (reactor.disp d') = stop_pool (mk_thread_pool threads) \<and> chans (poll d') 0 = None"
proof -
  obtain p' x where p': "d = \<lparr>reactor.disp = mk_dispatcher threads, poll = p', waited = 0\<rparr>" "channels p' = {}" "chans p' 0 = Some x"
    using dispatcher_new_ok [of ev raw "new_poller a evs" wfd threads, where 'a = 'a] assms by (auto simp: new_poller_def)
  then show ?thesis
    by (simp add: dispatcher_destroy_def kq_destroy_def drain.simps delete_channel_def chan_at_def on_poll_def Reactor.on_disp_def mk_dispatcher_def eff_defs)
qed

text \<open>The clock never runs backwards in any unit, and the units agree.\<close>

lemma clock_mono: "a \<le> b \<Longrightarrow> get_current_time u a \<le> get_current_time u b"
  by (cases u) (auto simp: get_current_time_def div_le_mono)

lemma clock_units: "get_current_time T_unit ns = get_current_time T_milli ns div 1000" "get_current_time T_milli ns = get_current_time T_micro ns div 1000"
  by (simp_all add: get_current_time_def zdiv_int flip: div_mult2_eq)

text \<open>A Raft server whose sockets were shut down cannot be deleted: its listener is deleted a second time.\<close>

lemma raft_destroy_undefined:
  assumes "on_rpc rpc_shutdown p = (Inr (), p')"
  shows "fst (raft_destroy p') = Inl Undefined_behaviour"
proof -
  obtain s s' where s: "sv_shutdown s = (Inr (), s')" "pr_rpc p' = s'" "poll (pr_reactor p') = sv_poll s'" "pr_fresh p' = sv_fresh s'"
    using assms by (auto simp: on_rpc_def on_server_def rpc_shutdown_def split: prod.splits)
  then have "s'\<lparr>sv_poll := sv_poll s', sv_fresh := sv_fresh s'\<rparr> = s'" by simp
  then show ?thesis using shutdown_twice [OF s(1)] s(2-4)
    by (simp add: raft_destroy_def rpc_destroy_def on_node_def on_raft_def on_rpc_def on_server_def eff_defs split: prod.splits) (metis fst_conv)
qed

lemma sv_start_errors: "fst (sv_start ev raw fd bind listen s) \<in> {Inl Std_exception, Inr ()}"
proof -
  have "fst (enable_read ev c True (p\<lparr>chans := (chans p)(c \<mapsto> x)\<rparr>)) = Inr ()" for c p x
    by (simp add: enable_run(1) [of _ c x])
  then show ?thesis
    by (simp add: sv_start_def new_channel_def sv_poller_def eff_defs split: prod.splits) (metis fst_conv)
qed

lemma mk_alphadb_errors: "mk_alphadb junk px m D d = Inl e \<Longrightarrow> e = Std_exception"
  by (auto simp: mk_alphadb_def mk_io_manager_def mk_bufm_def mk_hash_table_def HASH_TABLE_SIZE_def POOL_SIZE_def BUFFER_SIZE_def bindR_def
      chdir_base Let_def split: if_splits sum.splits)

text \<open>Hashing the name of the first service does not end.\<close>

lemma register_service_hangs: "register_service (CHR ''r'' # name) serv p = (Inl Diverges, p)"
proof -
  have "register (114 # s) serv ss = Inl Diverges" for s ss by (rule register_diverges) simp
  then show ?thesis by (simp add: register_service_def service_name_def eff_defs)
qed

lemma raft_server_never_made: "\<exists>p'. new_raft_server ev k mm vs aps p = (Inl Diverges, p') \<and> pr_callback p' = pr_callback p"
  by (simp add: new_raft_server_def seqE_def bindE_def modE_def register_service_hangs)

definition setup_fails :: "unit pg \<Rightarrow> bool" where
  "setup_fails m \<longleftrightarrow> (\<forall>p. \<exists>e p'. m p = (Inl e, p') \<and> e \<in> {Std_exception, Diverges} \<and> pr_callback p' = pr_callback p)"

lemma setup_fails_seq:
  assumes "\<And>p r p'. m p = (r, p') \<Longrightarrow> pr_callback p' = pr_callback p \<and> r \<in> {Inl Std_exception, Inl Diverges, Inr ()}" "setup_fails n"
  shows "setup_fails (seqE m n)"
  unfolding setup_fails_def
proof
  fix p
  obtain r p1 where r: "m p = (r, p1)" by fastforce
  from assms(1) [OF r] assms(2) [unfolded setup_fails_def, rule_format, of p1] r
  show "\<exists>e p'. seqE m n p = (Inl e, p') \<and> e \<in> {Std_exception, Diverges} \<and> pr_callback p' = pr_callback p"
    by (auto simp: seqE_def bindE_def)
qed

lemma raft_part_fails: "setup_fails (seqE (new_raft_server ev k mm vs aps) m)"
  unfolding setup_fails_def
proof
  fix p
  obtain p' where "new_raft_server ev k mm vs aps p = (Inl Diverges, p')" "pr_callback p' = pr_callback p"
    using raft_server_never_made by blast
  then show "\<exists>e p'. seqE (new_raft_server ev k mm vs aps) m p = (Inl e, p') \<and> e \<in> {Std_exception, Diverges} \<and> pr_callback p' = pr_callback p"
    by (simp add: seqE_def bindE_def)
qed

lemma setup_steps:
  "new_dispatcher ev k mm n p = (r, p') \<Longrightarrow> pr_callback p' = pr_callback p \<and> r \<in> {Inl Std_exception, Inl Diverges, Inr ()}"
  "new_alphadb k mm p = (r, p') \<Longrightarrow> pr_callback p' = pr_callback p \<and> r \<in> {Inl Std_exception, Inl Diverges, Inr ()}"
  "modE (\<lambda>p. p\<lparr>pr_cmd := f p\<rparr>) p = (r, p') \<Longrightarrow> pr_callback p' = pr_callback p \<and> r \<in> {Inl Std_exception, Inl Diverges, Inr ()}"
  "on_cmd (sv_start ev raw fd bind listen) p = (r, p') \<Longrightarrow> pr_callback p' = pr_callback p \<and> r \<in> {Inl Std_exception, Inl Diverges, Inr ()}"
  using dispatcher_new_ok [of ev "m_events mm" "m_poller mm" "k_wake_fd k" n, where 'a = raft_task] mk_alphadb_errors
    sv_start_errors [of ev raw fd bind listen "(pr_cmd p)\<lparr>sv_poll := poll (pr_reactor p), sv_fresh := pr_fresh p\<rparr>"]
  by (auto simp: new_dispatcher_def new_alphadb_def on_cmd_def on_server_def eff_defs split: prod.splits sum.splits)

section \<open>The properties\<close>

text \<open>C36: the server never serves.  Whatever the kernel answers, whatever is on disk and in memory and whatever would happen in the
  loop of the reactor, \<open>start_server\<close> does not get there: it ends with an uncaught exception, because the directory \<open>~/\<close> does not
  exist or the port cannot be bound, or it hangs for ever in the registration of the first RPC service; the callback for commands is
  never set.\<close>

theorem server_never_serves:
  "\<exists>e p'. start_server ev k mm vote_serv append_serv read_log en hs rounds p = Some (Inl e, p') \<and> e \<in> {Std_exception, Diverges}
     \<and> pr_callback p' = pr_callback p"
proof -
  have "setup_fails (server_setup ev k mm vote_serv append_serv read_log en)"
    unfolding server_setup_def by (intro setup_fails_seq raft_part_fails) (erule setup_steps)+
  then show ?thesis unfolding setup_fails_def start_server_def by (metis (no_types, lifting) old.prod.case sum.case(1))
qed

text \<open>C37: the client process that reads the terminal handles no instruction.  Whatever is typed, it ends in the first round of its
  loop: with a farewell when the first word is \<open>quit\<close>, with a failure when the pipe cannot be written, and otherwise, the end of
  the input included, with undefined behaviour, because its pointer to the connection was set in the other process only.\<close>

theorem client_handles_no_instruction:
  "\<exists>s. client_child init_fails yyparse raw wr as m words =
     Some (if words \<noteq> [] \<and> hd words = ''quit'' then Inr Goodbye else if wr 0 < 0 then Inr Exit_failure else Inl Undefined_behaviour, s)"
  unfolding client_child_def
  by (subst child_loop.simps)
    (auto simp: child_round_def child_send_def say_def eff_defs split: list.splits prod.splits)

text \<open>The other process ends with an exception when the kernel does not connect to the broadcast address, which it is given
  because \<open>localhost\<close> is no numeric address.\<close>

lemma client_cannot_connect:
  assumes "connect INADDR_NONE < 0"
  shows "\<exists>d. client_parent ev raw p wfd fd connect pfd hs rounds = Some (Inl Std_exception, d)"
proof -
  have "inet_addr ''localhost'' = INADDR_NONE" using localhost_is_no_address by (simp add: SERVER_HOST_def)
  then have "\<exists>s'. client_setup ev raw fd connect pfd s = (Inl Std_exception, s')" for s
    using assms by (simp add: client_setup_def conn_to_def SERVERS_def eff_defs)
  then show ?thesis using dispatcher_new_ok [of ev raw p wfd 4, where 'a = 'a]
    by (auto simp: client_parent_def split: prod.splits sum.splits) (metis Inl_inject Inr_not_Inl prod.inject sum.distinct(1))+
qed

end
