(* ===== verification/Spec2Isabelle.thy ===== *)
theory Spec2Isabelle
  imports Paged_Store Lock_Manager Scan_Iterator Epoll Debug_Output Startup
begin

text \<open>
  A verification of alphadb, a small relational database server in C++.

  \<^bold>\<open>The program.\<close>  Tables and B+ tree indexes are stored in paged files.  \<^verbatim>\<open>src/io\<close> holds the storage layer: a
  hash table that maps pages to slots (\<^verbatim>\<open>hash_table.cc\<close>), a buffer pool with least-recently-used replacement
  (\<^verbatim>\<open>buffer_manager.cc\<close>), paged files with a free list on top of the pool (\<^verbatim>\<open>file_handle.cc\<close>), and creation,
  opening, closing and removal of files (\<^verbatim>\<open>io_manager.cc\<close>).  \<^verbatim>\<open>src/table\<close> stores rows in slotted pages,
  \<^verbatim>\<open>src/index/b+tree\<close> keeps the indexes, and both read and write pages through raw pointers into pinned slots.
  \<^verbatim>\<open>src/transaction\<close> has a lock table, a lock manager and the caches of open tables and indexes.  \<^verbatim>\<open>src/sql\<close> parses
  statements and \<^verbatim>\<open>src/db\<close> executes them on directories and files.  \<^verbatim>\<open>src/network\<close> is a reactor: a poller reports
  events of channels, the dispatcher runs their handlers and the due timers on a thread pool, connections move bytes
  between sockets and circular buffers, and RPC calls are marshalled through those buffers with variable-length integers.
  \<^verbatim>\<open>src/consensus/raft\<close> elects a leader and replicates a log over these calls, and \<^verbatim>\<open>src/main.cc\<close> ties a server or
  a client together.

  \<^bold>\<open>Modelling conventions.\<close>  Structs and classes are records, enums and tagged unions are datatypes.  An operation that
  changes state is a function of type \<open>('s, 'a) eff\<close> (\<open>Prelude\<close>): it returns a value or an \<open>exn\<close>, and the state
  reached in both cases, because C++ does not roll back.  The sources throw \<open>std::exception\<close> everywhere and name the
  intended class in a comment; the constructor of \<open>exn\<close> is that name.  Null dereference, out-of-range access and signed
  overflow are the value \<open>Undefined_behaviour\<close>, locking a held mutex is \<open>Deadlock\<close>, and both are caught by no handler.
  Memory that the code manages with pointers is an explicit heap where sharing matters (hash table, lock table, tree
  nodes, the blocks of a parser result), raw bytes of a page are \<open>page_mem\<close> in \<open>Page_Memory\<close>, and the content of
  uninitialised memory is an argument (\<open>junk\<close>, \<open>raw\<close>, \<open>t0\<close>).  Machine integers are words where they wrap or are
  shifted (hash function, variable-length integers, \<open>size_t\<close> arithmetic), and \<open>int\<close> with \<open>to_int32\<close> or a range
  check elsewhere.  The kernel, the shell, the generated lexer and parser and the other threads are arguments or
  nondeterministic choices of a step relation.

  \<^bold>\<open>Theories, in order of dependence.\<close>

  \<^item> \<open>Prelude\<close>: computations with exceptions, weakest preconditions (\<open>wpE\<close>, collection \<open>wp_simps\<close>), preservation
    of a predicate by a computation (\<open>keepsE\<close>, collection \<open>keeps_rules\<close>), bytes and little-endian integers.
  \<^item> \<open>Hash_Table\<close> (\<^verbatim>\<open>io/hash_table.{h,cc}\<close>): buckets of linked entries in a heap.  The locale \<open>page_map\<close> states
    what a client may rely on; its interpretation gives that the table is a finite map, and the destructor frees every
    entry once.
  \<^item> \<open>Posix\<close>: \<open>open\<close>, \<open>lseek\<close>, \<open>read\<close>, \<open>write\<close>, \<open>close\<close>, \<open>unlink\<close> on regular files
    with names, inodes, descriptors and a full disk.
  \<^item> \<open>Buffer_Manager\<close> (\<^verbatim>\<open>io/buffer_manager.{h,cc}\<close>): pool, doubly linked used list, free list and table as the record
    \<open>bufm\<close>; the invariant \<open>bm_good\<close>, the content \<open>view\<close> of a page wherever it is, and the contract of every
    operation.  For sequences of operations
    the pool refines a store of pages; the locale \<open>page_cache\<close> is the contract the file layer relies on.
  \<^item> \<open>Pool_Frame\<close>: what the operations on the pool leave alone besides the contents of pages (names and descriptors of
    files, the owners of free slots).
  \<^item> \<open>File_Handle\<close> (\<^verbatim>\<open>io/file_handle.{h,cc}\<close>, \<^verbatim>\<open>io/page_handle.{h,cc}\<close>): the free list threaded through the
    pages, its invariant \<open>fh_inv\<close>, and that pages are handed out, found and disposed of accordingly.
  \<^item> \<open>IO_Manager\<close> (\<^verbatim>\<open>io/io_manager.{h,cc}\<close>): what is in a file after it was created, closed and opened again;
    \<open>Reopen\<close> derives from it that a new handle satisfies \<open>fh_inv\<close> with the free list and the contents the file had.
  \<^item> \<open>Pin_Balance\<close>, \<open>Paged_Store\<close>: the pin counts across the operations of a file, and clients that interleave operations on
    several files of one pool; the specification \<open>spec_run\<close> is a family of independent page stores.
  \<^item> \<open>Schema\<close>, \<open>Row\<close> (\<^verbatim>\<open>table/rid\<close>, \<^verbatim>\<open>schema\<close>, \<^verbatim>\<open>record\<close>, \<^verbatim>\<open>row\<close>): record identifiers, columns and
    the encoding of rows.
  \<^item> \<open>Page_Memory\<close>, \<open>Index_Format\<close> (\<^verbatim>\<open>index/b+tree/comparator\<close>, \<^verbatim>\<open>index_format\<close>): keys and identifiers of an
    index page and the binary search, verified for every comparison that satisfies the locale \<open>ordered_keys\<close>, which those
    of the integral column types do.
  \<^item> \<open>B_Plus_Tree\<close>, \<open>Index_Manager\<close> (\<^verbatim>\<open>index/b+tree/node\<close>, \<^verbatim>\<open>leaf_node\<close>, \<^verbatim>\<open>internal_node\<close>,
    \<^verbatim>\<open>b_plus_tree\<close>, \<^verbatim>\<open>index_handle\<close>, \<^verbatim>\<open>index_manager\<close>): nodes as objects in a heap over the pages of the
    file, insertion with splitting, removal with merging, and the index files;
    \<open>Index_Store\<close> follows the header of an index through the whole storage layer.
  \<^item> \<open>Table_Format\<close>, \<open>Table_Manager\<close> (\<^verbatim>\<open>table/table_format\<close>, \<^verbatim>\<open>table_handle\<close>, \<^verbatim>\<open>table_manager\<close>): slotted
    pages, records of a table and the image of a schema.
  \<^item> \<open>Criterion\<close>, \<open>Scan_Iterator\<close> (\<^verbatim>\<open>io/iterator\<close>, \<^verbatim>\<open>index/b+tree/index_iterator\<close>,
    \<^verbatim>\<open>table/table_iterator\<close>): scans and what they select.
  \<^item> \<open>Lock_Manager\<close> (\<^verbatim>\<open>transaction/lock_table\<close>, \<^verbatim>\<open>lock_manager\<close>): lock entries and the requests queued on them,
    with an interleaving step relation for the threads that wait.
  \<^item> \<open>Transactions\<close> (\<^verbatim>\<open>transaction/txn_manager\<close>), \<open>Sql\<close> (\<^verbatim>\<open>sql/*\<close>), \<open>Database\<close> (\<^verbatim>\<open>db/alphadb\<close>): the caches
    of open tables and indexes (locale \<open>handle_cache\<close>), ownership of parsed statements, and the commands.
  \<^item> \<open>Varint\<close>, \<open>Ring_Buffer\<close>, \<open>Rpc_Codec\<close> (\<^verbatim>\<open>network/coding\<close>, \<^verbatim>\<open>buffer\<close>, \<^verbatim>\<open>rpc/codec\<close>,
    \<^verbatim>\<open>consensus/raft/rpc_args\<close>): integers, the circular buffer as a bounded queue (locale \<open>bounded_queue\<close>), messages.
  \<^item> \<open>Thread_Pool\<close>, \<open>Dispatcher\<close>, \<open>Reactor\<close> (\<^verbatim>\<open>network/thread_pool\<close>, \<^verbatim>\<open>dispatcher\<close>): workers as an
    interleaving step relation, timers ordered by time and number, and the loop of the reactor.
  \<^item> \<open>Poller\<close>, \<open>Epoll\<close>, \<open>Conn\<close>, \<open>Servers\<close> (\<^verbatim>\<open>network/channel\<close>, \<^verbatim>\<open>poller\<close>, \<^verbatim>\<open>conn\<close>, \<^verbatim>\<open>server\<close>,
    \<^verbatim>\<open>rpc/*\<close>): channels over kqueue and epoll (locale \<open>channel_set\<close> for their destructors), bytes through a connection, calls and replies, accepting connections.
  \<^item> \<open>Raft\<close>, \<open>Raft_Storage\<close> (\<^verbatim>\<open>consensus/raft/raft_server\<close>): the handlers of the RPCs with the mutex and the
    timers, and the state on disk.
  \<^item> \<open>Server_Main\<close>, \<open>Startup\<close> (\<^verbatim>\<open>main.cc\<close>, \<^verbatim>\<open>db/log\<close>, the constructors and destructors of the network and consensus
    layers): the callbacks of server and client, the message log, and how the two programs are put together and started.
  \<^item> \<open>Debug_Output\<close> (the stream operators of all layers and \<^verbatim>\<open>io/exceptions\<close>): the text written for a state.

  \<^bold>\<open>What the theorems show.\<close>  Storage: the hash table is a finite map; for every client that keeps the contract of pins,
  the buffer pool is a store of pages whose clean pages equal the disk; a file hands out and takes back pages as a stack
  and refuses free pages; closing and opening a file loses nothing; clients that interleave operations on any number
  of files of one pool see independent page stores, and a pool whose clients let go of their pages never runs out of slots; an index that is created can be opened with the
  header it was given.  Indexes: binary search is correct, a single ordered leaf is searched correctly, the number of entries of a page is the largest
  that fits.  Network: variable-length integers and timers round-trip, the circular buffer is a bounded queue, what is sent
  is a prefix of what was written, replies match calls, closed channels are not called, the reactor's loop ends after
  \<open>exit\<close>.  Concurrency: no task of the pool is lost, shutdown ends, locks exclude each other and are granted in order.
  Raft: votes are given to one candidate.  Several theorems state what the code does where it does not do what it means
  to: roles and terms of Raft servers never change, no database is opened, scans return nothing, commands are never
  answered, the server never reaches its loop and the client handles no instruction, accepted connections cannot be closed, persistent state of an empty log cannot be read back.

  \<^bold>\<open>Fuel and partial functions.\<close>  Structural recursion is used wherever it is possible.  Walks over linked structures
  (\<open>walk\<close> and \<open>free_chain\<close> in \<open>Hash_Table\<close>, \<open>print_chain\<close> in \<open>Debug_Output\<close>, \<open>lt_walk\<close> and \<open>lt_free_chain\<close> in \<open>Lock_Manager\<close>) take a number of heap
  cells as fuel that an acyclic chain cannot exceed; the invariant of the hash table excludes cycles.  \<open>insert_in_parent\<close> and
  \<open>coalesce_or_redistribute\<close> climb the tree with the number of node objects as fuel.  \<open>pop_loop\<close>, \<open>tf_find_loop\<close> and
  \<open>scan_leaf\<close> read at least one byte of a page per round, so the length of the page is enough for every round before
  an access out of range.  Running out is the value \<open>Diverges\<close>, never a normal result.  \<open>internal_scan\<close> counts the
  remaining entries and returns \<open>-1\<close> after the last one, as the code does.  Loops with no bound of their own are
  \<open>partial_function (option)\<close>: \<open>hash_loop\<close>, \<open>shrink\<close>, \<open>scan_rounds\<close>, \<open>fit_loop\<close>, \<open>drain\<close>, \<open>d_loop\<close> and \<open>child_loop\<close>; where a theorem says that they
  return, that is proved.

  \<^bold>\<open>Not modelled.\<close>  \<^verbatim>\<open>consensus/paxos\<close>, \<^verbatim>\<open>prefix_compression\<close> and the optimistic and two-phase-locking
  transaction classes are empty or consist of declarations without bodies.  Socket options, the futures that carry a task's
  result, and copy constructors and accessors that only copy a value are left out.  The lexer and the parser are generated by
  flex and bison; the statements they return are an argument of \<open>Sql\<close>, \<open>Database\<close> and \<open>Startup\<close>.
\<close>

end
